(* ===== verification/Prelude.thy ===== *)
theory Prelude
  imports Main "HOL-Library.Word" "HOL-Library.Monad_Syntax"
begin

text \<open>
  Shared vocabulary of the development.

  Bytes and machine integers are words of the width the Rust source gives them.
  A Rust expression that may panic (an index, a range, a \<open>copy_from_slice\<close>) is a value
  of type \<^typ>\<open>'a option\<close> in which \<^term>\<open>None\<close> is the panic; sequencing is the
  \<open>do\<close> notation of \<^theory_text>\<open>HOL-Library.Monad_Syntax\<close>.  A Rust \<open>Option\<close> that is the
  result of such an expression is therefore an option of an option.
\<close>

unbundle bit_operations_syntax

type_synonym byte = "8 word"
type_synonym u16 = "16 word"
type_synonym u32 = "32 word"

text \<open>A computation that may panic.\<close>

type_synonym 'a panics = "'a option"

named_theorems wire_simps \<open>lengths and values of the big-endian encodings\<close>
named_theorems panic_simps \<open>indexing and slicing that stays inside the buffer\<close>

section \<open>Indexing and slicing\<close>

text \<open>\<open>data[i]\<close>, \<open>&data[a..b]\<close> and \<open>p[a..b].copy_from_slice(src)\<close> of a slice or a vector.\<close>

definition index_at :: "'a list \<Rightarrow> nat \<Rightarrow> 'a panics" where
  "index_at xs i = (if i < length xs then Some (xs ! i) else None)"

definition slice_at :: "'a list \<Rightarrow> nat \<Rightarrow> nat \<Rightarrow> 'a list panics" where
  "slice_at xs a b = (if a \<le> b \<and> b \<le> length xs then Some (take (b - a) (drop a xs)) else None)"

definition copy_at :: "'a list \<Rightarrow> nat \<Rightarrow> nat \<Rightarrow> 'a list \<Rightarrow> 'a list panics" where
  "copy_at xs a b src =
     (if a \<le> b \<and> b \<le> length xs \<and> length src = b - a
      then Some (take a xs @ src @ drop b xs) else None)"

lemma index_at_in [panic_simps]: "i < length xs \<Longrightarrow> index_at xs i = Some (xs ! i)"
  by (simp add: index_at_def)

lemma slice_at_in [panic_simps]:
  "a \<le> b \<Longrightarrow> b \<le> length xs \<Longrightarrow> slice_at xs a b = Some (take (b - a) (drop a xs))"
  by (simp add: slice_at_def)

lemma slice_at_length: "slice_at xs a b = Some ys \<Longrightarrow> length ys = b - a"
  by (auto simp: slice_at_def split: if_splits)

lemma index_at_append [simp]: "index_at (pre @ x # post) (length pre) = Some x"
  by (simp add: index_at_def)

lemma index_at_append_off:
  "index_at (pre @ xs) (length pre + k) = index_at xs k"
  by (simp add: index_at_def nth_append)

lemma slice_at_append:
  "length ys = n \<Longrightarrow> a = length pre \<Longrightarrow> b = length pre + n \<Longrightarrow>
   slice_at (pre @ ys @ post) a b = Some ys"
  by (simp add: slice_at_def)

section \<open>Big-endian encodings\<close>

text \<open>
  \<open>u16::from_be_bytes\<close>, \<open>u32::from_be_bytes\<close> and \<open>to_be_bytes\<close>, and the cast
  \<open>n as u16\<close> of a \<open>usize\<close>, which keeps the low 16 bits.
\<close>

definition as_u16 :: "nat \<Rightarrow> u16" where
  "as_u16 n = word_of_nat n"

definition as_u8 :: "nat \<Rightarrow> byte" where
  "as_u8 n = word_of_nat n"

definition as_u32 :: "nat \<Rightarrow> u32" where
  "as_u32 n = word_of_nat n"

definition from_be16 :: "byte \<Rightarrow> byte \<Rightarrow> u16" where
  "from_be16 a b = as_u16 (unat a * 256 + unat b)"

definition to_be16 :: "u16 \<Rightarrow> byte list" where
  "to_be16 w = [as_u8 (unat w div 256), as_u8 (unat w)]"

definition from_be32 :: "byte \<Rightarrow> byte \<Rightarrow> byte \<Rightarrow> byte \<Rightarrow> u32" where
  "from_be32 a b c d =
     as_u32 (((unat a * 256 + unat b) * 256 + unat c) * 256 + unat d)"

definition to_be32 :: "u32 \<Rightarrow> byte list" where
  "to_be32 w = [as_u8 (unat w div 16777216), as_u8 (unat w div 65536),
                as_u8 (unat w div 256), as_u8 (unat w)]"

lemma unat_byte_less [simp]: "unat (b :: byte) < 256"
  by (rule order.strict_trans2 [OF unsigned_less]) simp

lemma unat_byte_le: "unat (b :: byte) \<le> 255"
  using unat_byte_less [of b] by linarith

lemma unat_u16_less [simp]: "unat (w :: u16) < 65536"
  by (rule order.strict_trans2 [OF unsigned_less]) simp

lemma unat_u32_less [simp]: "unat (w :: u32) < 4294967296"
  by (rule order.strict_trans2 [OF unsigned_less]) simp

lemma unat_as_u16 [wire_simps]: "unat (as_u16 n) = n mod 65536"
  by (simp add: as_u16_def unat_of_nat)

lemma unat_as_u8 [wire_simps]: "unat (as_u8 n) = n mod 256"
  by (simp add: as_u8_def unat_of_nat)

lemma unat_as_u32 [wire_simps]: "unat (as_u32 n) = n mod 4294967296"
  by (simp add: as_u32_def unat_of_nat)

lemma as_u8_unat [simp]: "as_u8 (unat b) = b"
  by (simp add: word_unat_eq_iff unat_as_u8)

lemma as_u16_unat [simp]: "as_u16 (unat w) = w"
  by (simp add: word_unat_eq_iff unat_as_u16)

lemma unat_from_be16 [wire_simps]: "unat (from_be16 a b) = unat a * 256 + unat b"
proof -
  have "unat a * 256 + unat b < 65536"
    using unat_byte_less [of a] unat_byte_less [of b] by linarith
  then show ?thesis by (simp add: from_be16_def unat_as_u16)
qed

lemma length_to_be16 [wire_simps, simp]: "length (to_be16 w) = 2"
  by (simp add: to_be16_def)

lemma length_to_be32 [wire_simps, simp]: "length (to_be32 w) = 4"
  by (simp add: to_be32_def)

lemma from_to_be16 [simp]: "from_be16 (as_u8 (unat w div 256)) (as_u8 (unat w)) = w"
proof -
  have "unat w div 256 < 256" using unat_u16_less [of w] by linarith
  then show ?thesis
    by (simp add: word_unat_eq_iff unat_from_be16 unat_as_u8)
qed

lemma from_be16_as_u8 [simp]: "from_be16 (as_u8 (n div 256)) (as_u8 n) = as_u16 n"
proof -
  have "n mod 65536 = 256 * (n div 256 mod 256) + n mod 256"
    using mod_mult2_eq [of n 256 256] by simp
  then show ?thesis
    by (simp only: word_unat_eq_iff unat_from_be16 unat_as_u8 unat_as_u16 mult.commute)
qed

lemma from_to_be16_nth [simp]: "from_be16 (to_be16 w ! 0) (to_be16 w ! Suc 0) = w"
  by (simp add: to_be16_def)

lemma to_from_be16: "to_be16 (from_be16 a b) = [a, b]"
  by (simp add: to_be16_def word_unat_eq_iff unat_from_be16 unat_as_u8)

lemma div_mod_base256: "n div (k * 256) * 256 + n div k mod 256 = (n div k :: nat)"
  by (simp only: div_mult2_eq div_mult_mod_eq)

lemma from_to_be32 [simp]:
  "from_be32 (as_u8 (unat w div 16777216)) (as_u8 (unat w div 65536))
     (as_u8 (unat w div 256)) (as_u8 (unat w)) = w"
proof -
  let ?n = "unat w"
  have "?n div 16777216 < 256" using unat_u32_less [of w] by (simp add: div_less_iff_less_mult)
  then have a: "?n div 16777216 mod 256 = ?n div 16777216" by simp
  have b: "?n div 16777216 * 256 + ?n div 65536 mod 256 = ?n div 65536"
    using div_mod_base256 [of ?n 65536] by simp
  have c: "?n div 65536 * 256 + ?n div 256 mod 256 = ?n div 256"
    using div_mod_base256 [of ?n 256] by simp
  have "from_be32 (as_u8 (?n div 16777216)) (as_u8 (?n div 65536)) (as_u8 (?n div 256)) (as_u8 ?n)
      = as_u32 ?n"
    by (simp only: from_be32_def unat_as_u8 a b c div_mult_mod_eq)
  then show ?thesis by (simp add: word_unat_eq_iff unat_as_u32)
qed

lemma from_to_be32_nth [simp]:
  "from_be32 (to_be32 w ! 0) (to_be32 w ! Suc 0) (to_be32 w ! 2) (to_be32 w ! 3) = w"
  by (simp add: to_be32_def numeral_2_eq_2 numeral_3_eq_3)

text \<open>The test \<open>len_byte & 0xC0 == 0xC0\<close> asks whether the byte is at least 192.\<close>

lemma and_192_nat: "192 \<le> n \<Longrightarrow> n < 256 \<Longrightarrow> and n 192 = (192 :: nat)"
proof -
  have "list_all (\<lambda>i. and i 192 = (192 :: nat)) [192..<256]"
    by (simp add: upt_conv_Cons)
  then have "\<forall>i \<in> {192..<256}. and i 192 = (192 :: nat)"
    by (simp only: list_all_iff set_upt)
  then show "192 \<le> n \<Longrightarrow> n < 256 \<Longrightarrow> and n 192 = (192 :: nat)"
    by (metis atLeastLessThan_iff)
qed

lemma high_bits_set: "(b :: byte) AND 0xC0 = 0xC0 \<longleftrightarrow> 192 \<le> unat b"
proof
  assume "b AND 0xC0 = 0xC0"
  then have "0xC0 \<le> b" by (metis word_and_le2)
  then show "192 \<le> unat b" by (simp add: word_le_nat_alt)
next
  assume "192 \<le> unat b"
  then show "b AND 0xC0 = 0xC0"
    by (simp add: word_unat_eq_iff unsigned_and_eq and_192_nat)
qed

section \<open>Lists\<close>

lemma take_drop_append_exact: "length a = n \<Longrightarrow> take n (a @ b) = a"
  by simp

lemma drop_append_exact: "length a = n \<Longrightarrow> drop n (a @ b) = b"
  by simp

lemma take_drop_split [simp]: "take k (drop n xs) @ drop (n + k) xs = drop n xs"
  by (metis add.commute append_take_drop_id drop_drop)

lemma distinct_snoc: "x \<notin> set xs \<Longrightarrow> distinct xs \<Longrightarrow> distinct (xs @ [x])"
  by simp

section \<open>Options\<close>

lemma bind_Some_iff: "Option.bind m f = Some y \<longleftrightarrow> (\<exists>x. m = Some x \<and> f x = Some y)"
  by (cases m) auto

lemma bind_neq_None:
  "m = Some x \<Longrightarrow> f x \<noteq> None \<Longrightarrow> Option.bind m f \<noteq> None"
  by simp

end
