(* ===== verification/Rust_Str.thy ===== *)
theory Rust_Str
  imports Prelude
begin

text \<open>
  Rust strings.  A \<open>String\<close> or \<open>&str\<close> is its UTF-8 bytes, so \<open>as_bytes\<close> is the
  identity and a \<open>format!\<close> is concatenation; \<open>std::str::from_utf8\<close> is the check
  \<open>utf8_valid\<close>.  The operations are those the source uses: \<open>join\<close>, \<open>split\<close>,
  \<open>split_once\<close>, \<open>trim\<close>, \<open>starts_with\<close>, the ASCII case operations and the decimal
  rendering of an unsigned integer.
\<close>

type_synonym rstr = "byte list"

text \<open>A string literal of the source (all of them are ASCII).\<close>

definition lit :: "string \<Rightarrow> rstr" where
  "lit s = map of_char s"

lemma length_lit [simp]: "length (lit s) = length s"
  by (simp add: lit_def)

lemma lit_simps: "lit [] = []" "lit (c # cs) = of_char c # lit cs"
  by (simp_all add: lit_def)

section \<open>UTF-8\<close>

text \<open>
  Well-formed UTF-8 as \<open>str::from_utf8\<close> decides it: no overlong form, no surrogate,
  nothing above U+10FFFF.  \<open>utf8_head\<close> is the number of bytes of the first character,
  0 when there is no well-formed one.
\<close>

definition cont_byte :: "byte \<Rightarrow> bool" where
  "cont_byte b \<longleftrightarrow> 0x80 \<le> b \<and> b \<le> 0xBF"

definition second3 :: "byte \<Rightarrow> byte \<Rightarrow> bool" where
  "second3 b c \<longleftrightarrow>
     (if b = 0xE0 then 0xA0 \<le> c \<and> c \<le> 0xBF
      else if b = 0xED then 0x80 \<le> c \<and> c \<le> 0x9F else cont_byte c)"

definition second4 :: "byte \<Rightarrow> byte \<Rightarrow> bool" where
  "second4 b c \<longleftrightarrow>
     (if b = 0xF0 then 0x90 \<le> c \<and> c \<le> 0xBF
      else if b = 0xF4 then 0x80 \<le> c \<and> c \<le> 0x8F else cont_byte c)"

definition seq_len :: "byte \<Rightarrow> nat" where
  "seq_len b =
     (if b \<le> 0x7F then 1
      else if 0xC2 \<le> b \<and> b \<le> 0xDF then 2
      else if 0xE0 \<le> b \<and> b \<le> 0xEF then 3
      else if 0xF0 \<le> b \<and> b \<le> 0xF4 then 4 else 0)"

definition tail_ok :: "byte \<Rightarrow> byte list \<Rightarrow> bool" where
  "tail_ok b t =
     (case t of
        [] \<Rightarrow> True
      | [c] \<Rightarrow> cont_byte c
      | [c, d] \<Rightarrow> second3 b c \<and> cont_byte d
      | c # ds \<Rightarrow> second4 b c \<and> list_all cont_byte ds)"

definition utf8_head :: "byte list \<Rightarrow> nat" where
  "utf8_head s =
     (case s of [] \<Rightarrow> 0
      | b # r \<Rightarrow> (let n = seq_len b in
          if n = 0 \<or> length r < n - 1 \<or> \<not> tail_ok b (take (n - 1) r) then 0 else n))"

function utf8_valid :: "byte list \<Rightarrow> bool" where
  "utf8_valid s =
     (if s = [] then True
      else (let n = utf8_head s in if n = 0 then False else utf8_valid (drop n s)))"
  by pat_completeness auto
termination
  by (relation "measure length") auto

declare utf8_valid.simps [simp del]

lemma utf8_valid_Nil [simp]: "utf8_valid []"
  by (simp add: utf8_valid.simps)

lemma utf8_head_length: "utf8_head s \<le> length s"
  by (auto simp: utf8_head_def Let_def split: list.splits if_splits)

lemma utf8_head_append: "0 < utf8_head a \<Longrightarrow> utf8_head (a @ b) = utf8_head a"
  by (cases a) (auto simp: utf8_head_def Let_def split: if_splits)

lemma utf8_valid_append: "utf8_valid a \<Longrightarrow> utf8_valid b \<Longrightarrow> utf8_valid (a @ b)"
proof (induction a rule: utf8_valid.induct)
  case (1 a)
  show ?case
  proof (cases "a = []")
    case False
    define n where "n = utf8_head a"
    from False "1.prems"(1) have n: "0 < n" "utf8_valid (drop n a)"
      by (auto simp: n_def utf8_valid.simps [of a] Let_def split: if_splits)
    have "utf8_valid (drop n a @ b)"
      using "1.IH" [OF False n_def] n "1.prems"(2) by simp
    moreover have "n \<le> length a" by (simp add: n_def utf8_head_length)
    ultimately show ?thesis
      using False n
      by (simp add: utf8_valid.simps [of "a @ b"] utf8_head_append n_def)
  qed (use 1 in simp)
qed

lemma utf8_valid_Cons_ascii [simp]: "b \<le> 0x7F \<Longrightarrow> utf8_valid (b # r) = utf8_valid r"
  by (simp add: utf8_valid.simps [of "b # r"] utf8_head_def seq_len_def tail_ok_def)

lemma utf8_valid_ascii: "(\<forall>b \<in> set a. b \<le> 0x7F) \<Longrightarrow> utf8_valid a"
  by (induction a) auto

section \<open>Joining\<close>

text \<open>\<open>labels.join(sep)\<close>.\<close>

fun join_str :: "rstr \<Rightarrow> rstr list \<Rightarrow> rstr" where
  "join_str sep [] = []"
| "join_str sep [x] = x"
| "join_str sep (x # y # ys) = x @ sep @ join_str sep (y # ys)"

lemma utf8_valid_join:
  "utf8_valid sep \<Longrightarrow> (\<forall>x \<in> set xs. utf8_valid x) \<Longrightarrow> utf8_valid (join_str sep xs)"
  by (induction sep xs rule: join_str.induct) (auto intro!: utf8_valid_append)

section \<open>Splitting\<close>

text \<open>\<open>s.split(c)\<close> and \<open>s.split_once(c)\<close> for an ASCII character \<open>c\<close>.\<close>

fun split_on :: "byte \<Rightarrow> rstr \<Rightarrow> rstr list" where
  "split_on c [] = [[]]"
| "split_on c (b # r) =
     (if b = c then [] # split_on c r
      else (case split_on c r of [] \<Rightarrow> [[b]] | x # xs \<Rightarrow> (b # x) # xs))"

fun split_once :: "byte \<Rightarrow> rstr \<Rightarrow> (rstr \<times> rstr) option" where
  "split_once c [] = None"
| "split_once c (b # r) =
     (if b = c then Some ([], r)
      else (case split_once c r of None \<Rightarrow> None | Some (k, v) \<Rightarrow> Some (b # k, v)))"

lemma split_on_nonempty [simp]: "split_on c s \<noteq> []"
  by (induction s) (auto split: list.splits)

lemma split_on_no_sep: "c \<notin> set s \<Longrightarrow> split_on c s = [s]"
  by (induction s) auto

lemma split_on_append: "c \<notin> set s \<Longrightarrow> split_on c (s @ c # r) = s # split_on c r"
  by (induction s) auto

lemma split_once_append: "c \<notin> set k \<Longrightarrow> split_once c (k @ c # v) = Some (k, v)"
  by (induction k) auto

lemma split_once_None: "split_once c s = None \<longleftrightarrow> c \<notin> set s"
  by (induction s) (auto split: option.splits)

lemma split_on_join:
  "xs \<noteq> [] \<Longrightarrow> (\<forall>x \<in> set xs. c \<notin> set x) \<Longrightarrow> split_on c (join_str [c] xs) = xs"
  by (induction "[c]" xs rule: join_str.induct) (auto simp: split_on_no_sep split_on_append)

section \<open>Trimming\<close>

text \<open>
  \<open>str::trim\<close> removes the characters of the Unicode property White_Space at both ends.
  \<open>white_space\<close> lists their UTF-8 encodings: U+0009 to U+000D, U+0020, U+0085, U+00A0,
  U+1680, U+2000 to U+200A, U+2028, U+2029, U+202F, U+205F and U+3000.
\<close>

definition white_space :: "byte list list" where
  "white_space =
     [[0x09], [0x0A], [0x0B], [0x0C], [0x0D], [0x20], [0xC2, 0x85], [0xC2, 0xA0],
      [0xE1, 0x9A, 0x80],
      [0xE2, 0x80, 0x80], [0xE2, 0x80, 0x81], [0xE2, 0x80, 0x82], [0xE2, 0x80, 0x83],
      [0xE2, 0x80, 0x84], [0xE2, 0x80, 0x85], [0xE2, 0x80, 0x86], [0xE2, 0x80, 0x87],
      [0xE2, 0x80, 0x88], [0xE2, 0x80, 0x89], [0xE2, 0x80, 0x8A],
      [0xE2, 0x80, 0xA8], [0xE2, 0x80, 0xA9], [0xE2, 0x80, 0xAF], [0xE2, 0x81, 0x9F],
      [0xE3, 0x80, 0x80]]"

definition is_prefix :: "'a list \<Rightarrow> 'a list \<Rightarrow> bool" where
  "is_prefix p s \<longleftrightarrow> length p \<le> length s \<and> take (length p) s = p"

text \<open>One white-space character in front, given as the number of its bytes (0: none).\<close>

definition ws_front :: "byte list list \<Rightarrow> rstr \<Rightarrow> nat" where
  "ws_front wss s = (case filter (\<lambda>w. is_prefix w s) wss of [] \<Rightarrow> 0 | w # _ \<Rightarrow> length w)"

function strip_front :: "byte list list \<Rightarrow> rstr \<Rightarrow> rstr" where
  "strip_front wss s =
     (let k = ws_front wss s in
      if k = 0 \<or> s = [] then s else strip_front wss (drop k s))"
  by pat_completeness auto
termination
  by (relation "measure (\<lambda>(wss, s). length s)") auto

declare strip_front.simps [simp del]

definition trim :: "rstr \<Rightarrow> rstr" where
  "trim s = rev (strip_front (map rev white_space) (rev (strip_front white_space s)))"

lemma strip_front_none: "ws_front wss s = 0 \<Longrightarrow> strip_front wss s = s"
  by (simp add: strip_front.simps)

lemma ws_front_Nil [simp]: "(\<forall>w \<in> set wss. w \<noteq> []) \<Longrightarrow> ws_front wss [] = 0"
  by (auto simp: ws_front_def is_prefix_def filter_empty_conv split: list.splits)

text \<open>
  A string whose first and last bytes are ASCII and not white space (every byte of a
  printable ASCII token) is its own trim.
\<close>

definition trim_stable :: "rstr \<Rightarrow> bool" where
  "trim_stable s \<longleftrightarrow> s = [] \<or> (0x20 < hd s \<and> hd s \<le> 0x7F \<and> 0x20 < last s \<and> last s \<le> 0x7F)"

lemma white_space_ends:
  "\<forall>w \<in> set white_space. w \<noteq> [] \<and> \<not> (0x20 < hd w \<and> hd w \<le> 0x7F) \<and> \<not> (0x20 < last w \<and> last w \<le> 0x7F)"
  by (simp add: white_space_def)

lemma ws_front_zero:
  assumes "\<forall>w \<in> set wss. w \<noteq> [] \<and> hd w \<noteq> b"
  shows "ws_front wss (b # r) = 0"
proof -
  have "\<not> is_prefix w (b # r)" if "w \<in> set wss" for w
    using assms that by (cases w) (auto simp: is_prefix_def)
  then have "filter (\<lambda>w. is_prefix w (b # r)) wss = []"
    by (simp add: filter_empty_conv)
  then show ?thesis by (simp add: ws_front_def)
qed

lemma ws_front_ascii:
  "0x20 < b \<Longrightarrow> b \<le> 0x7F \<Longrightarrow> ws_front white_space (b # r) = 0"
  using white_space_ends by (intro ws_front_zero) blast

lemma ws_front_ascii_rev:
  assumes "0x20 < b" and "b \<le> 0x7F"
  shows "ws_front (map rev white_space) (b # r) = 0"
proof (rule ws_front_zero, rule ballI)
  fix v assume "v \<in> set (map rev white_space)"
  then obtain w where "w \<in> set white_space" and "v = rev w" by auto
  with white_space_ends assms show "v \<noteq> [] \<and> hd v \<noteq> b"
    by (auto simp: hd_rev)
qed

lemma trim_Nil [simp]: "trim [] = []"
  by (simp add: trim_def strip_front_none white_space_def)

lemma trim_stable_id:
  assumes "trim_stable s"
  shows "trim s = s"
proof (cases "s = []")
  case False
  then have a: "strip_front white_space s = s"
    using assms by (cases s) (auto simp: trim_stable_def ws_front_ascii strip_front_none)
  obtain b t where r: "rev s = b # t" and l: "b = last s"
    using False by (metis hd_rev list.collapse rev_is_Nil_conv)
  have "strip_front (map rev white_space) (rev s) = rev s"
    using assms False by (auto simp: r l trim_stable_def ws_front_ascii_rev strip_front_none)
  with a show ?thesis by (simp add: trim_def)
qed simp

section \<open>ASCII case, prefixes, numbers\<close>

definition to_ascii_lower :: "byte \<Rightarrow> byte" where
  "to_ascii_lower b = (if 0x41 \<le> b \<and> b \<le> 0x5A then b + 0x20 else b)"

definition to_ascii_lowercase :: "rstr \<Rightarrow> rstr" where
  "to_ascii_lowercase s = map to_ascii_lower s"

definition eq_ignore_ascii_case :: "rstr \<Rightarrow> rstr \<Rightarrow> bool" where
  "eq_ignore_ascii_case a b \<longleftrightarrow> map to_ascii_lower a = map to_ascii_lower b"

definition starts_with :: "rstr \<Rightarrow> rstr \<Rightarrow> bool" where
  "starts_with s p \<longleftrightarrow> is_prefix p s"

fun dec :: "nat \<Rightarrow> rstr" where
  "dec n = (if n < 10 then [as_u8 (48 + n)] else dec (n div 10) @ [as_u8 (48 + n mod 10)])"

declare dec.simps [simp del]

lemma dec_nonempty [simp]: "dec n \<noteq> []"
  by (simp add: dec.simps [of n])

lemma dec_digits: "b \<in> set (dec n) \<Longrightarrow> 48 \<le> unat b \<and> unat b < 58"
proof (induction n rule: dec.induct)
  case (1 n)
  then show ?case
    by (cases "n < 10") (auto simp: dec.simps [of n] unat_as_u8)
qed

end
