(* ===== verification/Dns_Wire.thy ===== *)
theory Dns_Wire
  imports Rust_Str
begin

text \<open>
  The DNS wire-format parser of \<open>mihomo-android-ffi/src/dns_table.rs\<close>:
  \<open>read_dns_name\<close>, \<open>parse_dns_query_name\<close> and \<open>parse_dns_response_records\<close>.
  Every index and range of the source is an \<open>index_at\<close> or \<open>slice_at\<close>, so \<^term>\<open>None\<close>
  is a panic of the parser and the inner option is the \<open>Option\<close> it returns.
\<close>

section \<open>Model\<close>

text \<open>\<open>std::net::IpAddr\<close>; a V6 address holds its 16 octets.\<close>

datatype ip_addr = V4 byte byte byte byte | V6 "byte list"

fun ip_wf :: "ip_addr \<Rightarrow> bool" where
  "ip_wf (V4 a b c d) = True"
| "ip_wf (V6 os) = (length os = 16)"

text \<open>
  The loop of \<open>read_dns_name\<close> with its local variables as arguments.  Each jump spends
  one of 32, and between jumps \<open>pos\<close> grows inside the buffer: that is why it stops.
\<close>

function read_name_loop ::
  "byte list \<Rightarrow> rstr list \<Rightarrow> nat \<Rightarrow> bool \<Rightarrow> nat \<Rightarrow> nat \<Rightarrow> (rstr list \<times> nat) option panics"
where
  "read_name_loop data labels pos jumped end_pos jumps =
     (if length data \<le> pos then Some None
      else do {
        len_byte \<leftarrow> index_at data pos;
        if len_byte = 0 then Some (Some (labels, if jumped then end_pos else pos + 1))
        else if len_byte AND 0xC0 = 0xC0 then
          (if length data \<le> pos + 1 then Some None
           else do {
             lo \<leftarrow> index_at data (pos + 1);
             let ptr = push_bit 8 (and (unat len_byte) 0x3F) OR unat lo;
             if 32 < jumps + 1 then Some None
             else read_name_loop data labels ptr True
                    (if jumped then end_pos else pos + 2) (jumps + 1)
           })
        else
          (let label_len = unat len_byte in
           if length data < pos + 1 + label_len then Some None
           else do {
             label \<leftarrow> slice_at data (pos + 1) (pos + 1 + label_len);
             if utf8_valid label
             then read_name_loop data (labels @ [label]) (pos + (1 + label_len))
                    jumped end_pos jumps
             else Some None
           })
      })"
  by pat_completeness auto
termination
  by (relation "measures [\<lambda>(data, labels, pos, jumped, end_pos, jumps). 33 - jumps,
                          \<lambda>(data, labels, pos, jumped, end_pos, jumps). length data - pos]") auto

declare read_name_loop.simps [simp del]

definition read_dns_name :: "byte list \<Rightarrow> nat \<Rightarrow> (rstr \<times> nat) option panics" where
  "read_dns_name data offset = do {
     r \<leftarrow> read_name_loop data [] offset False 0 0;
     Some (map_option (\<lambda>(labels, end_pos). (join_str (lit ''.'') labels, end_pos)) r)
   }"

definition parse_dns_query_name :: "byte list \<Rightarrow> rstr option panics" where
  "parse_dns_query_name data =
     (if length data < 12 then Some None
      else do {
        r \<leftarrow> read_dns_name data 12;
        Some (map_option fst r)
      })"

text \<open>The loop over the questions after the first; \<open>Some None\<close> is \<open>return results\<close>.\<close>

primrec skip_questions :: "byte list \<Rightarrow> nat \<Rightarrow> nat \<Rightarrow> nat option panics" where
  "skip_questions data 0 offset = Some (Some offset)"
| "skip_questions data (Suc n) offset = do {
     r \<leftarrow> read_dns_name data offset;
     (case r of
        None \<Rightarrow> Some None
      | Some (_, new_offset) \<Rightarrow> skip_questions data n (new_offset + 4))
   }"

type_synonym dns_record = "ip_addr \<times> rstr \<times> u32"

text \<open>The \<open>match rtype\<close> of the answer loop: what one answer adds to the results.\<close>

definition answer_data ::
  "byte list \<Rightarrow> rstr \<Rightarrow> nat \<Rightarrow> u16 \<Rightarrow> u32 \<Rightarrow> nat \<Rightarrow> dns_record list panics" where
  "answer_data data hostname offset rtype ttl rdlength =
     (if rtype = 1 \<and> rdlength = 4 then do {
        a \<leftarrow> index_at data offset;
        b \<leftarrow> index_at data (offset + 1);
        c \<leftarrow> index_at data (offset + 2);
        d \<leftarrow> index_at data (offset + 3);
        Some [(V4 a b c d, hostname, ttl)]
      }
      else if rtype = 28 \<and> rdlength = 16 then do {
        octets \<leftarrow> slice_at data offset (offset + 16);
        Some [(V6 octets, hostname, ttl)]
      }
      else Some [])"

primrec answer_loop ::
  "byte list \<Rightarrow> rstr \<Rightarrow> nat \<Rightarrow> nat \<Rightarrow> dns_record list \<Rightarrow> dns_record list panics" where
  "answer_loop data hostname 0 offset results = Some results"
| "answer_loop data hostname (Suc n) offset results =
     (if length data \<le> offset then Some results
      else do {
        r \<leftarrow> read_dns_name data offset;
        (case r of
           None \<Rightarrow> Some results
         | Some (_, offset) \<Rightarrow>
             if length data < offset + 10 then Some results
             else do {
               t0 \<leftarrow> index_at data offset;
               t1 \<leftarrow> index_at data (offset + 1);
               l0 \<leftarrow> index_at data (offset + 4);
               l1 \<leftarrow> index_at data (offset + 5);
               l2 \<leftarrow> index_at data (offset + 6);
               l3 \<leftarrow> index_at data (offset + 7);
               r0 \<leftarrow> index_at data (offset + 8);
               r1 \<leftarrow> index_at data (offset + 9);
               let rdlength = unat (from_be16 r0 r1);
               let offset = offset + 10;
               if length data < offset + rdlength then Some results
               else do {
                 new \<leftarrow> answer_data data hostname offset (from_be16 t0 t1)
                          (from_be32 l0 l1 l2 l3) rdlength;
                 answer_loop data hostname n (offset + rdlength) (results @ new)
               }
             })
      })"

definition parse_dns_response_records :: "byte list \<Rightarrow> dns_record list panics" where
  "parse_dns_response_records data =
     (if length data < 12 then Some []
      else do {
        q0 \<leftarrow> index_at data 4;
        q1 \<leftarrow> index_at data 5;
        a0 \<leftarrow> index_at data 6;
        a1 \<leftarrow> index_at data 7;
        let qdcount = unat (from_be16 q0 q1);
        let ancount = unat (from_be16 a0 a1);
        r \<leftarrow> read_dns_name data 12;
        (case r of
           None \<Rightarrow> Some []
         | Some (hostname, offset) \<Rightarrow> do {
             q \<leftarrow> skip_questions data (qdcount - 1) (offset + 4);
             (case q of
                None \<Rightarrow> Some []
              | Some offset \<Rightarrow> answer_loop data hostname ancount offset [])
           })
      })"

section \<open>The name reader\<close>

text \<open>
  One turn of the loop with the bounds checks discharged; \<open>ptr_target\<close> is the offset a
  compression pointer holds.
\<close>

definition ptr_target :: "byte \<Rightarrow> byte \<Rightarrow> nat" where
  "ptr_target hi lo = push_bit 8 (and (unat hi) 0x3F) OR unat lo"

lemma read_name_loop_unfold:
  "read_name_loop data labels pos jumped end_pos jumps =
     (if length data \<le> pos then Some None
      else if data ! pos = 0 then Some (Some (labels, if jumped then end_pos else pos + 1))
      else if data ! pos AND 0xC0 = 0xC0 then
        (if length data \<le> pos + 1 \<or> 32 < jumps + 1 then Some None
         else read_name_loop data labels (ptr_target (data ! pos) (data ! (pos + 1))) True
                (if jumped then end_pos else pos + 2) (jumps + 1))
      else if length data < pos + 1 + unat (data ! pos) then Some None
      else if utf8_valid (take (unat (data ! pos)) (drop (pos + 1) data)) then
        read_name_loop data (labels @ [take (unat (data ! pos)) (drop (pos + 1) data)])
          (pos + (1 + unat (data ! pos))) jumped end_pos jumps
      else Some None)"
  by (subst read_name_loop.simps) (simp add: panic_simps ptr_target_def Let_def)

text \<open>The matching induction rule: a jump spends one of 32, a label advances \<open>pos\<close>.\<close>

lemma name_loop_induct [case_names turn]:
  assumes turn: "\<And>data labels pos jumped end_pos jumps.
    (pos < length data \<Longrightarrow> jumps < 32 \<Longrightarrow>
       (\<And>labels' pos' jumped' end_pos'. P data labels' pos' jumped' end_pos' (Suc jumps))) \<Longrightarrow>
    (\<And>labels' pos'. pos < length data \<Longrightarrow> pos < pos' \<Longrightarrow>
       P data labels' pos' jumped end_pos jumps) \<Longrightarrow>
    P data labels pos jumped end_pos jumps"
  shows "P data labels pos jumped end_pos (jumps :: nat)"
proof (induction "33 - jumps" arbitrary: labels pos jumped end_pos jumps rule: less_induct)
  case outer: less
  show ?case
  proof (induction "length data - pos" arbitrary: labels pos rule: less_induct)
    case less
    show ?case
      by (rule turn) (auto intro!: outer less)
  qed
qed

text \<open>It never panics.\<close>

lemma read_name_loop_total: "\<exists>r. read_name_loop data labels pos jumped end_pos jumps = Some r"
proof (induction data labels pos jumped end_pos jumps rule: name_loop_induct)
  case (turn data labels pos jumped end_pos jumps)
  show ?case
    by (subst read_name_loop_unfold) (simp add: turn)
qed

lemma read_dns_name_total: "\<exists>r. read_dns_name data offset = Some r"
  using read_name_loop_total [of data "[]" offset False 0 0]
  by (auto simp: read_dns_name_def)

lemma parse_dns_query_name_total: "\<exists>name. parse_dns_query_name query = Some name"
  using read_dns_name_total [of query 12]
  by (auto simp: parse_dns_query_name_def split: option.splits)

section \<open>Specification of a name\<close>

text \<open>
  The reading the format defines, without the loop's variables: \<open>dns_name data k pos ls e\<close>
  says that the name at \<open>pos\<close> has the labels \<open>ls\<close>, follows at most \<open>k\<close> pointers, and that
  its own encoding ends at \<open>e\<close> (a pointer ends a name).
\<close>

inductive dns_name :: "byte list \<Rightarrow> nat \<Rightarrow> nat \<Rightarrow> rstr list \<Rightarrow> nat \<Rightarrow> bool"
  for data :: "byte list" where
  name_root: "pos < length data \<Longrightarrow> data ! pos = 0 \<Longrightarrow> dns_name data k pos [] (Suc pos)"
| name_pointer: "Suc pos < length data \<Longrightarrow> data ! pos AND 0xC0 = 0xC0 \<Longrightarrow>
     dns_name data k (ptr_target (data ! pos) (data ! Suc pos)) ls e \<Longrightarrow>
     dns_name data (Suc k) pos ls (Suc (Suc pos))"
| name_label: "pos < length data \<Longrightarrow> n = unat (data ! pos) \<Longrightarrow> n \<noteq> 0 \<Longrightarrow>
     data ! pos AND 0xC0 \<noteq> 0xC0 \<Longrightarrow> Suc (pos + n) \<le> length data \<Longrightarrow>
     l = take n (drop (Suc pos) data) \<Longrightarrow> utf8_valid l \<Longrightarrow>
     dns_name data k (Suc (pos + n)) ls e \<Longrightarrow> dns_name data k pos (l # ls) e"

inductive_simps dns_name_unfold: "dns_name data k pos ls e"

lemma dns_name_end: "dns_name data k pos ls e \<Longrightarrow> pos < e \<and> e \<le> length data"
  by (induction rule: dns_name.induct) auto

lemma dns_name_utf8: "dns_name data k pos ls e \<Longrightarrow> list_all utf8_valid ls"
  by (induction rule: dns_name.induct) auto

lemma dns_name_label_bound:
  "dns_name data k pos ls e \<Longrightarrow> l \<in> set ls \<Longrightarrow> 0 < length l \<and> length l < 192"
proof (induction rule: dns_name.induct)
  case (name_label pos n l' k ls e)
  have "unat (data ! pos) < 192"
    using name_label by (simp add: high_bits_set not_le)
  with name_label show ?case by auto
qed auto

lemma dns_name_mono: "dns_name data k pos ls e \<Longrightarrow> k \<le> k' \<Longrightarrow> dns_name data k' pos ls e"
proof (induction arbitrary: k' rule: dns_name.induct)
  case (name_pointer pos k ls e)
  then obtain m where "k' = Suc m" and "k \<le> m" by (cases k') auto
  with name_pointer show ?case
    using dns_name.name_pointer [of pos data m ls e] by simp
qed (auto intro: dns_name.intros)

text \<open>The loop computes exactly this reading.\<close>

lemma read_name_loop_iff:
  "jumps \<le> 32 \<Longrightarrow>
   read_name_loop data labels pos jumped end_pos jumps = Some (Some (ls, e)) \<longleftrightarrow>
   (\<exists>ls' e'. ls = labels @ ls' \<and> e = (if jumped then end_pos else e') \<and>
             dns_name data (32 - jumps) pos ls' e')"
proof (induction data labels pos jumped end_pos jumps arbitrary: ls e rule: name_loop_induct)
  case (turn data labels pos jumped end_pos jumps)
  consider "length data \<le> pos" | "pos < length data" "data ! pos = 0"
    | "pos < length data" "data ! pos \<noteq> 0" "data ! pos AND 0xC0 = 0xC0"
    | "pos < length data" "data ! pos \<noteq> 0" "data ! pos AND 0xC0 \<noteq> 0xC0"
    by linarith
  then show ?case
  proof cases
    case 3
    then show ?thesis
    proof (cases "jumps < 32")
      case True
      then obtain k where k: "32 - jumps = Suc k" "32 - Suc jumps = k" "31 - jumps = k"
        by (cases "32 - jumps") auto
      show ?thesis
        using 3 True turn.IH(1) [OF 3(1) True]
        by (subst read_name_loop_unfold) (auto simp: k dns_name_unfold [of data "Suc k" pos])
    next
      case False
      with 3 turn.prems show ?thesis
        by (subst read_name_loop_unfold) (auto simp: dns_name_unfold [of data 0 pos])
    qed
  next
    case 4
    have n: "unat (data ! pos) \<noteq> 0" using 4 by (simp add: unat_eq_zero)
    show ?thesis
      using 4 n turn.IH(2) [OF 4(1) _ turn.prems]
      by (subst read_name_loop_unfold)
        (auto simp: dns_name_unfold [of data "32 - jumps" pos])
  qed (auto simp: read_name_loop_unfold [of data labels pos]
         dns_name_unfold [of data "32 - jumps" pos])
qed

lemma read_dns_name_iff:
  "read_dns_name data offset = Some (Some (name, e)) \<longleftrightarrow>
   (\<exists>ls. name = join_str (lit ''.'') ls \<and> dns_name data 32 offset ls e)"
proof -
  have "read_dns_name data offset = Some (Some (name, e)) \<longleftrightarrow>
        (\<exists>ls. read_name_loop data [] offset False 0 0 = Some (Some (ls, e)) \<and>
              name = join_str (lit ''.'') ls)"
    by (cases "read_name_loop data [] offset False 0 0") (auto simp: read_dns_name_def)
  then show ?thesis by (auto simp: read_name_loop_iff)
qed

lemma read_dns_name_end:
  "read_dns_name data offset = Some (Some (name, e)) \<Longrightarrow> offset < e \<and> e \<le> length data"
  by (auto simp: read_dns_name_iff dest: dns_name_end)

lemma read_dns_name_utf8:
  "read_dns_name data offset = Some (Some (name, e)) \<Longrightarrow> utf8_valid name"
proof -
  have "utf8_valid (lit ''.'')" by (simp add: lit_simps)
  then show "read_dns_name data offset = Some (Some (name, e)) \<Longrightarrow> utf8_valid name"
    by (auto simp: read_dns_name_iff list_all_iff dest!: dns_name_utf8 intro!: utf8_valid_join)
qed

section \<open>The response parser\<close>

lemma skip_questions_total: "\<exists>r. skip_questions data n offset = Some r"
proof (induction n arbitrary: offset)
  case (Suc n)
  obtain r where "read_dns_name data offset = Some r" using read_dns_name_total by blast
  with Suc show ?case by (cases r) auto
qed simp

text \<open>One turn of the answer loop, with the bounds checks discharged.\<close>

definition answer_type :: "byte list \<Rightarrow> nat \<Rightarrow> u16" where
  "answer_type data p = from_be16 (data ! p) (data ! (p + 1))"

definition answer_ttl :: "byte list \<Rightarrow> nat \<Rightarrow> u32" where
  "answer_ttl data p =
     from_be32 (data ! (p + 4)) (data ! (p + 5)) (data ! (p + 6)) (data ! (p + 7))"

definition answer_len :: "byte list \<Rightarrow> nat \<Rightarrow> nat" where
  "answer_len data p = unat (from_be16 (data ! (p + 8)) (data ! (p + 9)))"

definition answer_recs :: "rstr \<Rightarrow> u16 \<Rightarrow> u32 \<Rightarrow> byte list \<Rightarrow> dns_record list" where
  "answer_recs hostname rtype ttl rdata =
     (if rtype = 1 \<and> length rdata = 4
      then [(V4 (rdata ! 0) (rdata ! 1) (rdata ! 2) (rdata ! 3), hostname, ttl)]
      else if rtype = 28 \<and> length rdata = 16 then [(V6 rdata, hostname, ttl)]
      else [])"

lemma answer_data_eq:
  "offset + n \<le> length data \<Longrightarrow>
   answer_data data hostname offset rtype ttl n =
     Some (answer_recs hostname rtype ttl (take n (drop offset data)))"
  by (auto simp: answer_data_def answer_recs_def panic_simps)

lemma answer_loop_Suc:
  "answer_loop data hostname (Suc n) offset results =
     (if length data \<le> offset then Some results
      else case the (read_dns_name data offset) of
        None \<Rightarrow> Some results
      | Some (_, p) \<Rightarrow>
          if length data < p + 10 \<or> length data < p + 10 + answer_len data p then Some results
          else answer_loop data hostname n (p + 10 + answer_len data p)
                 (results @ answer_recs hostname (answer_type data p) (answer_ttl data p)
                    (take (answer_len data p) (drop (p + 10) data))))"
proof (cases "length data \<le> offset")
  case False
  obtain r where r: "read_dns_name data offset = Some r" using read_dns_name_total by blast
  show ?thesis
  proof (cases r)
    case (Some q)
    obtain nm p where q: "q = (nm, p)" by (cases q)
    show ?thesis
      using False r Some q
      by (auto simp: Let_def panic_simps answer_len_def answer_type_def answer_ttl_def answer_data_eq)
  qed (use False r in simp)
qed simp

lemma answer_loop_total: "\<exists>rs. answer_loop data hostname n offset results = Some rs"
proof (induction n arbitrary: offset results)
  case (Suc n)
  then show ?case
    by (subst answer_loop_Suc) (auto split: option.splits simp del: answer_loop.simps)
qed simp

lemma parse_dns_response_total: "\<exists>rs. parse_dns_response_records data = Some rs"
proof (cases "length data < 12")
  case False
  obtain r where r: "read_dns_name data 12 = Some r" using read_dns_name_total by blast
  show ?thesis
  proof (cases r)
    case None
    with r False show ?thesis by (simp add: parse_dns_response_records_def panic_simps)
  next
    case (Some q)
    obtain h p where q: "q = (h, p)" by (cases q)
    obtain m where m: "skip_questions data
        (unat (from_be16 (data ! 4) (data ! 5)) - Suc 0) (p + 4) = Some m"
      using skip_questions_total by blast
    show ?thesis
      using False r Some q m answer_loop_total
      by (cases m) (auto simp: parse_dns_response_records_def panic_simps)
  qed
qed (simp add: parse_dns_response_records_def)

text \<open>
  The records found so far are kept, at most one record is added per answer, every record
  carries the host name of the question and a well-formed address.
\<close>

definition record_ok :: "rstr \<Rightarrow> dns_record \<Rightarrow> bool" where
  "record_ok hostname r \<longleftrightarrow> (case r of (ip, h, ttl) \<Rightarrow> h = hostname \<and> ip_wf ip)"

lemma answer_recs_ok: "list_all (record_ok hostname) (answer_recs hostname rtype ttl rdata)"
  by (simp add: answer_recs_def record_ok_def)

lemma answer_recs_length: "length (answer_recs hostname rtype ttl rdata) \<le> 1"
  by (simp add: answer_recs_def)

lemma answer_loop_records:
  "answer_loop data hostname n offset results = Some rs \<Longrightarrow>
   \<exists>new. rs = results @ new \<and> list_all (record_ok hostname) new \<and> length new \<le> n"
proof (induction n arbitrary: offset results)
  case (Suc n)
  show ?case
  proof (cases "rs = results")
    case False
    with Suc.prems obtain p where
      "answer_loop data hostname n (p + 10 + answer_len data p)
         (results @ answer_recs hostname (answer_type data p) (answer_ttl data p)
            (take (answer_len data p) (drop (p + 10) data))) = Some rs"
      by (subst (asm) answer_loop_Suc) (auto split: option.splits if_splits)
    from Suc.IH [OF this] obtain new where
      "rs = results @ answer_recs hostname (answer_type data p) (answer_ttl data p)
              (take (answer_len data p) (drop (p + 10) data)) @ new"
      "list_all (record_ok hostname) new" "length new \<le> n" by auto
    then show ?thesis
      using answer_recs_length [of hostname "answer_type data p" "answer_ttl data p"
              "take (answer_len data p) (drop (p + 10) data)"]
      by (intro exI [of _ "answer_recs hostname (answer_type data p) (answer_ttl data p)
              (take (answer_len data p) (drop (p + 10) data)) @ new"])
        (simp add: answer_recs_ok)
  qed auto
qed auto

lemma parse_dns_response_records:
  assumes "parse_dns_response_records data = Some rs"
  shows "rs = [] \<or> (\<exists>hostname e. read_dns_name data 12 = Some (Some (hostname, e)) \<and>
           list_all (record_ok hostname) rs \<and>
           length rs \<le> unat (from_be16 (data ! 6) (data ! 7)))"
proof -
  have "\<exists>hostname e offset. read_dns_name data 12 = Some (Some (hostname, e)) \<and>
      answer_loop data hostname (unat (from_be16 (data ! 6) (data ! 7))) offset [] = Some rs"
    if "rs \<noteq> []"
    using assms that
    by (auto simp: parse_dns_response_records_def panic_simps bind_Some_iff
          split: if_splits option.splits)
  then show ?thesis
    using answer_loop_records [of data _ _ _ "[]" rs] by fastforce
qed

section \<open>Properties\<close>

text \<open>C4: No input makes a DNS parser panic: every index and range of the three functions is inside
  the buffer, whatever the bytes are.\<close>

theorem dns_parsers_never_panic:
  "(\<exists>r. read_dns_name data offset = Some r) \<and> (\<exists>name. parse_dns_query_name data = Some name) \<and>
   (\<exists>rs. parse_dns_response_records data = Some rs)"
  using read_dns_name_total parse_dns_query_name_total parse_dns_response_total by blast

end
