(* ===== verification/Dns_Roundtrip.thy ===== *)
theory Dns_Roundtrip
  imports Dns_Wire
begin

text \<open>
  The messages of RFC 1035 as the specification of the parser in \<open>Dns_Wire\<close>: an encoder of DNS
  responses (length-prefixed labels, a compression pointer to the question, resource records)
  with the round trip, what a server encodes is what the parser reads; and the names that stand
  in a message (\<open>name_at\<close>), with what the parser reads besides them.  Nothing here models code
  of the repository.
\<close>

definition enc_label :: "rstr \<Rightarrow> byte list" where
  "enc_label l = as_u8 (length l) # l"

definition enc_name :: "rstr list \<Rightarrow> byte list" where
  "enc_name ls = concat (map enc_label ls) @ [0]"

definition label_ok :: "rstr \<Rightarrow> bool" where
  "label_ok l \<longleftrightarrow> l \<noteq> [] \<and> length l < 64 \<and> utf8_valid l"

text \<open>An answer names its owner by a pointer to the question or in full.\<close>

datatype owner = Question_Ptr | Full_Name "rstr list"

fun enc_owner :: "owner \<Rightarrow> byte list" where
  "enc_owner Question_Ptr = [0xC0, 0x0C]"
| "enc_owner (Full_Name ls) = enc_name ls"

fun owner_ok :: "owner \<Rightarrow> bool" where
  "owner_ok Question_Ptr = True"
| "owner_ok (Full_Name ls) = list_all label_ok ls"

record answer =
  ans_owner :: owner
  ans_type :: u16
  ans_class :: u16
  ans_ttl :: u32
  ans_rdata :: "byte list"

definition answer_ok :: "answer \<Rightarrow> bool" where
  "answer_ok a \<longleftrightarrow> owner_ok (ans_owner a) \<and> length (ans_rdata a) < 65536"

definition enc_fixed :: "answer \<Rightarrow> byte list" where
  "enc_fixed a = to_be16 (ans_type a) @ to_be16 (ans_class a) @ to_be32 (ans_ttl a)
                   @ to_be16 (as_u16 (length (ans_rdata a)))"

definition enc_answer :: "answer \<Rightarrow> byte list" where
  "enc_answer a = enc_owner (ans_owner a) @ enc_fixed a @ ans_rdata a"

text \<open>
  A response with one question: \<open>idf\<close> is the identifier and the flags, \<open>counts\<close> the counts of
  the authority and additional sections, \<open>qtail\<close> the question's type and class and \<open>extra\<close>
  the remaining sections.
\<close>

definition enc_response ::
  "byte list \<Rightarrow> byte list \<Rightarrow> rstr list \<Rightarrow> byte list \<Rightarrow> answer list \<Rightarrow> byte list \<Rightarrow> byte list" where
  "enc_response idf counts q qtail answers extra =
     idf @ to_be16 1 @ to_be16 (as_u16 (length answers)) @ counts
     @ enc_name q @ qtail @ concat (map enc_answer answers) @ extra"

section \<open>Names\<close>

lemma label_first_byte:
  assumes "label_ok l"
  shows "unat (as_u8 (length l)) = length l" and "as_u8 (length l) \<noteq> 0"
    and "as_u8 (length l) AND 0xC0 \<noteq> 0xC0"
proof -
  show a: "unat (as_u8 (length l)) = length l"
    using assms by (simp add: label_ok_def unat_as_u8)
  then show "as_u8 (length l) \<noteq> 0"
    using assms by (metis label_ok_def length_0_conv unat_0)
  show "as_u8 (length l) AND 0xC0 \<noteq> 0xC0"
    using assms a by (simp add: high_bits_set label_ok_def)
qed

lemma dns_name_enc:
  "list_all label_ok ls \<Longrightarrow>
   dns_name (pre @ enc_name ls @ post) k (length pre) ls (length pre + length (enc_name ls))"
proof (induction ls arbitrary: pre)
  case Nil
  show ?case
    using dns_name.name_root [of "length pre" "pre @ 0 # post" k] by (simp add: enc_name_def)
next
  case (Cons l ls)
  let ?data = "pre @ enc_name (l # ls) @ post"
  have split: "?data = (pre @ enc_label l) @ enc_name ls @ post"
    by (simp add: enc_name_def)
  have at: "?data ! length pre = as_u8 (length l)"
    by (simp add: enc_name_def enc_label_def)
  from Cons.prems have l: "label_ok l" and ls: "list_all label_ok ls" by auto
  have "dns_name ?data k (length (pre @ enc_label l)) ls
          (length (pre @ enc_label l) + length (enc_name ls))"
    unfolding split by (rule Cons.IH [OF ls])
  then have tail: "dns_name ?data k (Suc (length pre + length l)) ls
          (length pre + length (enc_name (l # ls)))"
    by (simp add: enc_label_def enc_name_def add.assoc)
  show ?case
  proof (rule dns_name.name_label [where n = "length l"])
    show "l = take (length l) (drop (Suc (length pre)) ?data)"
      by (simp add: enc_name_def enc_label_def)
  qed (use l label_first_byte [OF l] at tail in
       \<open>auto simp: label_ok_def enc_name_def enc_label_def\<close>)
qed

lemma read_dns_name_enc:
  "list_all label_ok ls \<Longrightarrow>
   read_dns_name (pre @ enc_name ls @ post) (length pre) =
     Some (Some (join_str (lit ''.'') ls, length pre + length (enc_name ls)))"
  by (auto simp: read_dns_name_iff intro!: exI dns_name_enc)

text \<open>A pointer reads the name it points to, and ends after its own two bytes.\<close>

lemma read_dns_name_pointer:
  assumes "dns_name data 31 12 q e" and "data = pre @ [0xC0, 0x0C] @ post"
  shows "read_dns_name data (length pre) = Some (Some (join_str (lit ''.'') q, length pre + 2))"
proof -
  have "dns_name data (Suc 31) (length pre) q (Suc (Suc (length pre)))"
    using assms
    by (intro dns_name.name_pointer) (auto simp: nth_append ptr_target_def)
  then show ?thesis by (auto simp: read_dns_name_iff)
qed

section \<open>Answers\<close>

lemma length_enc_fixed [simp]: "length (enc_fixed a) = 10"
  by (simp add: enc_fixed_def)

lemma enc_fixed_fields:
  assumes "answer_ok a" and "data = pre @ enc_fixed a @ post" and "p = length pre"
  shows "answer_type data p = ans_type a" and "answer_ttl data p = ans_ttl a"
    and "answer_len data p = length (ans_rdata a)"
  using assms
  by (simp_all add: answer_type_def answer_ttl_def answer_len_def enc_fixed_def nth_append
        to_be16_def to_be32_def answer_ok_def unat_as_u16)

definition expected_recs :: "rstr list \<Rightarrow> answer list \<Rightarrow> dns_record list" where
  "expected_recs q answers =
     concat (map (\<lambda>a. answer_recs (join_str (lit ''.'') q) (ans_type a) (ans_ttl a) (ans_rdata a))
               answers)"

lemma read_owner:
  assumes "dns_name data 31 12 q e" and "data = pre @ enc_owner w @ post" and "owner_ok w"
  shows "\<exists>nm. read_dns_name data (length pre) = Some (Some (nm, length pre + length (enc_owner w)))"
  using assms read_dns_name_pointer [of data q e pre post] read_dns_name_enc [of _ pre post]
  by (cases w) auto

lemma answer_loop_enc:
  assumes "dns_name data 31 12 q e" and "list_all answer_ok answers"
    and "data = pre @ concat (map enc_answer answers) @ extra"
  shows "answer_loop data hostname (length answers) (length pre) results =
     Some (results @ concat (map (\<lambda>a. answer_recs hostname (ans_type a) (ans_ttl a) (ans_rdata a))
                               answers))"
  using assms
proof (induction answers arbitrary: pre results)
  case (Cons a as)
  let ?own = "enc_owner (ans_owner a)"
  let ?p = "length (pre @ ?own)"
  have d1: "data = pre @ ?own @ (enc_fixed a @ ans_rdata a @ concat (map enc_answer as) @ extra)"
    using Cons.prems(3) by (simp add: enc_answer_def [of a])
  then have d2: "data = (pre @ ?own) @ enc_fixed a @ (ans_rdata a @ concat (map enc_answer as) @ extra)"
    by simp
  have ok: "answer_ok a" "owner_ok (ans_owner a)" "list_all answer_ok as"
    using Cons.prems(2) by (auto simp: answer_ok_def [of a])
  obtain nm where nm: "read_dns_name data (length pre) = Some (Some (nm, ?p))"
    using read_owner [OF Cons.prems(1) d1 ok(2)] by auto
  note f = enc_fixed_fields [OF ok(1) d2 refl]
  have rd: "take (length (ans_rdata a)) (drop (?p + 10) data) = ans_rdata a"
    by (subst d2) simp
  have len: "?p + 10 + length (ans_rdata a) \<le> length data"
    by (subst d2) simp
  have eq: "length (pre @ enc_answer a) = ?p + 10 + length (ans_rdata a)"
    by (simp add: enc_answer_def)
  have "answer_loop data hostname (length as) (length (pre @ enc_answer a))
          (results @ answer_recs hostname (ans_type a) (ans_ttl a) (ans_rdata a)) =
        Some ((results @ answer_recs hostname (ans_type a) (ans_ttl a) (ans_rdata a))
          @ concat (map (\<lambda>a. answer_recs hostname (ans_type a) (ans_ttl a) (ans_rdata a)) as))"
    using Cons.prems ok by (intro Cons.IH) simp_all
  then show ?case
    unfolding eq using nm f rd len
    by (simp add: answer_loop_Suc del: answer_loop.simps)
qed simp

section \<open>The round trip\<close>

lemma parse_enc_response:
  assumes "length idf = 4" and "length counts = 4" and "length qtail = 4"
    and "list_all label_ok q" and "list_all answer_ok answers" and "length answers < 65536"
  shows "parse_dns_response_records (enc_response idf counts q qtail answers extra) =
           Some (expected_recs q answers)"
proof -
  let ?data = "enc_response idf counts q qtail answers extra"
  let ?hdr = "idf @ to_be16 1 @ to_be16 (as_u16 (length answers)) @ counts"
  let ?pre = "?hdr @ enc_name q @ qtail"
  have hdr: "length ?hdr = 12" using assms by simp
  have d1: "?data = ?hdr @ enc_name q @ (qtail @ concat (map enc_answer answers) @ extra)"
    by (simp add: enc_response_def)
  have d2: "?data = ?pre @ concat (map enc_answer answers) @ extra"
    by (simp add: enc_response_def)
  have q: "dns_name ?data 31 12 q (12 + length (enc_name q))"
    using dns_name_enc [OF assms(4), of ?hdr _ 31] by (simp only: d1 hdr)
  have name: "read_dns_name ?data 12 =
      Some (Some (join_str (lit ''.'') q, 12 + length (enc_name q)))"
    using read_dns_name_enc [OF assms(4), of ?hdr] by (simp only: d1 hdr)
  have len: "12 \<le> length ?data" by (subst d1) (use hdr in simp)
  have counts: "from_be16 (?data ! 4) (?data ! 5) = 1"
    "from_be16 (?data ! 6) (?data ! 7) = as_u16 (length answers)"
    using assms(1) from_to_be16_nth [of 1] from_to_be16_nth [of "as_u16 (length answers)"]
    by (simp_all add: enc_response_def nth_append)
  have "length ?pre = 12 + length (enc_name q) + 4"
    using hdr assms(3) by simp
  then have "answer_loop ?data (join_str (lit ''.'') q) (length answers)
      (12 + length (enc_name q) + 4) [] = Some (expected_recs q answers)"
    using answer_loop_enc [OF q assms(5) d2] by (simp only: expected_recs_def append_Nil)
  then show ?thesis
    using len name counts assms(6)
    by (simp add: parse_dns_response_records_def panic_simps unat_as_u16)
qed

lemma parse_enc_query:
  assumes "length hdr = 12" and "list_all label_ok q"
  shows "parse_dns_query_name (hdr @ enc_name q @ rest) = Some (Some (join_str (lit ''.'') q))"
  using assms read_dns_name_enc [OF assms(2), of hdr rest]
  by (simp add: parse_dns_query_name_def)

section \<open>The format of a name\<close>

text \<open>
  RFC 1035, 4.1.4: a name is a sequence of labels that ends in a zero octet or in a pointer to
  another name, and a pointer is two octets that hold \<open>0xC000\<close> plus the offset of its target.
  \<open>name_at m data k pos ls e\<close>: at \<open>pos\<close> stands such a name, whose labels, those of the names it
  points to included, are \<open>ls\<close>, with at most \<open>k\<close> pointers and no label over \<open>m\<close> octets; its own
  encoding ends at \<open>e\<close>.  In the format \<open>m\<close> is 63: the octets 64 to 191 are reserved and are
  the length of no label.
\<close>

definition stands_at :: "byte list \<Rightarrow> nat \<Rightarrow> byte list \<Rightarrow> bool" where
  "stands_at data pos bs \<longleftrightarrow> (\<exists>pre post. data = pre @ bs @ post \<and> length pre = pos)"

definition labels_fit :: "nat \<Rightarrow> rstr list \<Rightarrow> bool" where
  "labels_fit m ls \<longleftrightarrow> list_all (\<lambda>l. 0 < length l \<and> length l \<le> m) ls"

definition enc_labels :: "rstr list \<Rightarrow> byte list" where
  "enc_labels ls = concat (map enc_label ls)"

inductive name_at :: "nat \<Rightarrow> byte list \<Rightarrow> nat \<Rightarrow> nat \<Rightarrow> rstr list \<Rightarrow> nat \<Rightarrow> bool"
  for m :: nat and data :: "byte list" where
  ends_in_zero: "stands_at data pos (enc_labels ls @ [0]) \<Longrightarrow> labels_fit m ls \<Longrightarrow>
     name_at m data k pos ls (pos + length (enc_labels ls @ [0]))"
| ends_in_pointer: "stands_at data pos (enc_labels ls @ to_be16 (as_u16 (0xC000 + ptr))) \<Longrightarrow>
     ptr < 0x4000 \<Longrightarrow> labels_fit m ls \<Longrightarrow> name_at m data k ptr ls' e \<Longrightarrow>
     name_at m data (Suc k) pos (ls @ ls') (pos + length (enc_labels ls) + 2)"

lemma stands_at_iff: "stands_at data pos bs \<longleftrightarrow> pos \<le> length data \<and> take (length bs) (drop pos data) = bs"
proof
  assume "stands_at data pos bs"
  then show "pos \<le> length data \<and> take (length bs) (drop pos data) = bs"
    by (auto simp: stands_at_def)
next
  assume a: "pos \<le> length data \<and> take (length bs) (drop pos data) = bs"
  have "data = take pos data @ take (length bs) (drop pos data) @ drop (length bs) (drop pos data)"
    by (metis append_take_drop_id)
  with a show "stands_at data pos bs" unfolding stands_at_def
    by (intro exI [of _ "take pos data"] exI [of _ "drop (length bs) (drop pos data)"]) simp
qed

lemma stands_at_append:
  "stands_at data pos (as @ bs) \<longleftrightarrow> stands_at data pos as \<and> stands_at data (pos + length as) bs"
proof
  assume "stands_at data pos (as @ bs)"
  then obtain pre post where "data = pre @ as @ bs @ post" "length pre = pos"
    by (auto simp: stands_at_def)
  then have "data = pre @ as @ (bs @ post)" "data = (pre @ as) @ bs @ post" "length (pre @ as) = pos + length as"
    by simp_all
  with \<open>length pre = pos\<close> show "stands_at data pos as \<and> stands_at data (pos + length as) bs"
    unfolding stands_at_def by blast
next
  assume a: "stands_at data pos as \<and> stands_at data (pos + length as) bs"
  then obtain pre post where d: "data = pre @ as @ post" "length pre = pos"
    unfolding stands_at_def by blast
  have "take (length bs) (drop (pos + length as) data) = bs" using a by (simp add: stands_at_iff)
  then have "take (length bs) post = bs" using d by simp
  then have "post = bs @ drop (length bs) post" by (metis append_take_drop_id)
  then have "data = pre @ (as @ bs) @ drop (length bs) post" using d(1) by simp
  then show "stands_at data pos (as @ bs)" using d(2) unfolding stands_at_def by blast
qed

lemma stands_at_Nil: "stands_at data pos [] \<longleftrightarrow> pos \<le> length data"
  by (simp add: stands_at_iff)

lemma stands_at_Cons: "stands_at data pos (b # bs) \<longleftrightarrow>
   pos < length data \<and> data ! pos = b \<and> stands_at data (Suc pos) bs"
proof -
  have "stands_at data pos [b] \<longleftrightarrow> pos < length data \<and> data ! pos = b"
    using id_take_nth_drop [of pos data] unfolding stands_at_def
    by (auto simp: nth_append) (metis append_Cons append_Nil length_take min.absorb4)
  with stands_at_append [of data pos "[b]" bs] show ?thesis by simp
qed

lemma name_at_label:
  assumes "stands_at data pos (enc_label l)" and "0 < length l" and "length l \<le> m"
    and "name_at m data k (pos + length (enc_label l)) ls e"
  shows "name_at m data k pos (l # ls) e"
  using assms(4)
proof cases
  case ends_in_zero
  then have "stands_at data pos (enc_labels (l # ls) @ [0])"
    using assms(1) by (simp add: enc_labels_def stands_at_append)
  moreover have "labels_fit m (l # ls)" using ends_in_zero assms(2,3) by (simp add: labels_fit_def)
  ultimately have "name_at m data k pos (l # ls) (pos + length (enc_labels (l # ls) @ [0]))"
    by (rule name_at.ends_in_zero)
  with ends_in_zero show ?thesis by (simp add: enc_labels_def add.assoc)
next
  case (ends_in_pointer ls1 ptr k' ls' e')
  then have "stands_at data pos (enc_labels (l # ls1) @ to_be16 (as_u16 (0xC000 + ptr)))"
    using assms(1) by (simp add: enc_labels_def stands_at_append)
  moreover have "labels_fit m (l # ls1)" using ends_in_pointer assms(2,3) by (simp add: labels_fit_def)
  ultimately have "name_at m data (Suc k') pos ((l # ls1) @ ls') (pos + length (enc_labels (l # ls1)) + 2)"
    using ends_in_pointer by (intro name_at.ends_in_pointer)
  with ends_in_pointer show ?thesis by (simp add: enc_labels_def add.assoc)
qed

text \<open>Pointers in the two notations.\<close>

lemma pointer_bytes:
  assumes "192 \<le> unat hi"
  shows "ptr_target hi lo = (unat hi - 192) * 256 + unat lo" and "ptr_target hi lo < 0x4000"
    and "to_be16 (as_u16 (0xC000 + ptr_target hi lo)) = [hi, lo]"
proof -
  have h: "unat hi < 256" "unat lo < 256" by (rule unat_byte_less)+
  have "and (unat hi) 63 = unat hi mod 64"
    using take_bit_eq_mod [of 6 "unat hi"] by (simp add: take_bit_eq_mask mask_eq_exp_minus_1)
  also have "\<dots> = unat hi - 192"
  proof -
    obtain q where "unat hi = 192 + q" using assms le_Suc_ex by blast
    moreover from this have "q < 64" using h(1) by linarith
    moreover have "(192 + q) mod 64 = q mod 64" using mod_mult_self4 [of 64 3 q] by simp
    ultimately show ?thesis by simp
  qed
  finally have a: "and (unat hi) 63 = unat hi - 192" .
  have "push_bit 8 (unat hi - 192) OR unat lo = push_bit 8 (unat hi - 192) + unat lo"
  proof (rule disjunctive_add [symmetric])
    fix n
    show "\<not> bit (push_bit 8 (unat hi - 192)) n \<or> \<not> bit (unat lo) n"
    proof (cases "8 \<le> n")
      case True
      then have "(2::nat) ^ 8 \<le> 2 ^ n" by (rule power_increasing) simp
      then have "256 \<le> (2::nat) ^ n" by simp
      with h(2) have "unat lo < 2 ^ n" by (rule order.strict_trans2)
      then show ?thesis by (simp add: bit_iff_odd)
    qed (simp add: bit_push_bit_iff_nat)
  qed
  then show t: "ptr_target hi lo = (unat hi - 192) * 256 + unat lo"
    by (simp add: ptr_target_def a push_bit_eq_mult)
  obtain q where "unat hi = 192 + q" using assms le_Suc_ex by blast
  then show "ptr_target hi lo < 0x4000" using h unfolding t by linarith
  have n: "0xC000 + ptr_target hi lo = unat hi * 256 + unat lo" using assms by (simp add: t)
  show "to_be16 (as_u16 (0xC000 + ptr_target hi lo)) = [hi, lo]"
    unfolding n from_be16_def [symmetric] by (rule to_from_be16)
qed

lemma pointer_target:
  assumes "ptr < 0x4000" and "to_be16 (as_u16 (0xC000 + ptr)) = [hi, lo]"
  shows "192 \<le> unat hi" and "ptr_target hi lo = ptr"
proof -
  have "unat hi = (0xC000 + ptr) div 256" "unat lo = (0xC000 + ptr) mod 256"
    using assms by (auto simp: to_be16_def unat_as_u16 unat_as_u8)
  then show u: "192 \<le> unat hi" by simp
  show "ptr_target hi lo = ptr"
  proof -
    have "unat hi * 256 + unat lo = 0xC000 + ptr"
      unfolding \<open>unat hi = _\<close> \<open>unat lo = _\<close> by (rule div_mult_mod_eq)
    then show ?thesis using pointer_bytes(1) [OF u, of lo] u by (simp add: diff_mult_distrib)
  qed
qed

text \<open>The reading of the parser is that of the format with labels of up to 191 octets.\<close>

lemma dns_name_at: "dns_name data k pos ls e \<Longrightarrow> name_at 191 data k pos ls e \<and> list_all utf8_valid ls"
proof (induction rule: dns_name.induct)
  case (name_root pos k)
  then have "stands_at data pos (enc_labels [] @ [0])"
    by (simp add: enc_labels_def stands_at_Cons stands_at_Nil)
  from name_at.ends_in_zero [OF this] show ?case by (simp add: labels_fit_def enc_labels_def)
next
  case (name_pointer pos k ls e)
  have u: "192 \<le> unat (data ! pos)" using name_pointer by (simp add: high_bits_set)
  note p = pointer_bytes [OF u, of "data ! Suc pos"]
  have "stands_at data pos (enc_labels [] @ to_be16 (as_u16 (0xC000 + ptr_target (data ! pos) (data ! Suc pos))))"
    unfolding p(3) using name_pointer by (simp add: enc_labels_def stands_at_Cons stands_at_Nil)
  from name_at.ends_in_pointer [OF this p(2), of 191 k ls e] name_pointer show ?case
    by (simp add: labels_fit_def enc_labels_def)
next
  case (name_label pos n l k ls e)
  have u: "unat (data ! pos) < 192" using name_label by (simp add: high_bits_set not_le)
  have len: "length l = n" using name_label by simp
  have byte: "as_u8 (length l) = data ! pos" using name_label len by simp
  have "stands_at data (Suc pos) l" using name_label by (simp add: stands_at_iff)
  then have "stands_at data pos (enc_label l)"
    using name_label byte by (simp add: enc_label_def stands_at_Cons)
  from name_at_label [OF this, of 191 k ls e] show ?case
    using name_label len u by (simp add: enc_label_def)
qed

lemma dns_name_labels:
  "stands_at data pos (enc_labels ls) \<Longrightarrow> labels_fit 191 ls \<Longrightarrow> list_all utf8_valid ls \<Longrightarrow>
   dns_name data k (pos + length (enc_labels ls)) ls' e \<Longrightarrow> dns_name data k pos (ls @ ls') e"
proof (induction ls arbitrary: pos)
  case (Cons l ls)
  have l: "0 < length l" "length l \<le> 191" "utf8_valid l" and ls: "labels_fit 191 ls" "list_all utf8_valid ls"
    using Cons.prems by (auto simp: labels_fit_def)
  have at: "pos < length data" "data ! pos = as_u8 (length l)" "stands_at data (Suc pos) l"
    "stands_at data (pos + length (enc_label l)) (enc_labels ls)"
    using Cons.prems(1) by (simp_all add: enc_labels_def enc_label_def stands_at_append stands_at_Cons)
  have n: "unat (data ! pos) = length l" using at(2) l(2) by (simp add: unat_as_u8)
  have tail: "dns_name data k (Suc (pos + length l)) (ls @ ls') e"
    using Cons.IH [OF at(4) ls] Cons.prems(4) by (simp add: enc_labels_def enc_label_def add.assoc)
  have s: "Suc (pos + length l) \<le> length data" "l = take (length l) (drop (Suc pos) data)"
    using at(3) by (auto simp: stands_at_def)
  show ?case
    using dns_name.name_label [OF at(1) n [symmetric] _ _ s(1) s(2) l(3) tail] l n
    by (simp add: high_bits_set)
qed (simp add: enc_labels_def)

lemma name_at_dns: "name_at 191 data k pos ls e \<Longrightarrow> list_all utf8_valid ls \<Longrightarrow> dns_name data k pos ls e"
proof (induction rule: name_at.induct)
  case (ends_in_zero pos ls k)
  then have at: "stands_at data pos (enc_labels ls)" "stands_at data (pos + length (enc_labels ls)) [0]"
    by (simp_all add: stands_at_append)
  then have "dns_name data k (pos + length (enc_labels ls)) [] (Suc (pos + length (enc_labels ls)))"
    by (intro dns_name.name_root) (simp_all add: stands_at_Cons)
  from dns_name_labels [OF at(1) _ _ this] ends_in_zero show ?case by simp
next
  case (ends_in_pointer pos ls ptr k ls' e)
  let ?p = "pos + length (enc_labels ls)"
  obtain hi lo where b: "to_be16 (as_u16 (0xC000 + ptr)) = [hi, lo]" by (simp add: to_be16_def)
  note t = pointer_target [OF ends_in_pointer(2) b]
  have at: "stands_at data pos (enc_labels ls)" "?p < length data" "data ! ?p = hi"
    "Suc ?p < length data" "data ! Suc ?p = lo"
    using ends_in_pointer(1) unfolding b by (simp_all add: stands_at_append stands_at_Cons)
  have "dns_name data (Suc k) ?p ls' (Suc (Suc ?p))"
    using ends_in_pointer at t by (intro dns_name.name_pointer) (simp_all add: high_bits_set)
  from dns_name_labels [OF at(1) _ _ this] ends_in_pointer show ?case by simp
qed

lemma labels_fit_63: "labels_fit 191 ls \<Longrightarrow> labels_fit 63 ls \<longleftrightarrow> \<not> (\<exists>l \<in> set ls. 63 < length l)"
  by (auto simp: labels_fit_def list_all_iff not_less)

lemma name_at_short:
  "name_at 191 data k pos ls e \<Longrightarrow> \<not> (\<exists>l \<in> set ls. 63 < length l) \<Longrightarrow> name_at 63 data k pos ls e"
proof (induction rule: name_at.induct)
  case (ends_in_zero pos ls k)
  then show ?case by (intro name_at.ends_in_zero) (simp_all add: labels_fit_63)
next
  case (ends_in_pointer pos ls ptr k ls' e)
  then show ?case by (intro name_at.ends_in_pointer) (auto simp: labels_fit_63)
qed

lemma name_at_mono: "name_at m data k pos ls e \<Longrightarrow> m \<le> m' \<Longrightarrow> name_at m' data k pos ls e"
proof (induction rule: name_at.induct)
  case (ends_in_zero pos ls k)
  then show ?case by (intro name_at.ends_in_zero) (auto simp: labels_fit_def list_all_iff)
next
  case (ends_in_pointer pos ls ptr k ls' e)
  then show ?case by (intro name_at.ends_in_pointer) (auto simp: labels_fit_def list_all_iff)
qed

lemma read_dns_name_format:
  "read_dns_name data offset = Some (Some (name, e)) \<longleftrightarrow>
   (\<exists>ls. name = join_str (lit ''.'') ls \<and> list_all utf8_valid ls \<and> name_at 191 data 32 offset ls e)"
  by (auto simp: read_dns_name_iff dest: dns_name_at name_at_dns)

section \<open>Properties\<close>


text \<open>A name that is read ends after its offset and inside the buffer, and is valid UTF-8.\<close>

lemma name_bounds:
  "read_dns_name data offset = Some (Some (name, e)) \<Longrightarrow>
   offset < e \<and> e \<le> length data \<and> utf8_valid name"
  using read_dns_name_end read_dns_name_utf8 by blast

lemma name_bounds_witness:
  "read_dns_name (enc_name [lit ''a'', lit ''bc'']) 0 = Some (Some (lit ''a.bc'', 6)) \<and>
   0 < (6::nat) \<and> 6 \<le> length (enc_name [lit ''a'', lit ''bc'']) \<and> utf8_valid (lit ''a.bc'')"
proof -
  have "read_dns_name (enc_name [lit ''a'', lit ''bc'']) 0 = Some (Some (lit ''a.bc'', 6))"
    using read_dns_name_enc [of "[lit ''a'', lit ''bc'']" "[]" "[]"]
    by (simp add: label_ok_def lit_simps enc_name_def enc_label_def)
  with name_bounds [OF this] show ?thesis by simp
qed

text \<open>The records of a response all carry the name of its first question and a well-formed
  address, and there are at most as many as the header counts answers.\<close>

lemma response_records:
  assumes "parse_dns_response_records data = Some rs" and "rs \<noteq> []"
  shows "\<exists>hostname e. read_dns_name data 12 = Some (Some (hostname, e)) \<and>
    list_all (record_ok hostname) rs \<and> length rs \<le> unat (from_be16 (data ! 6) (data ! 7))"
  using parse_dns_response_records [OF assms(1)] assms(2) by blast

text \<open>C2: What a server encodes the parser reads: a response with one question yields, for every
  address answer with an owner name given in full or by a pointer, its address, the name of
  the question and its TTL, in order, whatever other answers and sections there are.\<close>

theorem response_round_trip:
  assumes "length idf = 4" and "length counts = 4" and "length qtail = 4"
    and "list_all label_ok q" and "list_all answer_ok answers" and "length answers < 65536"
  shows "parse_dns_response_records (enc_response idf counts q qtail answers extra) =
           Some (expected_recs q answers)"
  using assms by (rule parse_enc_response)

definition sample_answers :: "answer list" where
  "sample_answers =
     [\<lparr>ans_owner = Question_Ptr, ans_type = 5, ans_class = 1, ans_ttl = 9, ans_rdata = [1, 98, 0]\<rparr>,
      \<lparr>ans_owner = Full_Name [lit ''b''], ans_type = 1, ans_class = 1, ans_ttl = 60,
       ans_rdata = [1, 2, 3, 4]\<rparr>]"

lemma sample_answers_ok: "list_all answer_ok sample_answers"
  by (simp add: sample_answers_def answer_ok_def label_ok_def lit_simps)

lemma expected_sample: "expected_recs [lit ''a''] sample_answers = [(V4 1 2 3 4, lit ''a'', 60)]"
  by (simp add: expected_recs_def sample_answers_def answer_recs_def)

theorem response_round_trip_witness:
  "parse_dns_response_records
     (enc_response [0, 0, 0x81, 0x80] [0, 0, 0, 0] [lit ''a''] [0, 1, 0, 1] sample_answers []) =
   Some [(V4 1 2 3 4, lit ''a'', 60)]"
  using response_round_trip [of "[0, 0, 0x81, 0x80]" "[0, 0, 0, 0]" "[0, 1, 0, 1]" "[lit ''a'']"
      sample_answers "[]"]
  by (simp add: sample_answers_ok expected_sample) (simp add: label_ok_def lit_simps sample_answers_def)

lemma response_records_witness:
  "\<exists>hostname e. read_dns_name
       (enc_response [0, 0, 0x81, 0x80] [0, 0, 0, 0] [lit ''a''] [0, 1, 0, 1] sample_answers []) 12 =
       Some (Some (hostname, e)) \<and> list_all (record_ok hostname) [(V4 1 2 3 4, lit ''a'', 60)]"
proof -
  have "parse_dns_response_records
     (enc_response [0, 0, 0x81, 0x80] [0, 0, 0, 0] [lit ''a''] [0, 1, 0, 1] sample_answers []) =
     Some [(V4 1 2 3 4, lit ''a'', 60)]"
    using parse_enc_response [of "[0, 0, 0x81, 0x80]" "[0, 0, 0, 0]" "[0, 1, 0, 1]" "[lit ''a'']"
        sample_answers "[]"]
    by (simp add: sample_answers_ok expected_sample) (simp add: label_ok_def lit_simps sample_answers_def)
  from response_records [OF this] show ?thesis by blast
qed

end
