(* ===== verification/Dns_Table.thy ===== *)
theory Dns_Table
  imports Dns_Wire "HOL-Library.AList"
begin

text \<open>
  The IP-to-hostname table of \<open>mihomo-android-ffi/src/dns_table.rs\<close>: \<open>DnsEntry\<close>, the
  constants, \<open>dns_table_insert\<close> and \<open>dns_table_lookup\<close>.  The \<open>HashMap\<close> is an association
  list with distinct keys (its order is never observed), an \<open>Instant\<close> a number of
  nanoseconds.  A call that reads the clock gets each reading as an argument.  The
  interface the tunnel relies on is the locale \<open>host_table\<close>.
\<close>

section \<open>Model\<close>

type_synonym instant = nat

record dns_entry =
  hostname :: rstr
  expires_at :: instant

type_synonym dns_table = "(ip_addr \<times> dns_entry) list"

definition MIN_TTL_SECS :: u32 where "MIN_TTL_SECS = 60"
definition MAX_TTL_SECS :: u32 where "MAX_TTL_SECS = 3600"
definition EVICTION_THRESHOLD :: nat where "EVICTION_THRESHOLD = 4096"

text \<open>\<open>ttl_secs.clamp(MIN, MAX)\<close> and \<open>Duration::from_secs\<close> in nanoseconds.\<close>

definition clamp_u32 :: "u32 \<Rightarrow> u32 \<Rightarrow> u32 \<Rightarrow> u32" where
  "clamp_u32 lo hi x = (if x < lo then lo else if hi < x then hi else x)"

definition from_secs :: "u32 \<Rightarrow> nat" where
  "from_secs s = unat s * 1000000000"

text \<open>\<open>now\<close> is the reading that dates the entry, \<open>now'\<close> the one the eviction makes.\<close>

definition dns_table_insert ::
  "instant \<Rightarrow> instant \<Rightarrow> ip_addr \<Rightarrow> rstr \<Rightarrow> u32 \<Rightarrow> dns_table \<Rightarrow> dns_table" where
  "dns_table_insert now now' ip host ttl_secs table =
     (let ttl = clamp_u32 MIN_TTL_SECS MAX_TTL_SECS ttl_secs;
          entry = \<lparr>hostname = host, expires_at = now + from_secs ttl\<rparr>;
          table = AList.update ip entry table
      in if EVICTION_THRESHOLD < length table
         then filter (\<lambda>(_, e). now' < expires_at e) table else table)"

definition dns_table_lookup :: "instant \<Rightarrow> ip_addr \<Rightarrow> dns_table \<Rightarrow> rstr option \<times> dns_table" where
  "dns_table_lookup now ip table =
     (case map_of table ip of
        Some entry \<Rightarrow>
          if now < expires_at entry then (Some (hostname entry), table)
          else (None, AList.delete ip table)
      | None \<Rightarrow> (None, table))"

text \<open>
  The insertion loop of \<open>handle_dns_query\<close>: the \<open>i\<close>-th reading of the clock is \<open>clock i\<close>,
  each record makes two.
\<close>

fun insert_records ::
  "(nat \<Rightarrow> instant) \<Rightarrow> nat \<Rightarrow> dns_record list \<Rightarrow> dns_table \<Rightarrow> dns_table" where
  "insert_records clock i [] table = table"
| "insert_records clock i ((ip, host, ttl) # rs) table =
     insert_records clock (i + 2) rs
       (dns_table_insert (clock i) (clock (i + 1)) ip host ttl table)"

section \<open>Interface\<close>

definition ttl_nanos :: "u32 \<Rightarrow> nat" where
  "ttl_nanos ttl = from_secs (clamp_u32 MIN_TTL_SECS MAX_TTL_SECS ttl)"

text \<open>
  What the tunnel needs of a table: \<open>live t now ip\<close> is the host name the table gives for
  \<open>ip\<close> at time \<open>now\<close>.
\<close>

locale host_table =
  fixes insert :: "instant \<Rightarrow> instant \<Rightarrow> ip_addr \<Rightarrow> rstr \<Rightarrow> u32 \<Rightarrow> 't \<Rightarrow> 't"
    and lookup :: "instant \<Rightarrow> ip_addr \<Rightarrow> 't \<Rightarrow> rstr option \<times> 't"
    and live :: "'t \<Rightarrow> instant \<Rightarrow> ip_addr \<Rightarrow> rstr option"
    and invar :: "'t \<Rightarrow> bool"
  assumes lookup_live: "invar t \<Longrightarrow> fst (lookup now ip t) = live t now ip"
    and lookup_frame: "invar t \<Longrightarrow> now \<le> later \<Longrightarrow>
      live (snd (lookup now ip t)) later = live t later"
    and lookup_invar: "invar t \<Longrightarrow> invar (snd (lookup now ip t))"
    and insert_live: "invar t \<Longrightarrow> now \<le> now' \<Longrightarrow> now' \<le> later \<Longrightarrow>
      live (insert now now' ip h ttl t) later =
        (live t later)(ip := if later < now + ttl_nanos ttl then Some h else None)"
    and insert_invar: "invar t \<Longrightarrow> invar (insert now now' ip h ttl t)"
begin

fun insert_all :: "(nat \<Rightarrow> instant) \<Rightarrow> nat \<Rightarrow> dns_record list \<Rightarrow> 't \<Rightarrow> 't" where
  "insert_all clock i [] t = t"
| "insert_all clock i ((ip, h, ttl) # rs) t =
     insert_all clock (i + 2) rs (insert (clock i) (clock (i + 1)) ip h ttl t)"

lemma insert_all_invar: "invar t \<Longrightarrow> invar (insert_all clock i rs t)"
  by (induction clock i rs t rule: insert_all.induct) (auto intro: insert_invar)

text \<open>Addresses the records do not mention keep their names.\<close>

lemma insert_all_other:
  "invar t \<Longrightarrow> mono clock \<Longrightarrow> clock (i + 2 * length rs) \<le> later \<Longrightarrow> ip \<notin> fst ` set rs \<Longrightarrow>
   live (insert_all clock i rs t) later ip = live t later ip"
proof (induction clock i rs t rule: insert_all.induct)
  case (2 clock i a h ttl rs t)
  have "clock (i + 1) \<le> clock (i + 2 * length ((a, h, ttl) # rs))"
    using \<open>mono clock\<close> by (auto intro: monoD)
  then have "clock (i + 1) \<le> later" using "2.prems"(3) by linarith
  moreover have "clock i \<le> clock (i + 1)" using \<open>mono clock\<close> by (auto intro: monoD)
  ultimately show ?case
    using 2 by (simp add: insert_live insert_invar)
qed simp

text \<open>
  After a response is stored, each of its addresses is known under the name its last
  record gives, until that record's lifetime ends.
\<close>

lemma insert_all_hit:
  assumes "invar t" and "mono clock" and "clock (i + 2 * length rs) \<le> later"
    and "rs = rs1 @ (ip, h, ttl) # rs2" and "ip \<notin> fst ` set rs2"
    and "later < clock (i + 2 * length rs1) + ttl_nanos ttl"
  shows "live (insert_all clock i rs t) later ip = Some h"
  using assms
proof (induction rs1 arbitrary: i t rs)
  case Nil
  have "clock i \<le> clock (i + 1)" and "clock (i + 1) \<le> clock (i + 2 * length rs)"
    using Nil.prems by (auto intro: monoD)
  then have "clock i \<le> clock (i + 1)" "clock (i + 1) \<le> later"
    using Nil.prems(3) by linarith+
  then show ?case
    using Nil.prems by (simp add: insert_all_other insert_live insert_invar)
next
  case (Cons r rs1)
  obtain a g tt where r: "r = (a, g, tt)" by (cases r)
  show ?case
    using Cons.prems Cons.IH [of "insert (clock i) (clock (i + 1)) a g tt t" "i + 2"
        "rs1 @ (ip, h, ttl) # rs2"]
    by (simp add: r insert_invar)
qed

end

section \<open>The table provides the interface\<close>

definition table_live :: "dns_table \<Rightarrow> instant \<Rightarrow> ip_addr \<Rightarrow> rstr option" where
  "table_live table now ip =
     (case map_of table ip of
        Some e \<Rightarrow> if now < expires_at e then Some (hostname e) else None
      | None \<Rightarrow> None)"

definition table_ok :: "dns_table \<Rightarrow> bool" where
  "table_ok table \<longleftrightarrow> distinct (map fst table)"

lemma map_of_filter_distinct:
  "distinct (map fst xs) \<Longrightarrow>
   map_of (filter P xs) k = (case map_of xs k of Some v \<Rightarrow> if P (k, v) then Some v else None
                             | None \<Rightarrow> None)"
proof (induction xs)
  case (Cons a xs)
  obtain k' v' where a: "a = (k', v')" by (cases a)
  have "map_of xs k' = None" using Cons.prems a by (simp add: map_of_eq_None_iff)
  with Cons a show ?case by (auto split: option.splits)
qed simp

lemma distinct_filter_fst: "distinct (map fst xs) \<Longrightarrow> distinct (map fst (filter P xs))"
  by (induction xs) auto

lemma dns_table_insert_ok: "table_ok table \<Longrightarrow> table_ok (dns_table_insert now now' ip h ttl table)"
  by (simp add: dns_table_insert_def table_ok_def Let_def distinct_update distinct_filter_fst)

lemma dns_table_lookup_ok: "table_ok table \<Longrightarrow> table_ok (snd (dns_table_lookup now ip table))"
  by (auto simp: dns_table_lookup_def table_ok_def distinct_delete split: option.splits)

lemma dns_table_insert_live:
  assumes "table_ok table" and "now \<le> now'" and "now' \<le> later"
  shows "table_live (dns_table_insert now now' ip h ttl table) later =
    (table_live table later)(ip := if later < now + ttl_nanos ttl then Some h else None)"
proof -
  have "distinct (map fst (AList.update ip e table))" for e
    using assms(1) by (simp add: table_ok_def distinct_update)
  then show ?thesis
    using assms(2,3)
    by (auto simp: fun_eq_iff table_live_def dns_table_insert_def Let_def ttl_nanos_def
          map_of_filter_distinct update_conv' split: option.splits)
qed

lemma dns_table_lookup_frame:
  "table_ok table \<Longrightarrow> now \<le> later \<Longrightarrow>
   table_live (snd (dns_table_lookup now ip table)) later = table_live table later"
  by (auto simp: fun_eq_iff table_live_def dns_table_lookup_def delete_conv'
        split: option.splits)

interpretation dns: host_table dns_table_insert dns_table_lookup table_live table_ok
proof unfold_locales
  show "table_ok t \<Longrightarrow> fst (dns_table_lookup now ip t) = table_live t now ip" for t now ip
    by (simp add: dns_table_lookup_def table_live_def split: option.splits)
qed (simp_all add: dns_table_insert_live dns_table_lookup_frame dns_table_insert_ok
       dns_table_lookup_ok)

lemma insert_records_eq: "insert_records clock i rs t = dns.insert_all clock i rs t"
  by (induction clock i rs t rule: insert_records.induct) simp_all

section \<open>Bounds\<close>

lemma ttl_nanos_bounds: "60 * 10 ^ 9 \<le> ttl_nanos ttl" "ttl_nanos ttl \<le> 3600 * 10 ^ 9"
proof -
  have "unat MIN_TTL_SECS \<le> unat (clamp_u32 MIN_TTL_SECS MAX_TTL_SECS ttl)"
    and "unat (clamp_u32 MIN_TTL_SECS MAX_TTL_SECS ttl) \<le> unat MAX_TTL_SECS"
    by (auto simp: clamp_u32_def MIN_TTL_SECS_def MAX_TTL_SECS_def word_less_nat_alt)
  then show "60 * 10 ^ 9 \<le> ttl_nanos ttl" "ttl_nanos ttl \<le> 3600 * 10 ^ 9"
    by (simp_all add: ttl_nanos_def from_secs_def MIN_TTL_SECS_def MAX_TTL_SECS_def)
qed

text \<open>No entry outlives its insertion by more than an hour.\<close>

definition expiry_bounded :: "instant \<Rightarrow> dns_table \<Rightarrow> bool" where
  "expiry_bounded now table \<longleftrightarrow> (\<forall>(ip, e) \<in> set table. expires_at e \<le> now + 3600 * 10 ^ 9)"

lemma update_set: "x \<in> set (AList.update k v xs) \<Longrightarrow> x = (k, v) \<or> x \<in> set xs"
  by (induction xs) (auto split: if_splits)

lemma dns_table_insert_expiry:
  assumes "expiry_bounded now table" and "now \<le> now'"
  shows "expiry_bounded now' (dns_table_insert now now' ip h ttl table)"
  using assms ttl_nanos_bounds(2) [of ttl]
  by (fastforce simp: expiry_bounded_def dns_table_insert_def Let_def ttl_nanos_def
        dest!: update_set split: if_splits)

lemma insert_evicts:
  assumes "EVICTION_THRESHOLD < length (dns_table_insert now now' ip h ttl table)"
  shows "list_all (\<lambda>(_, e). now' < expires_at e) (dns_table_insert now now' ip h ttl table)"
  using assms by (auto simp: dns_table_insert_def Let_def list_all_iff split: if_splits)

section \<open>Properties\<close>

text \<open>A lookup after an insertion: the inserted address has the inserted name for its clamped
  lifetime and no name after it, and every other address has the name it had, even when the
  insertion evicts.\<close>

lemma insert_then_lookup:
  assumes "table_ok table" and "now \<le> now'" and "now' \<le> later"
  shows "fst (dns_table_lookup later ip' (dns_table_insert now now' ip h ttl table)) =
    (if ip' = ip then if later < now + ttl_nanos ttl then Some h else None
     else fst (dns_table_lookup later ip' table))"
  using assms by (simp add: dns.lookup_live dns_table_insert_ok dns_table_insert_live)

lemma insert_then_lookup_witness:
  "fst (dns_table_lookup 59999999999 (V4 1 2 3 4)
     (dns_table_insert 0 0 (V4 1 2 3 4) (lit ''a'') 5 [])) = Some (lit ''a'')"
  using insert_then_lookup [of "[]" 0 0 59999999999 "V4 1 2 3 4" "V4 1 2 3 4" "lit ''a''" 5]
    ttl_nanos_bounds(1) [of 5]
  by (simp add: table_ok_def)

text \<open>C32: Insertions keep the table well formed: one entry per address, no entry that expires more
  than an hour after the last insertion, and above the threshold only entries that are
  still alive.\<close>

theorem insert_keeps_invariants:
  assumes "table_ok table" and "expiry_bounded now table" and "now \<le> now'"
  shows "table_ok (dns_table_insert now now' ip h ttl table) \<and>
    expiry_bounded now' (dns_table_insert now now' ip h ttl table) \<and>
    (EVICTION_THRESHOLD < length (dns_table_insert now now' ip h ttl table) \<longrightarrow>
       list_all (\<lambda>(_, e). now' < expires_at e) (dns_table_insert now now' ip h ttl table))"
  using assms dns_table_insert_ok dns_table_insert_expiry insert_evicts by blast

theorem insert_keeps_invariants_witness:
  "expiry_bounded 7 (dns_table_insert 0 7 (V4 1 2 3 4) (lit ''a'') 4000000 [])"
  using insert_keeps_invariants [of "[]" 0 7 "V4 1 2 3 4" "lit ''a''" 4000000]
  by (simp add: table_ok_def expiry_bounded_def)

end
