(* ===== verification/Dns_History.thy ===== *)
theory Dns_History
  imports Dns_Table
begin

text \<open>
  The table of \<open>mihomo-android-ffi/src/dns_table.rs\<close> under any number of tasks.  Every call
  holds the lock for its whole access, so the calls of all tasks form one sequence, in the
  order in which they got the lock.  The reference is the bare history of that sequence: no
  map, no removal of expired entries, no eviction.  The two cannot be told apart.
\<close>

section \<open>Calls and their history\<close>

text \<open>
  An insertion reads the clock once before it asks for the lock (\<open>dated\<close>) and, if it evicts, once
  under the lock; a lookup reads it under the lock.
\<close>

datatype table_call =
    Insert instant instant ip_addr rstr u32
  | Lookup instant ip_addr

fun locked_at :: "table_call \<Rightarrow> instant" where
  "locked_at (Insert now now' ip host ttl) = now'"
| "locked_at (Lookup now ip) = now"

fun dated :: "table_call \<Rightarrow> bool" where
  "dated (Insert now now' ip host ttl) \<longleftrightarrow> now \<le> now'"
| "dated (Lookup now ip) \<longleftrightarrow> True"

text \<open>The clock does not run backwards from one holder of the lock to the next.\<close>

definition serial :: "table_call list \<Rightarrow> bool" where
  "serial cs \<longleftrightarrow> sorted (map locked_at cs) \<and> list_all dated cs"

text \<open>The code: the answers of the lookups, and the table they leave.\<close>

fun table_run :: "table_call list \<Rightarrow> dns_table \<Rightarrow> rstr option list \<times> dns_table" where
  "table_run [] t = ([], t)"
| "table_run (Insert now now' ip host ttl # cs) t =
     table_run cs (dns_table_insert now now' ip host ttl t)"
| "table_run (Lookup now ip # cs) t =
     (let (h, t) = dns_table_lookup now ip t; (hs, t) = table_run cs t in (h # hs, t))"

text \<open>
  The reference: the name of an address is that of its last insertion, newest call first,
  for the clamped lifetime of that insertion.
\<close>

fun last_name :: "table_call list \<Rightarrow> instant \<Rightarrow> ip_addr \<Rightarrow> rstr option" where
  "last_name [] later ip = None"
| "last_name (Insert now now' ip' host ttl # past) later ip =
     (if ip' = ip then (if later < now + ttl_nanos ttl then Some host else None)
      else last_name past later ip)"
| "last_name (Lookup now ip' # past) later ip = last_name past later ip"

fun history_answers :: "table_call list \<Rightarrow> table_call list \<Rightarrow> rstr option list" where
  "history_answers past [] = []"
| "history_answers past (Insert now now' ip host ttl # cs) =
     history_answers (Insert now now' ip host ttl # past) cs"
| "history_answers past (Lookup now ip # cs) =
     last_name past now ip # history_answers (Lookup now ip # past) cs"

section \<open>The simulation\<close>

text \<open>
  The table and a history agree from a point of time on: a lookup from then on finds what the
  history says.
\<close>

definition agrees :: "instant \<Rightarrow> table_call list \<Rightarrow> dns_table \<Rightarrow> bool" where
  "agrees now past t \<longleftrightarrow> table_ok t \<and> (\<forall>later\<ge>now. \<forall>ip. table_live t later ip = last_name past later ip)"

lemma agrees_empty: "agrees now [] []"
  by (simp add: agrees_def table_ok_def table_live_def)

lemma agrees_insert:
  assumes "agrees start past t" and "start \<le> now'" and "now \<le> now'"
  shows "agrees now' (Insert now now' ip host ttl # past) (dns_table_insert now now' ip host ttl t)"
  using assms
  by (auto simp: agrees_def dns_table_insert_ok dns_table_insert_live)

lemma agrees_lookup:
  assumes "agrees start past t" and "start \<le> now"
  shows "fst (dns_table_lookup now ip t) = last_name past now ip"
    and "agrees now (Lookup now ip # past) (snd (dns_table_lookup now ip t))"
  using assms
  by (auto simp: agrees_def dns.lookup_live dns_table_lookup_frame dns_table_lookup_ok)

lemma table_run_history:
  "agrees start past t \<Longrightarrow> serial cs \<Longrightarrow> list_all (\<lambda>c. start \<le> locked_at c) cs \<Longrightarrow>
   fst (table_run cs t) = history_answers past cs"
proof (induction past cs arbitrary: start t rule: history_answers.induct)
  case (2 past now now' ip host ttl cs)
  have "agrees now' (Insert now now' ip host ttl # past) (dns_table_insert now now' ip host ttl t)"
    using 2 by (intro agrees_insert [of start]) (simp_all add: serial_def)
  from "2.IH" [OF this] show ?case
    using "2.prems" by (simp add: serial_def list_all_iff)
next
  case (3 past now ip cs)
  note l = agrees_lookup [OF "3.prems"(1), of now ip]
  have "start \<le> now" using 3 by simp
  with "3.IH" [of now "snd (dns_table_lookup now ip t)"] l "3.prems" show ?case
    by (auto simp: serial_def list_all_iff split: prod.splits)
qed simp

text \<open>Calls that store nothing for an address leave its name alone.\<close>

fun stores :: "ip_addr \<Rightarrow> table_call \<Rightarrow> bool" where
  "stores ip (Insert now now' ip' host ttl) \<longleftrightarrow> ip' = ip"
| "stores ip (Lookup now ip') \<longleftrightarrow> False"

lemma table_run_frame:
  "table_ok t \<Longrightarrow> list_all (\<lambda>c. dated c \<and> locked_at c \<le> later \<and> \<not> stores ip c) cs \<Longrightarrow>
   table_ok (snd (table_run cs t)) \<and> table_live (snd (table_run cs t)) later ip = table_live t later ip"
proof (induction cs t rule: table_run.induct)
  case (2 now now' ip' host ttl cs t)
  then show ?case by (auto simp: dns_table_insert_ok dns_table_insert_live)
next
  case (3 now ip' cs t)
  obtain h t' where l: "dns_table_lookup now ip' t = (h, t')" by fastforce
  then have "t' = snd (dns_table_lookup now ip' t)" by simp
  then have "table_ok t'" "table_live t' later = table_live t later"
    using 3(2,3) by (simp_all add: dns_table_lookup_ok dns_table_lookup_frame)
  with 3 l show ?case by (cases "table_run cs t'") auto
qed simp

section \<open>Types\<close>

text \<open>
  The invariants the Rust types of an entry carry: an IPv6 address has 16 octets and a
  \<open>String\<close> is valid UTF-8.
\<close>

definition table_typed :: "dns_table \<Rightarrow> bool" where
  "table_typed t \<longleftrightarrow> list_all (\<lambda>(ip, e). ip_wf ip \<and> utf8_valid (hostname e)) t"

lemma insert_typed:
  "table_typed t \<Longrightarrow> ip_wf ip \<Longrightarrow> utf8_valid host \<Longrightarrow>
   table_typed (dns_table_insert now now' ip host ttl t)"
  by (fastforce simp: table_typed_def list_all_iff dns_table_insert_def Let_def
      dest!: update_set split: if_splits)

lemma lookup_typed:
  assumes "table_typed t"
  shows "table_typed (snd (dns_table_lookup now ip t))"
    and "fst (dns_table_lookup now ip t) = Some h \<Longrightarrow> utf8_valid h"
proof -
  have "set (AList.delete ip t) \<subseteq> set t" by (auto simp: AList.delete_eq)
  then show "table_typed (snd (dns_table_lookup now ip t))"
    using assms by (auto simp: dns_table_lookup_def table_typed_def list_all_iff split: option.splits)
  show "fst (dns_table_lookup now ip t) = Some h \<Longrightarrow> utf8_valid h"
    using assms
    by (auto simp: dns_table_lookup_def table_typed_def list_all_iff dest: map_of_SomeD
        split: option.splits if_splits)
qed

lemma insert_records_typed:
  "table_typed t \<Longrightarrow> list_all (\<lambda>(ip, host, ttl). ip_wf ip \<and> utf8_valid host) rs \<Longrightarrow>
   table_typed (insert_records clock i rs t)"
  by (induction clock i rs t rule: insert_records.induct) (auto intro: insert_typed)

text \<open>The records of any response have these types.\<close>

lemma response_typed:
  assumes "parse_dns_response_records data = Some rs"
  shows "list_all (\<lambda>(ip, host, ttl). ip_wf ip \<and> utf8_valid host) rs"
  using parse_dns_response_records [OF assms] read_dns_name_utf8
  by (fastforce simp: list_all_iff record_ok_def)

section \<open>Properties\<close>

text \<open>C36: The table behaves as the history of its calls: whatever the tasks insert and look up, in whatever
  order they get the lock, every lookup answers the name of the last insertion for its
  address, for the clamped lifetime of that insertion, as if nothing were ever removed,
  expired or evicted.\<close>

theorem table_is_history:
  assumes "serial cs"
  shows "fst (table_run cs []) = history_answers [] cs"
  by (rule table_run_history [of 0, OF agrees_empty assms]) (simp add: list_all_iff)

theorem table_is_history_witness:
  "fst (table_run
     [Insert 0 5 (V4 1 2 3 4) (lit ''a'') 60, Insert 3 6 (V4 1 2 3 4) (lit ''b'') 60,
      Lookup 7 (V4 1 2 3 4), Lookup 8 (V4 5 6 7 8)] []) = [Some (lit ''b''), None]"
  using table_is_history [of
      "[Insert 0 5 (V4 1 2 3 4) (lit ''a'') 60, Insert 3 6 (V4 1 2 3 4) (lit ''b'') 60,
        Lookup 7 (V4 1 2 3 4), Lookup 8 (V4 5 6 7 8)]"] ttl_nanos_bounds(1) [of 60]
  by (simp add: serial_def)

end
