(* ===== verification/Udp_Packet.thy ===== *)
theory Udp_Packet
  imports Prelude
begin

text \<open>
  The UDP helpers of \<open>mihomo-android-ffi/src/tun2socks.rs\<close>: \<open>parse_udp_packet\<close>,
  \<open>build_udp_packet\<close> and \<open>ip_checksum\<close>.  Indexing and \<open>copy_from_slice\<close> are checked
  (\<^term>\<open>None\<close> is a panic); \<open>to_ne_bytes\<close> depends on the machine, so its byte order is an
  argument.  The specification of what is built is a strict receiver, \<open>receive_udp\<close>.
\<close>

section \<open>Model\<close>

datatype endian = Little | Big

fun from_ne32 :: "endian \<Rightarrow> byte \<Rightarrow> byte \<Rightarrow> byte \<Rightarrow> byte \<Rightarrow> u32" where
  "from_ne32 Big a b c d = from_be32 a b c d"
| "from_ne32 Little a b c d = from_be32 d c b a"

fun to_ne32 :: "endian \<Rightarrow> u32 \<Rightarrow> byte list" where
  "to_ne32 Big w = to_be32 w"
| "to_ne32 Little w = rev (to_be32 w)"

text \<open>Source address, source port, destination address, destination port, payload.\<close>

type_synonym udp_packet = "u32 \<times> u16 \<times> u32 \<times> u16 \<times> byte list"

definition parse_udp_packet :: "endian \<Rightarrow> byte list \<Rightarrow> udp_packet option panics" where
  "parse_udp_packet ne ip_data =
     (if length ip_data < 28 then Some None
      else do {
        b0 \<leftarrow> index_at ip_data 0;
        if drop_bit 4 b0 \<noteq> 4 then Some None
        else do {
          proto \<leftarrow> index_at ip_data 9;
          if proto \<noteq> 17 then Some None
          else (let ihl = unat (b0 AND 0x0F) * 4 in
            if length ip_data < ihl + 8 then Some None
            else do {
              s0 \<leftarrow> index_at ip_data 12; s1 \<leftarrow> index_at ip_data 13;
              s2 \<leftarrow> index_at ip_data 14; s3 \<leftarrow> index_at ip_data 15;
              d0 \<leftarrow> index_at ip_data 16; d1 \<leftarrow> index_at ip_data 17;
              d2 \<leftarrow> index_at ip_data 18; d3 \<leftarrow> index_at ip_data 19;
              sp0 \<leftarrow> index_at ip_data ihl; sp1 \<leftarrow> index_at ip_data (ihl + 1);
              dp0 \<leftarrow> index_at ip_data (ihl + 2); dp1 \<leftarrow> index_at ip_data (ihl + 3);
              l0 \<leftarrow> index_at ip_data (ihl + 4); l1 \<leftarrow> index_at ip_data (ihl + 5);
              let udp_len = unat (from_be16 l0 l1);
              let start = ihl + 8;
              let stop = min (ihl + udp_len) (length ip_data);
              if stop < start then Some None
              else do {
                payload \<leftarrow> slice_at ip_data start stop;
                Some (Some (from_ne32 ne s0 s1 s2 s3, from_be16 sp0 sp1,
                            from_ne32 ne d0 d1 d2 d3, from_be16 dp0 dp1, payload))
              }
            })
        }
      })"

text \<open>
  \<open>ip_checksum\<close>: the loop over the 16-bit groups (a last odd byte is the high half), the
  carry loop, and the complement.  The \<open>u32\<close> sum wraps; a 20-byte header cannot reach that.
\<close>

fun sum_words :: "byte list \<Rightarrow> u32 \<Rightarrow> u32" where
  "sum_words [] s = s"
| "sum_words [a] s = s + push_bit 8 (ucast a)"
| "sum_words (a # b # r) s = sum_words r (s + (push_bit 8 (ucast a) OR ucast b))"

function fold_carry :: "u32 \<Rightarrow> u32" where
  "fold_carry s = (if drop_bit 16 s \<noteq> 0 then fold_carry ((s AND 0xFFFF) + drop_bit 16 s) else s)"
  by pat_completeness auto

text \<open>One turn of the carry loop, on natural numbers.\<close>

definition fold_nat :: "nat \<Rightarrow> nat" where
  "fold_nat n = n mod 65536 + n div 65536"

lemma fold_nat_split: "\<exists>q r. n = q * 65536 + r \<and> r < 65536 \<and> n div 65536 = q \<and> fold_nat n = r + q"
  by (intro exI [of _ "n div 65536"] exI [of _ "n mod 65536"]) (simp add: fold_nat_def)

lemma fold_nat_less: "65536 \<le> n \<Longrightarrow> fold_nat n < n"
proof -
  obtain q r where "n = q * 65536 + r" "r < 65536" "fold_nat n = r + q"
    using fold_nat_split by blast
  then show "65536 \<le> n \<Longrightarrow> fold_nat n < n" by linarith
qed

lemma fold_nat_le: "fold_nat n \<le> n"
  using fold_nat_less [of n] by (cases "65536 \<le> n") (auto simp: fold_nat_def)

lemma unat_halves:
  "unat (drop_bit 16 (s :: u32)) = unat s div 65536" "unat ((s :: u32) AND 0xFFFF) = unat s mod 65536"
proof -
  show "unat (drop_bit 16 s) = unat s div 65536"
    by (simp add: drop_bit_eq_div unat_div)
  have "s AND 0xFFFF = take_bit 16 s"
    by (simp add: take_bit_eq_mask mask_eq_exp_minus_1)
  then show "unat (s AND 0xFFFF) = unat s mod 65536"
    by (simp add: take_bit_eq_mod unat_mod)
qed

lemma unat_fold_step: "unat ((s AND 0xFFFF) + drop_bit 16 (s :: u32)) = fold_nat (unat s)"
proof -
  have "fold_nat (unat s) < 4294967296"
    using unat_u32_less [of s] fold_nat_le [of "unat s"] by linarith
  then show ?thesis by (simp add: unat_word_ariths unat_halves fold_nat_def)
qed

lemma carry_iff: "drop_bit 16 (s :: u32) \<noteq> 0 \<longleftrightarrow> 65536 \<le> unat s"
proof -
  have "drop_bit 16 s = 0 \<longleftrightarrow> unat s div 65536 = 0"
    by (metis unat_eq_zero unat_halves(1))
  then show ?thesis by (auto simp: div_eq_0_iff)
qed

termination fold_carry
  by (relation "measure unat") (simp_all add: carry_iff unat_fold_step fold_nat_less)

declare fold_carry.simps [simp del]

definition ip_checksum :: "byte list \<Rightarrow> u16" where
  "ip_checksum h = ucast (NOT (fold_carry (sum_words h 0)))"

definition build_udp_packet ::
  "endian \<Rightarrow> u32 \<Rightarrow> u16 \<Rightarrow> u32 \<Rightarrow> u16 \<Rightarrow> byte list \<Rightarrow> byte list panics" where
  "build_udp_packet ne src_ip src_port dst_ip dst_port payload =
     (let udp_len = 8 + length payload;
          total_len = 20 + udp_len;
          p = replicate total_len 0
      in do {
        p \<leftarrow> copy_at p 0 1 [0x45];
        p \<leftarrow> copy_at p 2 4 (to_be16 (as_u16 total_len));
        p \<leftarrow> copy_at p 6 7 [0x40];
        p \<leftarrow> copy_at p 8 9 [64];
        p \<leftarrow> copy_at p 9 10 [17];
        p \<leftarrow> copy_at p 12 16 (to_ne32 ne src_ip);
        p \<leftarrow> copy_at p 16 20 (to_ne32 ne dst_ip);
        h \<leftarrow> slice_at p 0 20;
        let ck = ip_checksum h;
        p \<leftarrow> copy_at p 10 12 (to_be16 ck);
        p \<leftarrow> copy_at p 20 22 (to_be16 src_port);
        p \<leftarrow> copy_at p 22 24 (to_be16 dst_port);
        p \<leftarrow> copy_at p 24 26 (to_be16 (as_u16 udp_len));
        copy_at p 28 (length p) payload
      })"

section \<open>Layout of a built packet\<close>

definition ip_header :: "endian \<Rightarrow> u32 \<Rightarrow> u32 \<Rightarrow> nat \<Rightarrow> byte list \<Rightarrow> byte list" where
  "ip_header ne src dst len ck =
     [0x45, 0] @ to_be16 (as_u16 len) @ [0, 0, 0x40, 0, 64, 17] @ ck
     @ to_ne32 ne src @ to_ne32 ne dst"

definition udp_header :: "u16 \<Rightarrow> u16 \<Rightarrow> nat \<Rightarrow> byte list" where
  "udp_header sp dp n = to_be16 sp @ to_be16 dp @ to_be16 (as_u16 n) @ [0, 0]"

lemma length_to_ne32 [simp]: "length (to_ne32 ne w) = 4"
  by (cases ne) simp_all

lemma list4: "length xs = 4 \<Longrightarrow> \<exists>a b c d. xs = [a, b, c, d]"
  by (simp add: length_Suc_conv numeral_eq_Suc) blast

lemma build_udp_packet_layout:
  "build_udp_packet ne src sp dst dp payload =
     Some (ip_header ne src dst (28 + length payload)
             (to_be16 (ip_checksum (ip_header ne src dst (28 + length payload) [0, 0])))
           @ udp_header sp dp (8 + length payload) @ payload)"
proof -
  obtain s0 s1 s2 s3 where s: "to_ne32 ne src = [s0, s1, s2, s3]"
    using list4 length_to_ne32 by metis
  obtain d0 d1 d2 d3 where d: "to_ne32 ne dst = [d0, d1, d2, d3]"
    using list4 length_to_ne32 by metis
  have r: "replicate (20 + (8 + length payload)) 0 = replicate 28 0 @ replicate (length payload) (0 :: byte)"
    by (simp add: replicate_add [symmetric])
  have z: "replicate 28 (0 :: byte) =
      [0, 0, 0, 0, 0, 0, 0, 0, 0, 0, 0, 0, 0, 0, 0, 0, 0, 0, 0, 0, 0, 0, 0, 0, 0, 0, 0, 0]"
    by (simp add: numeral_eq_Suc)
  show ?thesis
    unfolding build_udp_packet_def Let_def r z
    by (simp add: copy_at_def slice_at_def s d to_be16_def ip_header_def udp_header_def)
qed

lemma build_udp_packet_length:
  "build_udp_packet ne src sp dst dp payload = Some p \<Longrightarrow> length p = 28 + length payload"
  by (auto simp: build_udp_packet_layout ip_header_def udp_header_def)

section \<open>Parsing\<close>

text \<open>The parser with its bounds checks discharged: no index of it is out of range.\<close>

lemma parse_udp_packet_unfold:
  "parse_udp_packet ne d =
     Some (let ihl = unat (d ! 0 AND 0x0F) * 4;
               n = unat (from_be16 (d ! (ihl + 4)) (d ! (ihl + 5)));
               stop = min (ihl + n) (length d)
       in if length d < 28 \<or> drop_bit 4 (d ! 0) \<noteq> 4 \<or> d ! 9 \<noteq> 17 \<or> length d < ihl + 8 \<or> stop < ihl + 8
          then None
          else Some (from_ne32 ne (d ! 12) (d ! 13) (d ! 14) (d ! 15),
                     from_be16 (d ! ihl) (d ! (ihl + 1)),
                     from_ne32 ne (d ! 16) (d ! 17) (d ! 18) (d ! 19),
                     from_be16 (d ! (ihl + 2)) (d ! (ihl + 3)),
                     take (stop - (ihl + 8)) (drop (ihl + 8) d)))"
proof (cases "length d < 28")
  case False
  then have "d \<noteq> []" by auto
  with False show ?thesis
    by (auto simp: parse_udp_packet_def panic_simps Let_def)
qed (simp add: parse_udp_packet_def)

lemma parse_udp_packet_total: "\<exists>r. parse_udp_packet ne ip_data = Some r"
  by (simp add: parse_udp_packet_unfold)

lemma from_to_ne32_nth [simp]:
  "from_ne32 ne (to_ne32 ne w ! 0) (to_ne32 ne w ! Suc 0) (to_ne32 ne w ! 2) (to_ne32 ne w ! 3) = w"
  by (cases ne) (simp_all add: to_be32_def numeral_2_eq_2 numeral_3_eq_3)

text \<open>The payload is what the datagram's own length field says, cut at the end of the buffer.\<close>

lemma parse_udp_packet_Some:
  "parse_udp_packet ne d = Some (Some (si, sp, di, dp, pl)) \<Longrightarrow>
   28 \<le> length d \<and> drop_bit 4 (d ! 0) = 4 \<and> d ! 9 = 17 \<and>
   (let ihl = unat (d ! 0 AND 0x0F) * 4; n = unat (from_be16 (d ! (ihl + 4)) (d ! (ihl + 5)))
    in ihl + 8 \<le> length d \<and> 8 \<le> n \<and> pl = take (n - 8) (drop (ihl + 8) d))"
  by (auto simp: parse_udp_packet_unfold Let_def min_def split: if_splits)

lemma parse_build_udp_packet:
  assumes "length payload \<le> 65527" and "build_udp_packet ne src sp dst dp payload = Some p"
  shows "parse_udp_packet ne p = Some (Some (src, sp, dst, dp, payload))"
proof -
  define ck where "ck = to_be16 (ip_checksum (ip_header ne src dst (28 + length payload) [0, 0]))"
  have lck: "length ck = 2" by (simp add: ck_def)
  have p: "p = ip_header ne src dst (28 + length payload) ck
             @ udp_header sp dp (8 + length payload) @ payload"
    using assms(2) by (simp add: build_udp_packet_layout ck_def)
  obtain s0 s1 s2 s3 where s: "to_ne32 ne src = [s0, s1, s2, s3]"
    using list4 length_to_ne32 by metis
  obtain d0 d1 d2 d3 where d: "to_ne32 ne dst = [d0, d1, d2, d3]"
    using list4 length_to_ne32 by metis
  obtain c0 c1 where c: "ck = [c0, c1]"
    using lck by (auto simp: length_Suc_conv numeral_2_eq_2)
  obtain t0 t1 where t: "to_be16 (as_u16 (28 + length payload)) = [t0, t1]"
    by (simp add: to_be16_def)
  have p': "p = [0x45, 0, t0, t1, 0, 0, 0x40, 0, 64, 17, c0, c1, s0, s1, s2, s3, d0, d1, d2, d3,
      as_u8 (unat sp div 256), as_u8 (unat sp), as_u8 (unat dp div 256), as_u8 (unat dp),
      as_u8 ((8 + length payload) div 256), as_u8 (8 + length payload), 0, 0] @ payload"
    using assms(1) by (simp add: p ip_header_def udp_header_def s d c t)
      (simp add: to_be16_def unat_as_u16)
  have ne: "from_ne32 ne s0 s1 s2 s3 = src" "from_ne32 ne d0 d1 d2 d3 = dst"
    using from_to_ne32_nth [of ne src] from_to_ne32_nth [of ne dst]
    by (simp_all add: s d)
  have ihl: "unat (0x45 AND 0x0F :: byte) * 4 = 20" by simp
  have u: "unat (as_u16 (8 + length payload)) = 8 + length payload"
    using assms(1) by (simp add: unat_as_u16)
  show ?thesis
    using u ne by (simp add: parse_udp_packet_unfold Let_def p')
qed

section \<open>The checksum\<close>

text \<open>The sum of the 16-bit groups as a natural number.\<close>

fun word_sum :: "byte list \<Rightarrow> nat" where
  "word_sum [] = 0"
| "word_sum [a] = unat a * 256"
| "word_sum (a # b # r) = unat a * 256 + unat b + word_sum r"

lemma word_sum_append: "even (length a) \<Longrightarrow> word_sum (a @ b) = word_sum a + word_sum b"
  by (induction a rule: word_sum.induct) auto

lemma word_sum_bound: "word_sum h \<le> 65535 * ((length h + 1) div 2)"
proof (induction h rule: word_sum.induct)
  case (2 a)
  then show ?case using unat_byte_le [of a] by simp
next
  case (3 a b r)
  then show ?case using unat_byte_le [of a] unat_byte_le [of b] by simp
qed simp

lemma unat_group: "unat (push_bit 8 (ucast (a :: byte)) OR ucast (b :: byte) :: u32) = unat a * 256 + unat b"
proof -
  have "push_bit 8 (ucast a) OR ucast b = (push_bit 8 (ucast a) + ucast b :: u32)"
    by (rule disjunctive_add [symmetric]) (auto simp: bit_simps dest: bit_imp_le_length)
  moreover have "unat (push_bit 8 (ucast a) + ucast b :: u32) = unat a * 256 + unat b"
  proof -
    have "unat a \<le> 255" and "unat b \<le> 255" by (simp_all add: unat_byte_le)
    then have "unat a < 4294967296" "unat b < 4294967296" "unat a * 256 < 4294967296"
      "unat a * 256 + unat b < 4294967296" by linarith+
    then show ?thesis
      by (simp add: unat_word_ariths push_bit_eq_mult unsigned_ucast_eq take_bit_eq_mod)
  qed
  ultimately show ?thesis by simp
qed

lemma unat_last_group: "unat (push_bit 8 (ucast (a :: byte)) :: u32) = unat a * 256"
  using unat_group [of a 0] by simp

lemma unat_sum_words:
  "unat s + word_sum h < 4294967296 \<Longrightarrow> unat (sum_words h s) = unat s + word_sum h"
proof (induction h s rule: sum_words.induct)
  case (2 a s)
  then show ?case by (simp add: unat_word_ariths unat_last_group)
next
  case (3 a b r s)
  then have "unat (s + (push_bit 8 (ucast a) OR ucast b)) = unat s + (unat a * 256 + unat b)"
    by (simp add: unat_word_ariths unat_group)
  with 3 show ?case by simp
qed simp

text \<open>Folding keeps the value modulo 65535, and only 0 folds to 0.\<close>

lemma fold_nat_mod: "fold_nat n mod 65535 = n mod 65535"
proof -
  obtain q r where "n = q * 65536 + r" "fold_nat n = r + q"
    using fold_nat_split by blast
  then have "n = fold_nat n + q * 65535" by simp
  then show ?thesis by (metis mod_mult_self1)
qed

lemma fold_nat_zero: "fold_nat n = 0 \<Longrightarrow> n = 0"
  by (simp add: fold_nat_def) (metis div_mult_mod_eq add_cancel_right_right mult_is_0)

lemma fold_carry_spec:
  "unat (fold_carry s) < 65536 \<and> unat (fold_carry s) mod 65535 = unat s mod 65535 \<and>
   (unat (fold_carry s) = 0 \<longrightarrow> unat s = 0) \<and> unat (fold_carry s) \<le> unat s"
proof (induction s rule: fold_carry.induct)
  case (1 s)
  show ?case
  proof (cases "drop_bit 16 s = 0")
    case True
    then show ?thesis using carry_iff [of s] by (simp add: fold_carry.simps [of s] not_le)
  next
    case False
    with 1 show ?thesis
      using fold_nat_zero [of "unat s"] fold_nat_le [of "unat s"]
      by (simp add: fold_carry.simps [of s] unat_fold_step fold_nat_mod)
  qed
qed

lemma unat_ip_checksum: "unat (ip_checksum h) = 65535 - unat (fold_carry (sum_words h 0))"
proof -
  let ?f = "fold_carry (sum_words h 0)"
  have f: "unat ?f < 65536" using fold_carry_spec by blast
  have "NOT ?f = - 1 - ?f" by (simp add: not_eq_complement)
  then have "unat (NOT ?f) = unat (- 1 :: u32) - unat ?f"
    by (metis unat_sub word_order.extremum)
  moreover have "unat (- 1 :: u32) = 4294967295"
    by (simp add: unsigned_minus_1_eq_mask mask_eq_exp_minus_1)
  ultimately have "unat (NOT ?f) = 4294967295 - unat ?f" by simp
  then have "unat (ip_checksum h) = (4294967295 - unat ?f) mod 65536"
    by (simp add: ip_checksum_def unsigned_ucast_eq take_bit_eq_mod)
  also have "\<dots> = 65535 - unat ?f"
  proof -
    have "4294967295 - unat ?f = (65535 - unat ?f) + 65535 * 65536" using f by simp
    then show ?thesis using f by (simp only: mod_mult_self1) simp
  qed
  finally show ?thesis .
qed

text \<open>
  The check of RFC 1071: the 16-bit groups, each read most significant octet first, add up to
  a multiple of 0xFFFF other than 0.
\<close>

definition group_at :: "byte list \<Rightarrow> nat \<Rightarrow> nat" where
  "group_at h i = 256 * unat (h ! i) + unat (h ! Suc i)"

definition header_verifies :: "byte list \<Rightarrow> bool" where
  "header_verifies h \<longleftrightarrow>
     (\<Sum>i<10. group_at h (2 * i)) mod 65535 = 0 \<and> (\<Sum>i<10. group_at h (2 * i)) \<noteq> 0"

lemma word_sum_groups:
  "length h = 2 * n \<Longrightarrow> word_sum h = (\<Sum>i<n. group_at h (2 * i))"
proof (induction n arbitrary: h)
  case (Suc n)
  then obtain a b r where h: "h = a # b # r" "length r = 2 * n"
    by (auto simp: length_Suc_conv)
  have "(\<Sum>i<Suc n. group_at h (2 * i)) = group_at h 0 + (\<Sum>i<n. group_at r (2 * i))"
    by (simp only: sum.lessThan_Suc_shift) (simp add: h(1) group_at_def)
  then show ?case using Suc.IH [OF h(2)] by (simp add: h(1) group_at_def)
qed simp

text \<open>
  A header whose checksum field holds the checksum computed with the field zero passes the
  receiver's check.
\<close>

lemma checksum_verifies:
  assumes "even (length a)" and "length a + length b < 65536"
  shows "word_sum (a @ to_be16 (ip_checksum (a @ [0, 0] @ b)) @ b) mod 65535 = 0 \<and>
    word_sum (a @ to_be16 (ip_checksum (a @ [0, 0] @ b)) @ b) \<noteq> 0"
proof -
  let ?ck = "ip_checksum (a @ [0, 0] @ b)"
  let ?S = "word_sum a + word_sum b"
  let ?f = "unat (fold_carry (sum_words (a @ [0, 0] @ b) 0))"
  have "(length a + 1) div 2 + (length b + 1) div 2 \<le> 32768"
    using assms by presburger
  then have bound: "?S \<le> 2147450880"
    using word_sum_bound [of a] word_sum_bound [of b] by linarith
  have "unat (sum_words (a @ [0, 0] @ b) 0) = ?S"
    using bound assms by (subst unat_sum_words) (simp_all add: word_sum_append)
  then have f: "?f < 65536" "?f mod 65535 = ?S mod 65535" "?f \<le> ?S"
    using fold_carry_spec [of "sum_words (a @ [0, 0] @ b) 0"] by simp_all
  have "word_sum (to_be16 ?ck @ b) = unat ?ck + word_sum b"
  proof -
    have "unat ?ck div 256 < 256" using unat_u16_less [of ?ck] by linarith
    then show ?thesis by (simp add: to_be16_def unat_as_u8)
  qed
  then have T: "word_sum (a @ to_be16 ?ck @ b) = ?S + (65535 - ?f)"
    using assms(1) by (simp add: word_sum_append unat_ip_checksum)
  have "(?S + (65535 - ?f)) mod 65535 = (?f + (65535 - ?f)) mod 65535"
    by (rule mod_add_cong [OF f(2) [symmetric] refl])
  also have "?f + (65535 - ?f) = 65535" using f(1) by linarith
  finally have "(?S + (65535 - ?f)) mod 65535 = 0" by simp
  moreover have "?S + (65535 - ?f) \<noteq> 0" using f(1,3) by linarith
  ultimately show ?thesis unfolding T by blast
qed

lemma built_header:
  assumes "build_udp_packet ne src sp dst dp payload = Some p"
  shows "header_verifies p"
proof -
  let ?n = "28 + length payload"
  let ?a = "[0x45, 0] @ to_be16 (as_u16 ?n) @ [0, 0, 0x40, 0, 64, 17]"
  let ?b = "to_ne32 ne src @ to_ne32 ne dst"
  let ?h = "?a @ to_be16 (ip_checksum (?a @ [0, 0] @ ?b)) @ ?b"
  have h: "ip_header ne src dst ?n ck = ?a @ ck @ ?b" for ck
    by (simp add: ip_header_def)
  obtain h r where p: "p = h @ r" "h = ?h"
    using assms by (auto simp: build_udp_packet_layout h)
  have l: "length h = 20" by (simp add: p(2))
  have "group_at p (2 * i) = group_at h (2 * i)" if "i < 10" for i
    using that l by (simp add: group_at_def p(1) nth_append)
  then have "(\<Sum>i<10. group_at p (2 * i)) = (\<Sum>i<10. group_at h (2 * i))" by simp
  also have "\<dots> = word_sum h"
    by (rule word_sum_groups [symmetric]) (simp add: l)
  finally have sum: "(\<Sum>i<10. group_at p (2 * i)) = word_sum h" .
  have "word_sum h mod 65535 = 0 \<and> word_sum h \<noteq> 0"
    unfolding p(2) by (rule checksum_verifies) simp_all
  then show ?thesis unfolding header_verifies_def sum .
qed

section \<open>A strict receiver\<close>

text \<open>
  A host that takes nothing on trust (RFC 791, RFC 768): a 20-byte IPv4 header that verifies,
  the total length that of the packet, not a fragment, the protocol UDP, and the length of the
  datagram that of the rest.  It gives the addresses, the ports and the payload.
\<close>

definition receive_udp :: "endian \<Rightarrow> byte list \<Rightarrow> udp_packet option" where
  "receive_udp ne p =
     (if 28 \<le> length p \<and> p ! 0 = 0x45 \<and> group_at p 2 = length p \<and> group_at p 6 mod 0x4000 = 0 \<and>
         p ! 9 = 17 \<and> header_verifies p \<and> group_at p 24 = length p - 20
      then Some (from_ne32 ne (p ! 12) (p ! 13) (p ! 14) (p ! 15), as_u16 (group_at p 20),
                 from_ne32 ne (p ! 16) (p ! 17) (p ! 18) (p ! 19), as_u16 (group_at p 22), drop 28 p)
      else None)"

lemma be16_value: "to_be16 w = [a, b] \<Longrightarrow> 256 * unat a + unat b = unat w"
  using from_to_be16_nth [of w] unat_from_be16 [of a b] by simp

lemma receive_build_udp_packet:
  assumes "build_udp_packet ne src sp dst dp payload = Some p"
  shows "receive_udp ne p =
    (if length payload \<le> 65507 then Some (src, sp, dst, dp, payload) else None)"
proof -
  define ck where "ck = to_be16 (ip_checksum (ip_header ne src dst (28 + length payload) [0, 0]))"
  have p: "p = ip_header ne src dst (28 + length payload) ck
             @ udp_header sp dp (8 + length payload) @ payload"
    using assms by (simp add: build_udp_packet_layout ck_def)
  obtain s0 s1 s2 s3 where s: "to_ne32 ne src = [s0, s1, s2, s3]"
    using list4 length_to_ne32 by metis
  obtain d0 d1 d2 d3 where d: "to_ne32 ne dst = [d0, d1, d2, d3]"
    using list4 length_to_ne32 by metis
  obtain c0 c1 where c: "ck = [c0, c1]" by (simp add: ck_def to_be16_def)
  obtain t0 t1 where t: "to_be16 (as_u16 (28 + length payload)) = [t0, t1]"
    by (simp add: to_be16_def)
  obtain l0 l1 where l: "to_be16 (as_u16 (8 + length payload)) = [l0, l1]"
    by (simp add: to_be16_def)
  obtain a0 a1 where a: "to_be16 sp = [a0, a1]" by (simp add: to_be16_def)
  obtain b0 b1 where b: "to_be16 dp = [b0, b1]" by (simp add: to_be16_def)
  have p': "p = [0x45, 0, t0, t1, 0, 0, 0x40, 0, 64, 17, c0, c1, s0, s1, s2, s3, d0, d1, d2, d3,
      a0, a1, b0, b1, l0, l1, 0, 0] @ payload"
    by (simp add: p ip_header_def udp_header_def s d c t l a b)
  have ne: "from_ne32 ne s0 s1 s2 s3 = src" "from_ne32 ne d0 d1 d2 d3 = dst"
    using from_to_ne32_nth [of ne src] from_to_ne32_nth [of ne dst]
    by (simp_all add: s d)
  note v = be16_value [OF t] be16_value [OF l] be16_value [OF a] be16_value [OF b]
  have ports: "as_u16 (256 * unat a0 + unat a1) = sp" "as_u16 (256 * unat b0 + unat b1) = dp"
    using v by (simp_all add: as_u16_def)
  have len: "256 * unat t0 + unat t1 = (28 + length payload) mod 65536"
    "256 * unat l0 + unat l1 = (8 + length payload) mod 65536"
    using v by (simp_all add: unat_as_u16)
  have bytes: "p ! 0 = 0x45" "p ! 9 = 17" "p ! 12 = s0" "p ! 13 = s1" "p ! 14 = s2" "p ! 15 = s3"
    "p ! 16 = d0" "p ! 17 = d1" "p ! 18 = d2" "p ! 19 = d3" "drop 28 p = payload"
    "length p = 28 + length payload"
    by (simp_all add: p')
  have groups: "group_at p 2 = (28 + length payload) mod 65536" "group_at p 6 = 0x4000"
    "group_at p 20 = 256 * unat a0 + unat a1" "group_at p 22 = 256 * unat b0 + unat b1"
    "group_at p 24 = (8 + length payload) mod 65536"
    by (simp_all add: group_at_def p' len)
  have "(28 + length payload) mod 65536 < 65536" by simp
  then have "(28 + length payload) mod 65536 = 28 + length payload \<longleftrightarrow> length payload \<le> 65507"
    by (cases "length payload \<le> 65507") (simp, linarith)
  then show ?thesis
    unfolding receive_udp_def bytes groups ports ne using built_header [OF assms] by auto
qed

section \<open>Properties\<close>

text \<open>C23: A packet that \<open>build_udp_packet\<close> makes is parsed back to its addresses, ports and payload, for
  every payload that fits the length field of UDP.\<close>

theorem udp_round_trip:
  assumes "length payload \<le> 65527" and "build_udp_packet ne src sp dst dp payload = Some p"
  shows "parse_udp_packet ne p = Some (Some (src, sp, dst, dp, payload))"
  using assms by (rule parse_build_udp_packet)

theorem udp_round_trip_witness:
  "\<exists>p. build_udp_packet Little 0x0100007F 53 0x0200007F 4000 [1, 2, 3] = Some p \<and>
       parse_udp_packet Little p = Some (Some (0x0100007F, 53, 0x0200007F, 4000, [1, 2, 3]))"
  using udp_round_trip [of "[1, 2, 3]" Little "0x0100007F" 53 "0x0200007F" 4000]
  by (auto simp: build_udp_packet_layout)

text \<open>C24: The header of a built packet passes the receiver's check (RFC 1071): its ten 16-bit groups,
  each the octet at an even position times 256 plus the next, add up to a multiple of 0xFFFF
  that is not 0.  The length of the packet is that of the payload and the two headers.\<close>

theorem built_header_verifies:
  assumes "build_udp_packet ne src sp dst dp payload = Some p"
  shows "(\<Sum>i<10. 256 * unat (p ! (2 * i)) + unat (p ! (2 * i + 1))) mod 65535 = 0 \<and>
    (\<Sum>i<10. 256 * unat (p ! (2 * i)) + unat (p ! (2 * i + 1))) \<noteq> 0 \<and>
    length p = 28 + length payload"
  using built_header [OF assms] build_udp_packet_length [OF assms]
  by (simp add: header_verifies_def group_at_def)

theorem built_header_verifies_witness:
  "\<exists>p. build_udp_packet Big 1 2 3 4 [5] = Some p \<and>
     (\<Sum>i<10. 256 * unat (p ! (2 * i)) + unat (p ! (2 * i + 1))) mod 65535 = 0 \<and> length p = 29"
proof -
  obtain p where p: "build_udp_packet Big 1 2 3 4 [5] = Some p"
    by (simp add: build_udp_packet_layout)
  with built_header_verifies [OF p] show ?thesis by simp
qed

end
