(* ===== verification/Async_Io.thy ===== *)
theory Async_Io
  imports Rust_Str
begin

text \<open>
  The traits the transports are written against, \<open>tokio::io::AsyncRead\<close> and
  \<open>AsyncWrite\<close>.  A type that implements them is a dictionary \<^verbatim>\<open>async_io\<close> of its
  methods over its state; a wrapper such as \<open>HttpObfs<S>\<close> takes the dictionary of \<open>S\<close>.  The contracts
  that the documentation of the traits gives are the locales \<open>async_read\<close>,
  \<open>async_write_live\<close>, \<open>async_write_sound\<close>, \<open>async_write\<close> and \<open>duplex\<close>; a socket driven by a script of events (the in-memory duplex of the
  repository's tests, with every short write, wait and failure) satisfies them.
\<close>

section \<open>Polls and errors\<close>

datatype 'a poll = Ready 'a | Pending

datatype io_kind = WriteZero | InvalidData | UnexpectedEof | OtherKind

datatype io_error = IoError io_kind rstr

type_synonym 'a io = "io_error + 'a"

text \<open>
  \<open>poll_read\<close> gets the room left in the caller's \<open>ReadBuf\<close> and returns the bytes put there;
  no bytes is the end of the stream.  \<^term>\<open>None\<close> is a \<open>poll_read\<close> that never returns: the
  framing readers loop until they have payload.
\<close>

record 's async_io =
  poll_read :: "'s \<Rightarrow> nat \<Rightarrow> (byte list io poll \<times> 's) option"
  poll_write :: "'s \<Rightarrow> byte list \<Rightarrow> nat io poll \<times> 's"
  poll_flush :: "'s \<Rightarrow> unit io poll \<times> 's"
  poll_shutdown :: "'s \<Rightarrow> unit io poll \<times> 's"

section \<open>Drivers\<close>

text \<open>
  A caller that polls for reading with buffers of the given sizes and keeps what it gets; it
  polls again after a wait and gives up at an error, which it returns.
\<close>

fun read_seq ::
  "'s async_io \<Rightarrow> 's \<Rightarrow> nat list \<Rightarrow> (byte list \<times> io_error option \<times> 's) option" where
  "read_seq S s [] = Some ([], None, s)"
| "read_seq S s (c # cs) =
     (case poll_read S s c of
        None \<Rightarrow> None
      | Some (Ready (Inr bs), s') \<Rightarrow>
          map_option (\<lambda>(r, e, t). (bs @ r, e, t)) (read_seq S s' cs)
      | Some (Pending, s') \<Rightarrow> read_seq S s' cs
      | Some (Ready (Inl e), s') \<Rightarrow> Some ([], Some e, s'))"

text \<open>
  A caller that reads to the end, as \<open>read_to_end\<close> does: it polls with room until a poll delivers
  nothing.  The list holds the room of its polls.
\<close>

fun read_to_end ::
  "'s async_io \<Rightarrow> 's \<Rightarrow> nat list \<Rightarrow> (byte list \<times> unit io poll \<times> 's) option" where
  "read_to_end S s [] = Some ([], Pending, s)"
| "read_to_end S s (c # cs) =
     (case poll_read S s c of
        None \<Rightarrow> None
      | Some (Ready (Inr bs), s') \<Rightarrow>
          if bs = [] then Some ([], Ready (Inr ()), s')
          else map_option (\<lambda>(r, e, t). (bs @ r, e, t)) (read_to_end S s' cs)
      | Some (Pending, s') \<Rightarrow> read_to_end S s' cs
      | Some (Ready (Inl e), s') \<Rightarrow> Some ([], Ready (Inl e), s'))"

text \<open>
  A caller that retries \<open>poll_write\<close> with the same buffer until it is ready, at most \<open>n\<close>
  times.
\<close>

fun write_retry :: "'s async_io \<Rightarrow> 's \<Rightarrow> byte list \<Rightarrow> nat \<Rightarrow> nat io poll \<times> 's" where
  "write_retry S s buf 0 = (Pending, s)"
| "write_retry S s buf (Suc n) =
     (case poll_write S s buf of
        (Pending, s') \<Rightarrow> write_retry S s' buf n
      | r \<Rightarrow> r)"

text \<open>
  A caller that writes a whole buffer, as \<open>write_all\<close> does, with at most \<open>n\<close> polls.
\<close>

fun write_all :: "'s async_io \<Rightarrow> 's \<Rightarrow> byte list \<Rightarrow> nat \<Rightarrow> unit io poll \<times> 's" where
  "write_all S s buf 0 = (if buf = [] then (Ready (Inr ()), s) else (Pending, s))"
| "write_all S s buf (Suc n) =
     (if buf = [] then (Ready (Inr ()), s)
      else case poll_write S s buf of
        (Pending, s') \<Rightarrow> write_all S s' buf n
      | (Ready (Inl e), s') \<Rightarrow> (Ready (Inl e), s')
      | (Ready (Inr k), s') \<Rightarrow>
          if k = 0 then (Ready (Inl (IoError WriteZero [])), s') else write_all S s' (drop k buf) n)"

section \<open>Contracts\<close>

text \<open>
  One poll of a reader.  \<open>avail s\<close> is what the reader still has to get: a poll returns, and
  delivers a prefix of it that fits into the buffer and leaves the rest.  \<open>idle s\<close> bounds the
  polls that make no progress: a wait lowers it, and a poll that delivers nothing into a
  buffer with room means the end of the stream; a reader that is not \<open>strict\<close> may also deliver
  nothing before the end, which lowers \<open>idle\<close>.  Only a \<open>faulty\<close> reader returns errors.  \<open>ok\<close> is the
  invariant of the reader's own state.
\<close>

definition read_good ::
  "bool \<Rightarrow> bool \<Rightarrow> ('s \<Rightarrow> byte list) \<Rightarrow> ('s \<Rightarrow> nat) \<Rightarrow> ('s \<Rightarrow> bool) \<Rightarrow> 's \<Rightarrow> nat \<Rightarrow>
   (byte list io poll \<times> 's) option \<Rightarrow> bool" where
  "read_good strict faulty avail idle ok s room res \<longleftrightarrow>
     (\<exists>r s'. res = Some (r, s') \<and> ok s' \<and>
        (case r of
           Pending \<Rightarrow> avail s' = avail s \<and> idle s' < idle s
         | Ready (Inl e) \<Rightarrow> faulty
         | Ready (Inr bs) \<Rightarrow>
             length bs \<le> room \<and> avail s = bs @ avail s' \<and> idle s' \<le> idle s \<and>
             (bs = [] \<and> 0 < room \<longrightarrow> avail s = [] \<or> \<not> strict \<and> idle s' < idle s)))"

lemma read_good_simps [simp]:
  "\<not> read_good strict faulty avail idle ok s room None"
  "read_good strict faulty avail idle ok s room (Some (Pending, s')) \<longleftrightarrow>
     ok s' \<and> avail s' = avail s \<and> idle s' < idle s"
  "read_good strict faulty avail idle ok s room (Some (Ready (Inl e), s')) \<longleftrightarrow> ok s' \<and> faulty"
  "read_good strict faulty avail idle ok s room (Some (Ready (Inr bs), s')) \<longleftrightarrow>
     ok s' \<and> length bs \<le> room \<and> avail s = bs @ avail s' \<and> idle s' \<le> idle s \<and>
     (bs = [] \<and> 0 < room \<longrightarrow> avail s = [] \<or> \<not> strict \<and> idle s' < idle s)"
  by (auto simp: read_good_def)

lemma read_good_mono:
  assumes "\<And>t. ok t \<Longrightarrow> ok' t" and "read_good strict faulty avail idle ok s room res"
  shows "read_good strict faulty avail idle ok' s room res"
  using assms by (auto simp: read_good_def)

text \<open>A turn of a loop that keeps what is available passes the law on.\<close>

lemma read_good_step:
  assumes "avail s1 = avail s" and "idle s1 \<le> idle s" and "read_good strict faulty avail idle ok s1 room res"
  shows "read_good strict faulty avail idle ok s room res"
proof (cases res)
  case (Some q)
  obtain r s' where q: "q = (r, s')" by (cases q)
  consider "r = Pending" | e where "r = Ready (Inl e)" | bs where "r = Ready (Inr bs)"
    by (metis poll.exhaust sum.exhaust)
  then show ?thesis
    using assms Some q by cases auto
qed (use assms(3) in simp)

locale async_read =
  fixes S :: "'s async_io" and avail :: "'s \<Rightarrow> byte list" and idle :: "'s \<Rightarrow> nat"
    and ok :: "'s \<Rightarrow> bool" and strict faulty :: bool
  assumes read_law: "ok s \<Longrightarrow> read_good strict faulty avail idle ok s cap (poll_read S s cap)"
begin

text \<open>The case analysis of one poll.\<close>

lemma read_cases:
  assumes "ok s"
  obtains (waits) s' where "poll_read S s c = Some (Pending, s')" "ok s'" "avail s' = avail s"
      "idle s' < idle s"
  | (fails) e s' where "poll_read S s c = Some (Ready (Inl e), s')" "ok s'" faulty
  | (got) bs s' where "poll_read S s c = Some (Ready (Inr bs), s')" "ok s'" "length bs \<le> c"
      "avail s = bs @ avail s'" "idle s' \<le> idle s"
      "bs = [] \<and> 0 < c \<longrightarrow> avail s = [] \<or> \<not> strict \<and> idle s' < idle s"
proof -
  obtain p s' where q: "poll_read S s c = Some (p, s')"
    using read_law [OF assms, of c] by (cases "poll_read S s c") auto
  consider "p = Pending" | e where "p = Ready (Inl e)" | bs where "p = Ready (Inr bs)"
    by (metis poll.exhaust sum.exhaust)
  then show ?thesis
    using read_law [OF assms, of c] q by cases (auto intro: waits fails got)
qed

lemma read_returns: "ok s \<Longrightarrow> \<exists>r. poll_read S s cap = Some r"
  using read_law [of s cap] by (cases "poll_read S s cap") auto

lemma read_ok: "ok s \<Longrightarrow> poll_read S s cap = Some (r, s') \<Longrightarrow> ok s'"
  using read_law [of s cap] by (simp add: read_good_def)

lemma read_ready:
  "ok s \<Longrightarrow> poll_read S s cap = Some (Ready (Inr bs), s') \<Longrightarrow>
   length bs \<le> cap \<and> avail s = bs @ avail s'"
  using read_law [of s cap] by simp

lemma read_pending: "ok s \<Longrightarrow> poll_read S s cap = Some (Pending, s') \<Longrightarrow> avail s' = avail s"
  using read_law [of s cap] by simp

text \<open>
  Whatever the sizes of the buffers, a sequence of polls returns, and the bytes come in order
  and none is made up.  With enough polls and room in every buffer, all of them come, unless
  the reader fails.
\<close>

lemma read_seq_good:
  "ok s \<Longrightarrow> \<exists>bs e s'. read_seq S s cs = Some (bs, e, s') \<and> (\<exists>rest. avail s = bs @ rest) \<and>
     (e = None \<or> faulty) \<and>
     (e = None \<and> list_all (\<lambda>c. 0 < c) cs \<and> length (avail s) + idle s \<le> length cs \<longrightarrow> bs = avail s)"
proof (induction cs arbitrary: s)
  case (Cons c cs)
  from Cons.prems show ?case
  proof (cases rule: read_cases [where c = c])
    case (waits s')
    from Cons.IH [OF waits(2)] obtain r e t where "read_seq S s' cs = Some (r, e, t)"
      "\<exists>rest. avail s = r @ rest" "e = None \<or> faulty"
      "e = None \<and> list_all (\<lambda>c. 0 < c) cs \<and> length (avail s) + idle s' \<le> length cs \<longrightarrow> r = avail s"
      using waits(3) by auto
    then show ?thesis using waits(1,4) by simp
  next
    case (got bs s')
    from Cons.IH [OF got(2)] obtain r e t where r: "read_seq S s' cs = Some (r, e, t)"
      "\<exists>rest. avail s' = r @ rest" "e = None \<or> faulty"
      "e = None \<and> list_all (\<lambda>c. 0 < c) cs \<and> length (avail s') + idle s' \<le> length cs \<longrightarrow> r = avail s'"
      by blast
    have less: "length (avail s') + idle s' < length (avail s) + idle s"
      if "0 < c" "avail s \<noteq> []"
    proof (cases "bs = []")
      case False
      then have "0 < length bs" by simp
      moreover have "length (avail s) = length bs + length (avail s')" using got(4) by simp
      ultimately show ?thesis using got(5) by linarith
    next
      case True
      with got(4) have "avail s' = avail s" by simp
      with that True got(6) show ?thesis by simp
    qed
    have all: "bs @ r = avail s"
      if c: "e = None" "0 < c" "list_all (\<lambda>c. 0 < c) cs" "length (avail s) + idle s \<le> Suc (length cs)"
    proof (cases "avail s = []")
      case True
      with got(4) r(2) show ?thesis by simp
    next
      case False
      from less [OF c(2) this] c(4) have "length (avail s') + idle s' \<le> length cs" by linarith
      with c r(4) have "r = avail s'" by blast
      with got(4) show ?thesis by simp
    qed
    have "\<exists>rest. avail s = (bs @ r) @ rest" using got(4) r(2) by auto
    moreover have "read_seq S s (c # cs) = Some (bs @ r, e, t)" using got(1) r(1) by simp
    ultimately show ?thesis using all r(3) by simp
  qed simp
qed simp

text \<open>Over a strict reader the end is the end: \<open>read_to_end\<close> gets everything, or the error.\<close>

lemma read_to_end_all:
  "strict \<Longrightarrow> ok s \<Longrightarrow> list_all (\<lambda>c. 0 < c) cs \<Longrightarrow> length (avail s) + idle s < length cs \<Longrightarrow>
   \<exists>bs r s'. read_to_end S s cs = Some (bs, Ready r, s') \<and> (\<exists>rest. avail s = bs @ rest) \<and>
     (r = Inr () \<longrightarrow> bs = avail s) \<and> (r = Inr () \<or> faulty)"
proof (induction cs arbitrary: s)
  case (Cons c cs)
  from Cons.prems(2) show ?case
  proof (cases rule: read_cases [where c = c])
    case (waits s')
    with Cons.IH [of s'] Cons.prems show ?thesis by auto
  next
    case (fails e s')
    then show ?thesis by simp
  next
    case (got bs s')
    show ?thesis
    proof (cases "bs = []")
      case True
      with got(6) Cons.prems(1,3) have "avail s = []" by simp
      with True got(1) show ?thesis by simp
    next
      case False
      then have "0 < length bs" by simp
      moreover have "length (avail s) = length bs + length (avail s')" using got(4) by simp
      moreover have "length (avail s) + idle s < Suc (length cs)" using Cons.prems(4) by simp
      ultimately have "length (avail s') + idle s' < length cs" using got(5) by linarith
      moreover have "list_all (\<lambda>c. 0 < c) cs" using Cons.prems(3) by simp
      ultimately obtain r q t where
        "read_to_end S s' cs = Some (r, Ready q, t)" "\<exists>rest. avail s' = r @ rest"
        "q = Inr () \<longrightarrow> r = avail s'" "q = Inr () \<or> faulty"
        using Cons.IH [OF Cons.prems(1) got(2)] by blast
      then show ?thesis using False got(1,4) by auto
    qed
  qed
qed simp

end

text \<open>
  A writer.  \<open>stalls s\<close> bounds the waits: each lowers it, so a caller that polls often enough
  gets an answer.
\<close>

locale async_write_live =
  fixes S :: "'s async_io" and stalls :: "'s \<Rightarrow> nat" and ok :: "'s \<Rightarrow> bool"
  assumes write_stall: "ok s \<Longrightarrow> poll_write S s buf = (Pending, s') \<Longrightarrow> stalls s' < stalls s"
    and write_moves: "ok s \<Longrightarrow> poll_write S s buf = (Ready r, s') \<Longrightarrow> stalls s' \<le> stalls s"
    and write_ok: "ok s \<Longrightarrow> ok (snd (poll_write S s buf))"
begin

lemma write_retry_returns:
  "ok s \<Longrightarrow> stalls s < k \<Longrightarrow> \<exists>r s'. write_retry S s buf k = (Ready r, s')"
proof (induction k arbitrary: s)
  case (Suc k)
  obtain p s1 where w: "poll_write S s buf = (p, s1)" by fastforce
  show ?case
  proof (cases p)
    case Pending
    then show ?thesis
      using Suc.IH [of s1] Suc.prems write_stall [of s buf s1] write_ok [of s buf] w by simp
  qed (use w in simp)
qed simp

lemma write_all_returns:
  "ok s \<Longrightarrow> stalls s + length buf \<le> k \<Longrightarrow>
   \<exists>r s'. write_all S s buf k = (Ready r, s') \<and> ok s' \<and> stalls s' \<le> stalls s"
proof (induction k arbitrary: s buf)
  case (Suc k)
  show ?case
  proof (cases "buf = []")
    case False
    obtain p s1 where w: "poll_write S s buf = (p, s1)" by fastforce
    have k: "ok s1" using write_ok [OF Suc.prems(1), of buf] w by simp
    consider "p = Pending" | e where "p = Ready (Inl e)" | "p = Ready (Inr 0)"
      | n where "p = Ready (Inr n)" "0 < n"
      by (metis poll.exhaust sum.exhaust gr0I)
    then show ?thesis
    proof cases
      case 1
      then have "stalls s1 < stalls s" using write_stall [OF Suc.prems(1)] w by simp
      with Suc.IH [OF k, of buf] Suc.prems(2) obtain r s' where
        "write_all S s1 buf k = (Ready r, s')" "ok s'" "stalls s' \<le> stalls s1" by auto
      then show ?thesis using 1 w False \<open>stalls s1 < stalls s\<close> by simp
    next
      case (4 n)
      have "stalls s1 \<le> stalls s" using write_moves [OF Suc.prems(1)] w 4 by simp
      moreover have "length (drop n buf) < length buf" using 4 False by simp
      ultimately have "stalls s1 + length (drop n buf) \<le> k" using Suc.prems(2) by linarith
      from Suc.IH [OF k this] \<open>stalls s1 \<le> stalls s\<close> show ?thesis using 4 w False by fastforce
    qed (use w False k write_moves [OF Suc.prems(1)] in simp_all)
  qed (use Suc.prems in simp)
qed simp

end

text \<open>
  A writer that returns errors, or takes nothing of a buffer with bytes, only when it is
  \<open>broken\<close>: over one that is not, a whole-buffer write succeeds.
\<close>

locale async_write_sound = async_write_live S stalls ok
  for S :: "'s async_io" and stalls :: "'s \<Rightarrow> nat" and ok :: "'s \<Rightarrow> bool" +
  fixes broken :: bool
  assumes write_fault: "ok s \<Longrightarrow> poll_write S s buf = (Ready (Inl e), s') \<Longrightarrow> broken"
    and write_takes: "ok s \<Longrightarrow> buf \<noteq> [] \<Longrightarrow> poll_write S s buf = (Ready (Inr 0), s') \<Longrightarrow> broken"
begin

lemma write_all_sound:
  "ok s \<Longrightarrow> write_all S s buf k = (Ready r, s') \<Longrightarrow> r = Inr () \<or> broken"
proof (induction k arbitrary: s buf)
  case 0
  then show ?case by (auto split: if_splits)
next
  case (Suc k)
  show ?case
  proof (cases "buf = []")
    case False
    obtain p s1 where w: "poll_write S s buf = (p, s1)" by fastforce
    have k: "ok s1" using write_ok [OF Suc.prems(1), of buf] w by simp
    consider "p = Pending" | e where "p = Ready (Inl e)" | "p = Ready (Inr 0)"
      | n where "p = Ready (Inr n)" "0 < n"
      by (metis poll.exhaust sum.exhaust gr0I)
    then show ?thesis
    proof cases
      case 1
      then show ?thesis using Suc.IH [OF k, of buf] Suc.prems(2) False w by simp
    next
      case (2 e)
      then show ?thesis using write_fault [OF Suc.prems(1)] w by blast
    next
      case 3
      then show ?thesis using write_takes [OF Suc.prems(1) False] w by blast
    next
      case (4 n)
      then show ?thesis using Suc.IH [OF k, of "drop n buf"] Suc.prems(2) False w by simp
    qed
  qed (use Suc.prems in simp)
qed

end

text \<open>\<open>sent s\<close> is what the transport has taken over: exactly the bytes it reports.\<close>

locale async_write = async_write_live S stalls ok
  for S :: "'s async_io" and stalls :: "'s \<Rightarrow> nat" and ok :: "'s \<Rightarrow> bool" +
  fixes sent :: "'s \<Rightarrow> byte list"
  assumes write_ready: "ok s \<Longrightarrow> poll_write S s buf = (Ready (Inr n), s') \<Longrightarrow>
      n \<le> length buf \<and> sent s' = sent s @ take n buf"
    and write_pending: "ok s \<Longrightarrow> poll_write S s buf = (Pending, s') \<Longrightarrow> sent s' = sent s"
    and write_error: "ok s \<Longrightarrow> poll_write S s buf = (Ready (Inl e), s') \<Longrightarrow> sent s' = sent s"
    and flush_sent: "ok s \<Longrightarrow> sent (snd (poll_flush S s)) = sent s"
    and shutdown_sent: "ok s \<Longrightarrow> sent (snd (poll_shutdown S s)) = sent s"
    and flush_ok: "ok s \<Longrightarrow> ok (snd (poll_flush S s))"
    and shutdown_ok: "ok s \<Longrightarrow> ok (snd (poll_shutdown S s))"

locale duplex = async_read S avail idle ok strict faulty + async_write S stalls ok sent
  for S :: "'s async_io" and avail :: "'s \<Rightarrow> byte list" and idle :: "'s \<Rightarrow> nat"
    and sent :: "'s \<Rightarrow> byte list" and stalls :: "'s \<Rightarrow> nat" and ok :: "'s \<Rightarrow> bool"
    and strict faulty :: bool +
  assumes read_sent: "ok s \<Longrightarrow> poll_read S s cap = Some (r, s') \<Longrightarrow> sent s' = sent s"
    and write_avail: "ok s \<Longrightarrow> avail (snd (poll_write S s buf)) = avail s"
    and flush_avail: "ok s \<Longrightarrow> avail (snd (poll_flush S s)) = avail s"
    and shutdown_avail: "ok s \<Longrightarrow> avail (snd (poll_shutdown S s)) = avail s"

section \<open>Draining a write buffer\<close>

text \<open>
  \<open>poll_drain_write_buf\<close>, the same method of \<open>HttpObfs\<close> and \<open>TlsObfs\<close>: the buffer and its
  offset are returned with the result.  It stops for every inner writer, because a write of
  no bytes is an error and any other moves the offset.
\<close>

definition write_zero :: io_error where
  "write_zero = IoError WriteZero (lit ''obfs: write zero'')"

function drain ::
  "'s async_io \<Rightarrow> 's \<Rightarrow> byte list \<Rightarrow> nat \<Rightarrow> unit io poll \<times> 's \<times> byte list \<times> nat" where
  "drain S s write_buf off =
     (if off < length write_buf then
        (case poll_write S s (drop off write_buf) of
           (Pending, s') \<Rightarrow> (Pending, s', write_buf, off)
         | (Ready (Inl e), s') \<Rightarrow> (Ready (Inl e), s', write_buf, off)
         | (Ready (Inr n), s') \<Rightarrow>
             if n = 0 then (Ready (Inl write_zero), s', write_buf, off)
             else drain S s' write_buf (off + n))
      else (Ready (Inr ()), s, [], 0))"
  by pat_completeness auto
termination
  by (relation "measure (\<lambda>(S, s, buf, off). length buf - off)") auto

declare drain.simps [simp del]

lemma drain_done: "\<not> off < length buf \<Longrightarrow> drain S s buf off = (Ready (Inr ()), s, [], 0)"
  by (simp add: drain.simps)

lemma drain_pending:
  "off < length buf \<Longrightarrow> poll_write S s (drop off buf) = (Pending, s') \<Longrightarrow>
   drain S s buf off = (Pending, s', buf, off)"
  by (simp add: drain.simps)

lemma drain_error:
  "off < length buf \<Longrightarrow> poll_write S s (drop off buf) = (Ready (Inl e), s') \<Longrightarrow>
   drain S s buf off = (Ready (Inl e), s', buf, off)"
  by (simp add: drain.simps)

lemma drain_zero:
  "off < length buf \<Longrightarrow> poll_write S s (drop off buf) = (Ready (Inr 0), s') \<Longrightarrow>
   drain S s buf off = (Ready (Inl write_zero), s', buf, off)"
  by (simp add: drain.simps)

lemma drain_more:
  "off < length buf \<Longrightarrow> poll_write S s (drop off buf) = (Ready (Inr n), s') \<Longrightarrow> 0 < n \<Longrightarrow>
   drain S s buf off = drain S s' buf (off + n)"
  by (simp add: drain.simps [of S s])

lemmas drain_steps = drain_done drain_pending drain_error drain_zero drain_more

text \<open>The case analysis of one turn.\<close>

lemma drain_cases:
  assumes "drain S s buf off = (r, s', buf', off')"
  obtains (full) "\<not> off < length buf" "r = Ready (Inr ())" "s' = s" "buf' = []" "off' = 0"
  | (waits) "off < length buf" "poll_write S s (drop off buf) = (Pending, s')"
      "r = Pending" "buf' = buf" "off' = off"
  | (fails) e where "off < length buf" "poll_write S s (drop off buf) = (Ready (Inl e), s')"
      "r = Ready (Inl e)" "buf' = buf" "off' = off"
  | (stuck) "off < length buf" "poll_write S s (drop off buf) = (Ready (Inr 0), s')"
      "r = Ready (Inl write_zero)" "buf' = buf" "off' = off"
  | (moves) n s1 where "off < length buf" "poll_write S s (drop off buf) = (Ready (Inr n), s1)"
      "0 < n" "drain S s1 buf (off + n) = (r, s', buf', off')"
proof (cases "off < length buf")
  case False
  with assms show ?thesis by (auto simp: drain_done intro: full)
next
  case True
  obtain p s1 where w: "poll_write S s (drop off buf) = (p, s1)" by fastforce
  consider "p = Pending" | e where "p = Ready (Inl e)" | "p = Ready (Inr 0)"
    | n where "p = Ready (Inr n)" "0 < n"
    by (metis poll.exhaust sum.exhaust gr0I)
  then show ?thesis
  proof cases
    case 1 with True w assms show ?thesis by (auto simp: drain_pending intro: waits)
  next
    case 2 with True w assms show ?thesis by (auto simp: drain_error intro: fails)
  next
    case 3 with True w assms show ?thesis by (auto simp: drain_zero intro: stuck)
  next
    case 4 with True w assms show ?thesis by (auto simp: drain_more intro: moves)
  qed
qed

text \<open>
  Bytes are conserved: what was sent and what is left to send together never change.  The
  buffer is empty exactly when the drain is complete.
\<close>

context async_write
begin

text \<open>
  However short the writes are, a whole-buffer write sends a part of the buffer once and in
  order, and all of it when it reports success.
\<close>

lemma write_all_conserves:
  "ok s \<Longrightarrow> write_all S s buf k = (r, s') \<Longrightarrow>
   ok s' \<and> (\<exists>n. sent s' = sent s @ take n buf) \<and>
   (r = Ready (Inr ()) \<longrightarrow> sent s' = sent s @ buf)"
proof (induction k arbitrary: s buf)
  case 0
  then have "s' = s" "r = Ready (Inr ()) \<longrightarrow> buf = []" by (auto split: if_splits)
  then show ?case using 0 by (auto intro: exI [of _ 0])
next
  case (Suc k)
  show ?case
  proof (cases "buf = []")
    case True
    then show ?thesis using Suc.prems by auto
  next
    case False
    obtain p s1 where w: "poll_write S s buf = (p, s1)" by fastforce
    have k1: "ok s1" using write_ok [OF Suc.prems(1), of buf] w by simp
    show ?thesis
    proof (cases p)
      case Pending
      then have "write_all S s1 buf k = (r, s')" using Suc.prems(2) False w by simp
      from Suc.IH [OF k1 this] show ?thesis
        using write_pending [OF Suc.prems(1)] w Pending k1 by auto
    next
      case (Ready x)
      show ?thesis
      proof (cases x)
        case (Inl e)
        then have "r = Ready (Inl e)" "s' = s1" using Suc.prems(2) False w Ready by auto
        then show ?thesis
          using write_error [OF Suc.prems(1)] w Ready Inl k1 by (auto intro: exI [of _ 0])
      next
        case (Inr n)
        have n: "n \<le> length buf" "sent s1 = sent s @ take n buf"
          using write_ready [OF Suc.prems(1)] w Ready Inr by auto
        show ?thesis
        proof (cases "n = 0")
          case True
          then have "s' = s1" "r \<noteq> Ready (Inr ())" using Suc.prems(2) False w Ready Inr by auto
          then show ?thesis using n k1 True by (auto intro: exI [of _ 0])
        next
          case False
          then have "write_all S s1 (drop n buf) k = (r, s')"
            using Suc.prems(2) \<open>buf \<noteq> []\<close> w Ready Inr by simp
          from Suc.IH [OF k1 this] obtain m where
            "ok s'" "sent s' = sent s1 @ take m (drop n buf)"
            "r = Ready (Inr ()) \<longrightarrow> sent s' = sent s1 @ drop n buf" by blast
          then show ?thesis
            using n k1 by (auto intro: exI [of _ "n + m"] simp: take_add)
        qed
      qed
    qed
  qed
qed

lemma drain_conserves:
  "drain S s buf off = (r, s', buf', off') \<Longrightarrow> ok s \<Longrightarrow> off \<le> length buf \<Longrightarrow>
   ok s' \<and> sent s' @ drop off' buf' = sent s @ drop off buf \<and> off' \<le> length buf' \<and>
   (if r = Ready (Inr ()) then buf' = [] \<and> off' = 0 else buf' = buf \<and> off' < length buf)"
proof (induction "length buf - off" arbitrary: s off rule: less_induct)
  case less
  have ok': "ok s'' " if "poll_write S s (drop off buf) = (p, s'')" for p s''
    using write_ok [OF less.prems(2), of "drop off buf"] that by simp
  from less.prems(1) show ?case
  proof (cases rule: drain_cases)
    case waits
    then show ?thesis using less.prems(2) ok' by (auto dest: write_pending)
  next
    case (fails e)
    then show ?thesis using less.prems(2) ok' by (auto dest: write_error)
  next
    case stuck
    then show ?thesis using less.prems(2) ok' by (auto simp: write_zero_def dest: write_ready)
  next
    case (moves n s1)
    have n: "n \<le> length buf - off" "sent s1 = sent s @ take n (drop off buf)"
      using write_ready [OF less.prems(2) moves(2)] by auto
    have "drop (off + n) buf = drop n (drop off buf)" by (simp add: add.commute)
    then have "sent s1 @ drop (off + n) buf = sent s @ drop off buf"
      using n(2) by (metis append.assoc append_take_drop_id)
    then show ?thesis
      using less.hyps [OF _ moves(4) ok' [OF moves(2)]] moves(1,3) n(1) by auto
  qed (use less.prems in auto)
qed

end

text \<open>A drain waits only when the transport does.\<close>

context async_write_live
begin

lemma drain_stalls:
  "drain S s buf off = (r, s', buf', off') \<Longrightarrow> ok s \<Longrightarrow>
   ok s' \<and> stalls s' \<le> stalls s \<and> (r = Pending \<longrightarrow> stalls s' < stalls s)"
proof (induction "length buf - off" arbitrary: s off rule: less_induct)
  case less
  have ok': "ok s'' " if "poll_write S s (drop off buf) = (p, s'')" for p s''
    using write_ok [OF less.prems(2), of "drop off buf"] that by simp
  from less.prems(1) show ?case
  proof (cases rule: drain_cases)
    case waits
    then show ?thesis using write_stall [OF less.prems(2)] ok' by fastforce
  next
    case (moves n s1)
    then show ?thesis
      using less.hyps [OF _ moves(4) ok' [OF moves(2)]] write_moves [OF less.prems(2) moves(2)]
      by fastforce
  qed (use less.prems write_moves [OF less.prems(2)] ok' in auto)
qed

end

text \<open>Whatever the transport does, a drain leaves its buffer as it is or empties it.\<close>

lemma drain_buf:
  "drain S s buf off = (r, s', buf', off') \<Longrightarrow> buf' = (if r = Ready (Inr ()) then [] else buf)"
proof (induction "length buf - off" arbitrary: s off rule: less_induct)
  case less
  from less.prems(1) show ?case
  proof (cases rule: drain_cases)
    case (moves n s1)
    then show ?thesis using less.hyps [OF _ moves(4)] by simp
  qed simp_all
qed

text \<open>A drain fails only when the transport is broken.\<close>

context async_write_sound
begin

lemma drain_sound:
  "drain S s buf off = (Ready (Inl e), s', buf', off') \<Longrightarrow> ok s \<Longrightarrow> broken"
proof (induction "length buf - off" arbitrary: s off rule: less_induct)
  case less
  from less.prems(1) show ?case
  proof (cases rule: drain_cases)
    case (fails e)
    then show ?thesis using write_fault [OF less.prems(2)] by blast
  next
    case stuck
    then have "drop off buf \<noteq> []" by simp
    then show ?thesis using stuck(2) by (rule write_takes [OF less.prems(2)])
  next
    case (moves n s1)
    have "ok s1" using write_ok [OF less.prems(2), of "drop off buf"] moves(2) by simp
    then show ?thesis using less.hyps [OF _ moves(4)] moves(1,3) by simp
  qed simp_all
qed

end

text \<open>What no write changes, a drain does not change.\<close>

lemma drain_frame:
  assumes f: "\<And>s buf. f (snd (poll_write S s buf)) = f s"
  shows "drain S s buf off = (r, s', buf', off') \<Longrightarrow> f s' = f s"
proof (induction "length buf - off" arbitrary: s off rule: less_induct)
  case less
  from less.prems(1) show ?case
  proof (cases rule: drain_cases)
    case (moves n s1)
    then have "f s' = f s1" by (intro less.hyps [OF _ moves(4)]) simp
    then show ?thesis using f [of s "drop off buf"] moves(2) by simp
  qed (use f [of s "drop off buf"] in auto)
qed

section \<open>A scripted socket\<close>

datatype read_event = Recv "byte list" | RPending | RFail io_error

datatype write_event = Accept nat | WPending | WFail io_error

record sock =
  rx :: "read_event list"
  wscript :: "write_event list"
  tx :: "byte list"
  closed :: bool

text \<open>
  The next read event: received bytes are delivered as far as they fit.  After the script
  the peer has closed its side.  A write follows its script and then accepts everything.
\<close>

fun sock_poll_read :: "sock \<Rightarrow> nat \<Rightarrow> (byte list io poll \<times> sock) option" where
  "sock_poll_read s cap =
     (case rx s of
        [] \<Rightarrow> Some (Ready (Inr []), s)
      | Recv bs # evs \<Rightarrow>
          if length bs \<le> cap then Some (Ready (Inr bs), s\<lparr>rx := evs\<rparr>)
          else Some (Ready (Inr (take cap bs)), s\<lparr>rx := Recv (drop cap bs) # evs\<rparr>)
      | RPending # evs \<Rightarrow> Some (Pending, s\<lparr>rx := evs\<rparr>)
      | RFail e # evs \<Rightarrow> Some (Ready (Inl e), s\<lparr>rx := evs\<rparr>))"

fun sock_poll_write :: "sock \<Rightarrow> byte list \<Rightarrow> nat io poll \<times> sock" where
  "sock_poll_write s buf =
     (case wscript s of
        [] \<Rightarrow> (Ready (Inr (length buf)), s\<lparr>tx := tx s @ buf\<rparr>)
      | Accept n # evs \<Rightarrow>
          (Ready (Inr (min n (length buf))), s\<lparr>wscript := evs, tx := tx s @ take n buf\<rparr>)
      | WPending # evs \<Rightarrow> (Pending, s\<lparr>wscript := evs\<rparr>)
      | WFail e # evs \<Rightarrow> (Ready (Inl e), s\<lparr>wscript := evs\<rparr>))"

definition sock_io :: "sock async_io" where
  "sock_io = \<lparr>poll_read = sock_poll_read, poll_write = sock_poll_write,
              poll_flush = (\<lambda>s. (Ready (Inr ()), s)),
              poll_shutdown = (\<lambda>s. (Ready (Inr ()), s\<lparr>closed := True\<rparr>))\<rparr>"

fun event_bytes :: "read_event \<Rightarrow> byte list" where
  "event_bytes (Recv bs) = bs"
| "event_bytes _ = []"

definition sock_avail :: "sock \<Rightarrow> byte list" where
  "sock_avail s = concat (map event_bytes (rx s))"

text \<open>The events that deliver nothing, and those that take nothing.\<close>

definition sock_idle :: "sock \<Rightarrow> nat" where
  "sock_idle s = length (filter (\<lambda>ev. event_bytes ev = []) (rx s))"

definition sock_stalls :: "sock \<Rightarrow> nat" where
  "sock_stalls s = length (filter (\<lambda>ev. ev = WPending) (wscript s))"

lemma sock_read_good: "read_good False True sock_avail sock_idle (\<lambda>_. True) s cap (sock_poll_read s cap)"
proof (cases "rx s")
  case Nil
  then show ?thesis by (simp add: sock_avail_def)
next
  case (Cons ev evs)
  show ?thesis
  proof (cases ev)
    case (Recv bs)
    then show ?thesis
      using Cons by (cases "length bs \<le> cap") (auto simp: sock_avail_def sock_idle_def)
  qed (use Cons in \<open>simp_all add: sock_avail_def sock_idle_def\<close>)
qed

lemma sock_write_cases:
  "sock_poll_write s buf = (r, s') \<Longrightarrow>
   rx s' = rx s \<and>
   (case r of
      Pending \<Rightarrow> tx s' = tx s \<and> sock_stalls s' < sock_stalls s
    | Ready (Inl e) \<Rightarrow> tx s' = tx s \<and> sock_stalls s' = sock_stalls s
    | Ready (Inr n) \<Rightarrow> n \<le> length buf \<and> tx s' = tx s @ take n buf \<and> sock_stalls s' = sock_stalls s)"
  by (auto simp: sock_stalls_def min_def split: list.splits write_event.splits)

interpretation sock: duplex sock_io sock_avail sock_idle tx sock_stalls "\<lambda>_. True" False True
proof unfold_locales
  fix s cap
  show "read_good False True sock_avail sock_idle (\<lambda>_. True) s cap (poll_read sock_io s cap)"
    using sock_read_good by (simp add: sock_io_def)
next
  fix s s' buf r n e
  show "poll_write sock_io s buf = (Pending, s') \<Longrightarrow> sock_stalls s' < sock_stalls s"
    and "poll_write sock_io s buf = (Pending, s') \<Longrightarrow> tx s' = tx s"
    and "poll_write sock_io s buf = (Ready (Inl e), s') \<Longrightarrow> tx s' = tx s"
    and "poll_write sock_io s buf = (Ready (Inr n), s') \<Longrightarrow>
        n \<le> length buf \<and> tx s' = tx s @ take n buf"
    using sock_write_cases by (fastforce simp: sock_io_def)+
  show "poll_write sock_io s buf = (Ready r, s') \<Longrightarrow> sock_stalls s' \<le> sock_stalls s"
    using sock_write_cases [of s buf "Ready r" s'] by (auto simp: sock_io_def split: sum.splits)
next
  fix s s' cap r
  show "poll_read sock_io s cap = Some (r, s') \<Longrightarrow> tx s' = tx s"
    by (auto simp: sock_io_def split: list.splits read_event.splits if_splits)
next
  fix s buf
  obtain r s' where "sock_poll_write s buf = (r, s')" by fastforce
  with sock_write_cases [OF this]
  show "sock_avail (snd (poll_write sock_io s buf)) = sock_avail s"
    by (simp add: sock_io_def sock_avail_def)
qed (simp_all add: sock_io_def sock_avail_def)

text \<open>Without failures and events that deliver nothing, the socket is a strict reader that never fails.\<close>

definition sock_solid :: "sock \<Rightarrow> bool" where
  "sock_solid s \<longleftrightarrow> list_all (\<lambda>ev. ev \<noteq> Recv [] \<and> (\<forall>e. ev \<noteq> RFail e)) (rx s)"

interpretation sock_end: async_read sock_io sock_avail sock_idle sock_solid True False
proof unfold_locales
  fix s cap assume "sock_solid s"
  then show "read_good True False sock_avail sock_idle sock_solid s cap (poll_read sock_io s cap)"
  proof (cases "rx s")
    case (Cons ev evs)
    with \<open>sock_solid s\<close> show ?thesis
      by (cases ev) (auto simp: sock_io_def sock_solid_def sock_avail_def sock_idle_def)
  qed (simp add: sock_io_def sock_solid_def sock_avail_def)
qed

text \<open>A script that neither fails nor takes nothing makes a writer that is not broken.\<close>

definition sock_steady :: "sock \<Rightarrow> bool" where
  "sock_steady s \<longleftrightarrow> list_all (\<lambda>ev. ev \<noteq> Accept 0 \<and> (\<forall>e. ev \<noteq> WFail e)) (wscript s)"

lemma sock_write_steady:
  assumes "sock_steady s" and "sock_poll_write s buf = (r, s')"
  shows "sock_steady s'" and "r \<noteq> Ready (Inl e)" and "buf \<noteq> [] \<Longrightarrow> r \<noteq> Ready (Inr 0)"
  using assms by (auto simp: sock_steady_def min_def split: list.splits write_event.splits if_splits)

interpretation sock_sound: async_write_sound sock_io sock_stalls sock_steady False
proof unfold_locales
  fix s s' buf r e assume k: "sock_steady s"
  show "poll_write sock_io s buf = (Pending, s') \<Longrightarrow> sock_stalls s' < sock_stalls s"
    and "poll_write sock_io s buf = (Ready r, s') \<Longrightarrow> sock_stalls s' \<le> sock_stalls s"
    by (rule sock.write_stall [OF TrueI], assumption) (rule sock.write_moves [OF TrueI], assumption)
  show "poll_write sock_io s buf = (Ready (Inl e), s') \<Longrightarrow> False"
    and "buf \<noteq> [] \<Longrightarrow> poll_write sock_io s buf = (Ready (Inr 0), s') \<Longrightarrow> False"
    using sock_write_steady(2,3) [OF k, of buf] by (auto simp: sock_io_def simp del: sock_poll_write.simps)
  show "sock_steady (snd (poll_write sock_io s buf))"
    using sock_write_steady(1) [OF k, of buf]
    by (cases "sock_poll_write s buf") (simp add: sock_io_def del: sock_poll_write.simps)
qed

interpretation sock_steady: async_write sock_io sock_stalls sock_steady tx
proof unfold_locales
  fix s s' buf n e
  show "poll_write sock_io s buf = (Ready (Inr n), s') \<Longrightarrow> n \<le> length buf \<and> tx s' = tx s @ take n buf"
    and "poll_write sock_io s buf = (Pending, s') \<Longrightarrow> tx s' = tx s"
    and "poll_write sock_io s buf = (Ready (Inl e), s') \<Longrightarrow> tx s' = tx s"
    using sock.write_ready sock.write_pending sock.write_error by simp_all
qed (simp_all add: sock_io_def sock_steady_def)

section \<open>Properties\<close>

text \<open>C11: Draining a write buffer over any transport loses and repeats nothing: the bytes the transport
  has taken and the bytes left in the buffer together stay the same through short writes,
  waits and errors, and the buffer is reset exactly when the drain reports completion.\<close>

theorem drain_keeps_bytes:
  assumes "async_write S stalls ok sent" and "drain S s buf off = (r, s', buf', off')"
    and "ok s" and "off \<le> length buf"
  shows "ok s' \<and> sent s' @ drop off' buf' = sent s @ drop off buf \<and>
    (if r = Ready (Inr ()) then buf' = [] \<and> off' = 0 else buf' = buf \<and> off' < length buf)"
  using async_write.drain_conserves [OF assms(1) assms(2-4)] by blast

theorem drain_keeps_bytes_witness:
  "\<exists>s' off'. drain sock_io \<lparr>rx = [], wscript = [Accept 2, WPending], tx = [], closed = False\<rparr>
       [1, 2, 3] 0 = (Pending, s', [1, 2, 3], off') \<and> tx s' @ drop off' [1, 2, 3] = [1, 2, 3]"
proof -
  let ?s = "\<lparr>rx = [], wscript = [Accept 2, WPending], tx = [], closed = False\<rparr>"
  have d: "drain sock_io ?s [1, 2, 3] 0 =
      (Pending, \<lparr>rx = [], wscript = [], tx = [1, 2], closed = False\<rparr>, [1, 2, 3], 2)"
    by (simp add: drain.simps sock_io_def)
  from drain_keeps_bytes [OF sock.async_write_axioms d] show ?thesis using d by simp
qed

end
