(* ===== verification/Conn.thy ===== *)
theory Conn
  imports Async_Io
begin

text \<open>
  Whole-buffer operations of a connection, as \<open>write_all\<close> and \<open>read_exact\<close> of
  \<open>AsyncWriteExt\<close> and \<open>AsyncReadExt\<close> give them: the interface \<open>exact_stream\<close> the SOCKS5
  client is written against.  They are built here from the polls of any transport of
  \<open>Async_Io\<close> by a caller that polls at most \<open>k\<close> times; a transport that keeps the caller
  waiting longer is the result \<^term>\<open>None\<close>, an await that does not end.
\<close>

section \<open>Actions on a connection\<close>

type_synonym ('s, 'a) act = "'s \<Rightarrow> ('a io \<times> 's) option"

definition io_bind :: "('s, 'a) act \<Rightarrow> ('a \<Rightarrow> ('s, 'b) act) \<Rightarrow> ('s, 'b) act" where
  "io_bind m f s =
     (case m s of
        None \<Rightarrow> None
      | Some (Inl e, s') \<Rightarrow> Some (Inl e, s')
      | Some (Inr x, s') \<Rightarrow> f x s')"

definition io_return :: "'a \<Rightarrow> ('s, 'a) act" where
  "io_return x s = Some (Inr x, s)"

definition io_fail :: "io_error \<Rightarrow> ('s, 'a) act" where
  "io_fail e s = Some (Inl e, s)"

record 's conn =
  send_all :: "byte list \<Rightarrow> ('s, unit) act"
  recv_exact :: "nat \<Rightarrow> ('s, byte list) act"

text \<open>The three ways an action composed with \<^const>\<open>io_bind\<close> ends.\<close>

lemma io_bind_ok:
  "io_bind m f s = Some (Inr y, s'') \<longleftrightarrow>
   (\<exists>x s'. m s = Some (Inr x, s') \<and> f x s' = Some (Inr y, s''))"
  by (auto simp: io_bind_def split: option.splits sum.splits)

lemma io_bind_err:
  "io_bind m f s = Some (Inl e, s'') \<longleftrightarrow>
   m s = Some (Inl e, s'') \<or> (\<exists>x s'. m s = Some (Inr x, s') \<and> f x s' = Some (Inl e, s''))"
  by (auto simp: io_bind_def split: option.splits sum.splits)

lemma io_bind_step: "m s = Some (Inr x, s') \<Longrightarrow> io_bind m f s = f x s'"
  by (simp add: io_bind_def)

section \<open>The contract\<close>

text \<open>
  \<open>recv s\<close> is what the peer's side still delivers, \<open>sent s\<close> what it has been sent.  A failed
  write may have sent a part, a failed read may have consumed a part.
\<close>

locale exact_stream =
  fixes C :: "'s conn" and recv :: "'s \<Rightarrow> byte list" and sent :: "'s \<Rightarrow> byte list"
    and ok :: "'s \<Rightarrow> bool"
  assumes send_ok: "ok s \<Longrightarrow> send_all C bs s = Some (Inr u, s') \<Longrightarrow>
      ok s' \<and> sent s' = sent s @ bs \<and> recv s' = recv s"
    and send_err: "ok s \<Longrightarrow> send_all C bs s = Some (Inl e, s') \<Longrightarrow>
      ok s' \<and> (\<exists>n. sent s' = sent s @ take n bs) \<and> recv s' = recv s"
    and recv_ok: "ok s \<Longrightarrow> recv_exact C n s = Some (Inr bs, s') \<Longrightarrow>
      ok s' \<and> length bs = n \<and> recv s = bs @ recv s' \<and> sent s' = sent s"
    and recv_err: "ok s \<Longrightarrow> recv_exact C n s = Some (Inl e, s') \<Longrightarrow> ok s' \<and> sent s' = sent s"

section \<open>Connections over a transport\<close>

fun read_exact :: "'s async_io \<Rightarrow> 's \<Rightarrow> nat \<Rightarrow> nat \<Rightarrow> byte list io poll \<times> 's" where
  "read_exact S s n 0 = (if n = 0 then (Ready (Inr []), s) else (Pending, s))"
| "read_exact S s n (Suc k) =
     (if n = 0 then (Ready (Inr []), s)
      else case poll_read S s n of
        None \<Rightarrow> (Pending, s)
      | Some (Pending, s') \<Rightarrow> read_exact S s' n k
      | Some (Ready (Inl e), s') \<Rightarrow> (Ready (Inl e), s')
      | Some (Ready (Inr bs), s') \<Rightarrow>
          if bs = [] then (Ready (Inl (IoError UnexpectedEof (lit ''early eof''))), s')
          else (case read_exact S s' (n - length bs) k of
             (Ready (Inr r), t) \<Rightarrow> (Ready (Inr (bs @ r)), t)
           | q \<Rightarrow> q))"

fun awaited :: "'a io poll \<times> 's \<Rightarrow> ('a io \<times> 's) option" where
  "awaited (Pending, s) = None"
| "awaited (Ready r, s) = Some (r, s)"

definition conn_of :: "'s async_io \<Rightarrow> nat \<Rightarrow> 's conn" where
  "conn_of S k = \<lparr>send_all = \<lambda>bs s. awaited (write_all S s bs k),
                  recv_exact = \<lambda>n s. awaited (read_exact S s n k)\<rparr>"

lemma conn_of_sel [simp]:
  "send_all (conn_of S k) bs s = awaited (write_all S s bs k)"
  "recv_exact (conn_of S k) n s = awaited (read_exact S s n k)"
  by (simp_all add: conn_of_def)

lemma awaited_Some: "awaited q = Some (r, s) \<longleftrightarrow> q = (Ready r, s)"
  by (cases q rule: awaited.cases) auto

context duplex
begin

lemma write_all_avail:
  "ok s \<Longrightarrow> avail (snd (write_all S s buf k)) = avail s"
proof (induction k arbitrary: s buf)
  case (Suc k)
  obtain p s1 where w: "poll_write S s buf = (p, s1)" by fastforce
  have "ok s1" "avail s1 = avail s"
    using write_ok [OF Suc.prems, of buf] write_avail [OF Suc.prems, of buf] w by simp_all
  then show ?case using Suc.IH w by (auto split: poll.splits sum.splits)
qed simp

lemma read_exact_conserves:
  "ok s \<Longrightarrow> read_exact S s n k = (r, s') \<Longrightarrow>
   ok s' \<and> sent s' = sent s \<and>
   (\<forall>bs. r = Ready (Inr bs) \<longrightarrow> length bs = n \<and> avail s = bs @ avail s')"
proof (induction k arbitrary: s n r s')
  case 0
  then show ?case by (auto split: if_splits)
next
  case (Suc k)
  show ?case
  proof (cases "n = 0")
    case True
    then show ?thesis using Suc.prems by auto
  next
    case False
    obtain p s1 where q: "poll_read S s n = Some (p, s1)"
      using read_returns [OF Suc.prems(1), of n] by auto
    note k1 = read_ok [OF Suc.prems(1) q] read_sent [OF Suc.prems(1) q]
    show ?thesis
    proof (cases p)
      case Pending
      then have "read_exact S s1 n k = (r, s')" using Suc.prems(2) False q by simp
      from Suc.IH [OF k1(1) this] show ?thesis
        using k1(2) read_pending [OF Suc.prems(1)] q Pending by auto
    next
      case (Ready x)
      show ?thesis
      proof (cases x)
        case (Inl e)
        then have "r = Ready (Inl e)" "s' = s1" using Suc.prems(2) False q Ready by auto
        then show ?thesis using k1 by simp
      next
        case (Inr bs)
        have b: "length bs \<le> n" "avail s = bs @ avail s1"
          using read_ready [OF Suc.prems(1)] q Ready Inr by auto
        show ?thesis
        proof (cases "bs = []")
          case True
          then have "s' = s1" "\<forall>bs. r \<noteq> Ready (Inr bs)" using Suc.prems(2) False q Ready Inr by auto
          then show ?thesis using k1 by simp
        next
          case ne: False
          obtain r1 t where m: "read_exact S s1 (n - length bs) k = (r1, t)" by fastforce
          have "s' = t" and "\<forall>w. r = Ready (Inr w) \<longrightarrow> (\<exists>v. r1 = Ready (Inr v) \<and> w = bs @ v)"
            using Suc.prems(2) False q Ready Inr ne m by (auto split: poll.splits sum.splits)
          with Suc.IH [OF k1(1) m] show ?thesis using b k1(2) by auto
        qed
      qed
    qed
  qed
qed

text \<open>Whoever has a transport has its whole-buffer operations.\<close>

lemma conn_exact: "exact_stream (conn_of S k) avail sent ok"
proof unfold_locales
  fix s bs u s'
  assume "ok s" "send_all (conn_of S k) bs s = Some (Inr u, s')"
  with write_all_conserves [of s bs k "Ready (Inr u)" s'] write_all_avail [of s bs k]
  show "ok s' \<and> sent s' = sent s @ bs \<and> avail s' = avail s" by (simp add: awaited_Some)
next
  fix s bs e s'
  assume "ok s" "send_all (conn_of S k) bs s = Some (Inl e, s')"
  with write_all_conserves [of s bs k "Ready (Inl e)" s'] write_all_avail [of s bs k]
  show "ok s' \<and> (\<exists>n. sent s' = sent s @ take n bs) \<and> avail s' = avail s" by (simp add: awaited_Some)
next
  fix s n bs s'
  assume "ok s" "recv_exact (conn_of S k) n s = Some (Inr bs, s')"
  with read_exact_conserves [of s n k "Ready (Inr bs)" s']
  show "ok s' \<and> length bs = n \<and> avail s = bs @ avail s' \<and> sent s' = sent s"
    by (simp add: awaited_Some)
next
  fix s n e s'
  assume "ok s" "recv_exact (conn_of S k) n s = Some (Inl e, s')"
  with read_exact_conserves [of s n k "Ready (Inl e)" s']
  show "ok s' \<and> sent s' = sent s" by (simp add: awaited_Some)
qed

end

interpretation sock_conn: exact_stream "conn_of sock_io k" sock_avail tx "\<lambda>_. True" for k
  by (rule sock.conn_exact)

section \<open>A socket that keeps answering\<close>

text \<open>
  A script without failures, in which every write makes progress and every delivery has
  bytes: the network delays and fragments, and does not break.
\<close>

definition script_alive :: "sock \<Rightarrow> bool" where
  "script_alive s \<longleftrightarrow>
     list_all (\<lambda>ev. case ev of RFail e \<Rightarrow> False | Recv bs \<Rightarrow> bs \<noteq> [] | RPending \<Rightarrow> True) (rx s) \<and>
     list_all (\<lambda>ev. case ev of WFail e \<Rightarrow> False | Accept n \<Rightarrow> 0 < n | WPending \<Rightarrow> True) (wscript s)"

lemma sock_send_alive:
  "script_alive s \<Longrightarrow> length (wscript s) < k \<Longrightarrow>
   \<exists>s'. write_all sock_io s bs k = (Ready (Inr ()), s') \<and> script_alive s' \<and> rx s' = rx s \<and>
        length (wscript s') \<le> length (wscript s)"
proof (induction k arbitrary: s bs)
  case (Suc k)
  show ?case
  proof (cases "bs = []")
    case False
    show ?thesis
    proof (cases "wscript s")
      case Nil
      then have "poll_write sock_io s bs = (Ready (Inr (length bs)), s\<lparr>tx := tx s @ bs\<rparr>)"
        by (simp add: sock_io_def)
      then show ?thesis
        using Suc.prems False by (cases k) (simp_all add: script_alive_def)
    next
      case (Cons ev evs)
      show ?thesis
      proof (cases ev)
        case (Accept n)
        let ?s = "s\<lparr>wscript := evs, tx := tx s @ take n bs\<rparr>"
        have "poll_write sock_io s bs = (Ready (Inr (min n (length bs))), ?s)"
          using Cons Accept by (simp add: sock_io_def)
        moreover have "0 < n" "script_alive ?s" "length (wscript ?s) < k"
          using Suc.prems Cons Accept by (simp_all add: script_alive_def)
        ultimately show ?thesis
          using Suc.IH [of ?s "drop (min n (length bs)) bs"] False Cons
          by (auto split: nat.splits)
      next
        case WPending
        let ?s = "s\<lparr>wscript := evs\<rparr>"
        have "poll_write sock_io s bs = (Pending, ?s)" using Cons WPending by (simp add: sock_io_def)
        moreover have "script_alive ?s" "length (wscript ?s) < k"
          using Suc.prems Cons WPending by (simp_all add: script_alive_def)
        ultimately show ?thesis using Suc.IH [of ?s bs] False Cons by auto
      next
        case (WFail e)
        then show ?thesis using Suc.prems Cons by (simp add: script_alive_def)
      qed
    qed
  qed (use Suc.prems in simp)
qed simp

lemma sock_recv_alive:
  "script_alive s \<Longrightarrow> length (rx s) < k \<Longrightarrow> n \<le> length (sock_avail s) \<Longrightarrow>
   \<exists>s' bs. read_exact sock_io s n k = (Ready (Inr bs), s') \<and> script_alive s' \<and>
     wscript s' = wscript s \<and> length (rx s') \<le> length (rx s)"
proof (induction k arbitrary: s n)
  case (Suc k)
  show ?case
  proof (cases "n = 0")
    case False
    show ?thesis
    proof (cases "rx s")
      case Nil
      then show ?thesis using Suc.prems False by (simp add: sock_avail_def)
    next
      case (Cons ev evs)
      show ?thesis
      proof (cases ev)
        case (Recv bs)
        have ne: "bs \<noteq> []" using Suc.prems Cons Recv by (simp add: script_alive_def)
        show ?thesis
        proof (cases "length bs \<le> n")
          case True
          let ?s = "s\<lparr>rx := evs\<rparr>"
          have "poll_read sock_io s n = Some (Ready (Inr bs), ?s)"
            using Cons Recv True by (simp add: sock_io_def)
          moreover have "script_alive ?s" "length (rx ?s) < k" "n - length bs \<le> length (sock_avail ?s)"
            using Suc.prems Cons Recv by (simp_all add: script_alive_def sock_avail_def)
          ultimately show ?thesis
            using Suc.IH [of ?s "n - length bs"] False Cons ne by auto
        next
          case big: False
          let ?s = "s\<lparr>rx := Recv (drop n bs) # evs\<rparr>"
          have "poll_read sock_io s n = Some (Ready (Inr (take n bs)), ?s)"
            using Cons Recv big by (simp add: sock_io_def)
          then show ?thesis
            using Suc.prems Cons Recv big False ne
            by (cases k) (auto simp: script_alive_def)
        qed
      next
        case RPending
        let ?s = "s\<lparr>rx := evs\<rparr>"
        have "poll_read sock_io s n = Some (Pending, ?s)" using Cons RPending by (simp add: sock_io_def)
        moreover have "script_alive ?s" "length (rx ?s) < k" "n \<le> length (sock_avail ?s)"
          using Suc.prems Cons RPending by (simp_all add: script_alive_def sock_avail_def)
        ultimately show ?thesis using Suc.IH [of ?s n] False Cons by auto
      next
        case (RFail e)
        then show ?thesis using Suc.prems Cons by (simp add: script_alive_def)
      qed
    qed
  qed (use Suc.prems in simp)
qed simp

end
