(* ===== verification/Socks5.thy ===== *)
theory Socks5
  imports Conn Dns_Wire
begin

text \<open>
  The SOCKS5 client of \<open>mihomo-android-ffi/src/tun2socks.rs\<close>: \<open>SocksTarget\<close> and
  \<open>socks5_connect\<close>, over any connection (\<^verbatim>\<open>conn\<close>), with the grammar of the requests and
  replies (RFC 1928) as the specification.  \<^term>\<open>None\<close> is an await that does not end: the
  client sets no timeout.
\<close>

section \<open>Model\<close>

type_synonym socket_addr = "ip_addr \<times> u16"

datatype socks_target = Ip socket_addr | Domain rstr u16

definition auth_failed :: io_error where
  "auth_failed = IoError OtherKind (lit ''SOCKS5 auth failed'')"

definition connect_failed :: "byte \<Rightarrow> io_error" where
  "connect_failed rep = IoError OtherKind (lit ''SOCKS5 CONNECT failed: rep='' @ dec (unat rep))"

text \<open>The request of each kind of target; the length of a name is cast to a byte.\<close>

fun connect_request :: "socks_target \<Rightarrow> byte list" where
  "connect_request (Ip (V4 a b c d, port)) =
     [0x05, 0x01, 0x00, 0x01, a, b, c, d] @ to_be16 port"
| "connect_request (Ip (V6 octets, port)) = [0x05, 0x01, 0x00, 0x04] @ octets @ to_be16 port"
| "connect_request (Domain domain port) =
     [0x05, 0x01, 0x00, 0x03, as_u8 (length domain)] @ domain @ to_be16 port"

definition read_bound_address :: "'s conn \<Rightarrow> byte \<Rightarrow> ('s, unit) act" where
  "read_bound_address C atyp =
     (if atyp = 0x01 then io_bind (recv_exact C 6) (\<lambda>b. io_return ())
      else if atyp = 0x03 then
        io_bind (recv_exact C 1) (\<lambda>l.
        io_bind (recv_exact C (unat (l ! 0) + 2)) (\<lambda>b. io_return ()))
      else if atyp = 0x04 then io_bind (recv_exact C 18) (\<lambda>b. io_return ())
      else io_return ())"

definition socks5_handshake :: "'s conn \<Rightarrow> socks_target \<Rightarrow> ('s, unit) act" where
  "socks5_handshake C target =
     io_bind (send_all C [0x05, 0x01, 0x00]) (\<lambda>u.
     io_bind (recv_exact C 2) (\<lambda>resp.
     if resp ! 0 \<noteq> 0x05 \<or> resp ! 1 \<noteq> 0x00 then io_fail auth_failed
     else
       io_bind (send_all C (connect_request target)) (\<lambda>u.
       io_bind (recv_exact C 4) (\<lambda>rh.
       if rh ! 0 \<noteq> 0x05 \<or> rh ! 1 \<noteq> 0x00 then io_fail (connect_failed (rh ! 1))
       else read_bound_address C (rh ! 3)))))"

text \<open>
  \<open>connect\<close> is the outcome of \<open>TcpStream::connect\<close> to the proxy; an error drops the
  stream, here it keeps its last state.
\<close>

definition socks5_connect ::
  "'s conn \<Rightarrow> io_error + 's \<Rightarrow> socks_target \<Rightarrow> (io_error \<times> 's option + 's) option" where
  "socks5_connect C connect target =
     (case connect of
        Inl e \<Rightarrow> Some (Inl (e, None))
      | Inr stream \<Rightarrow>
          (case socks5_handshake C target stream of
             None \<Rightarrow> None
           | Some (Inl e, s) \<Rightarrow> Some (Inl (e, Some s))
           | Some (Inr _, s) \<Rightarrow> Some (Inr s)))"

section \<open>Specification\<close>

text \<open>The bytes of a reply's bound address, by its type.\<close>

definition bound_address :: "byte \<Rightarrow> byte list \<Rightarrow> bool" where
  "bound_address atyp b \<longleftrightarrow>
     (if atyp = 1 then length b = 6
      else if atyp = 3 then (\<exists>l r. b = l # r \<and> length r = unat l + 2)
      else if atyp = 4 then length b = 18
      else b = [])"

definition accept_reply :: "byte list \<Rightarrow> bool" where
  "accept_reply r \<longleftrightarrow> (\<exists>rsv atyp b. r = [0x05, 0x00, rsv, atyp] @ b \<and> bound_address atyp b)"

text \<open>A server's reading of a request, with what follows it.\<close>

fun read_request :: "byte list \<Rightarrow> (socks_target \<times> byte list) option" where
  "read_request (v # cmd # rsv # atyp # r) =
     (if v \<noteq> 5 \<or> cmd \<noteq> 1 \<or> rsv \<noteq> 0 then None
      else if atyp = 1 then
        (case r of a # b # c # d # p # q # r' \<Rightarrow> Some (Ip (V4 a b c d, from_be16 p q), r') | _ \<Rightarrow> None)
      else if atyp = 4 then
        (case drop 16 r of p # q # r' \<Rightarrow> Some (Ip (V6 (take 16 r), from_be16 p q), r') | _ \<Rightarrow> None)
      else if atyp = 3 then
        (case r of
           [] \<Rightarrow> None
         | l # s \<Rightarrow>
             (case drop (unat l) s of
                p # q # r' \<Rightarrow> Some (Domain (take (unat l) s) (from_be16 p q), r')
              | _ \<Rightarrow> None))
      else None)"
| "read_request _ = None"

fun target_ok :: "socks_target \<Rightarrow> bool" where
  "target_ok (Ip (ip, port)) = ip_wf ip"
| "target_ok (Domain domain port) = (length domain < 256)"

text \<open>The server reads the target the client meant, and no byte more.\<close>

lemma read_connect_request:
  "target_ok target \<Longrightarrow> read_request (connect_request target @ r) = Some (target, r)"
proof (induction target rule: connect_request.induct)
  case (3 domain port)
  then show ?case using from_to_be16_nth [of port] by (simp add: to_be16_def unat_as_u8)
qed (simp_all add: to_be16_def)

section \<open>The handshake\<close>

lemma two_bytes: "length r = 2 \<Longrightarrow> r = [r ! 0, r ! 1]"
  by (cases r) (auto simp: length_Suc_conv numeral_2_eq_2)

lemma four_bytes: "length r = 4 \<Longrightarrow> r = [r ! 0, r ! 1, r ! 2, r ! 3]"
  by (cases r) (auto simp: length_Suc_conv numeral_eq_Suc)

context exact_stream
begin

lemma bound_address_ok:
  assumes "read_bound_address C atyp s = Some (Inr u, s')" and "ok s"
  shows "ok s' \<and> sent s' = sent s \<and> (\<exists>b. bound_address atyp b \<and> recv s = b @ recv s')"
proof -
  consider "atyp = 1" | "atyp = 3" | "atyp = 4" | "atyp \<notin> {1, 3, 4}" by blast
  then show ?thesis
  proof cases
    case 1
    then obtain b where "recv_exact C 6 s = Some (Inr b, s')"
      using assms(1) by (auto simp: read_bound_address_def io_bind_ok io_return_def)
    from recv_ok [OF assms(2) this] 1 show ?thesis by (auto simp: bound_address_def)
  next
    case 2
    then obtain l s1 b where l: "recv_exact C 1 s = Some (Inr l, s1)"
      and b: "recv_exact C (unat (l ! 0) + 2) s1 = Some (Inr b, s')"
      using assms(1) by (auto simp: read_bound_address_def io_bind_ok io_return_def)
    note k = recv_ok [OF assms(2) l]
    note k' = recv_ok [OF _ b]
    obtain x where "l = [x]" using k by (auto simp: length_Suc_conv)
    then have "bound_address atyp (l @ b)" using k k' 2 by (simp add: bound_address_def)
    moreover have "recv s = (l @ b) @ recv s'" using k k' by simp
    ultimately show ?thesis using k k' by (intro conjI exI [of _ "l @ b"]) simp_all
  next
    case 3
    then obtain b where "recv_exact C 18 s = Some (Inr b, s')"
      using assms(1) by (auto simp: read_bound_address_def io_bind_ok io_return_def)
    from recv_ok [OF assms(2) this] 3 show ?thesis by (auto simp: bound_address_def)
  next
    case 4
    then have "s' = s" using assms(1) by (auto simp: read_bound_address_def io_return_def)
    then show ?thesis using 4 assms(2) by (simp add: bound_address_def)
  qed
qed

text \<open>
  A handshake that succeeds has sent the greeting and the request of the target, and has
  consumed the method selection and one accepting reply, and nothing of what follows.
\<close>

lemma handshake_ok:
  assumes "socks5_handshake C target s = Some (Inr u, s')" and "ok s"
  shows "ok s' \<and> sent s' = sent s @ [5, 1, 0] @ connect_request target \<and>
    (\<exists>reply. accept_reply reply \<and> recv s = [5, 0] @ reply @ recv s')"
proof -
  from assms(1) obtain u1 s1 resp s2 u2 s3 rh s4 where
    g: "send_all C [5, 1, 0] s = Some (Inr u1, s1)" and
    a: "recv_exact C 2 s1 = Some (Inr resp, s2)" "resp ! 0 = 5" "resp ! 1 = 0" and
    q: "send_all C (connect_request target) s2 = Some (Inr u2, s3)" and
    h: "recv_exact C 4 s3 = Some (Inr rh, s4)" "rh ! 0 = 5" "rh ! 1 = 0" and
    b: "read_bound_address C (rh ! 3) s4 = Some (Inr u, s')"
    by (auto simp: socks5_handshake_def io_bind_ok io_fail_def split: if_splits)
  note k1 = send_ok [OF assms(2) g]
  note k2 = recv_ok [OF _ a(1)]
  note k3 = send_ok [OF _ q]
  note k4 = recv_ok [OF _ h(1)]
  obtain bs where k5: "ok s'" "sent s' = sent s4" "bound_address (rh ! 3) bs" "recv s4 = bs @ recv s'"
    using bound_address_ok [OF b] k1 k2 k3 k4 by blast
  have "resp = [5, 0]" "rh = [5, 0, rh ! 2, rh ! 3]"
    using k1 k2 k3 k4 a h two_bytes [of resp] four_bytes [of rh] by simp_all
  moreover have "accept_reply (rh @ bs)"
    using k5(3) \<open>rh = _\<close> unfolding accept_reply_def
    by (intro exI [of _ "rh ! 2"] exI [of _ "rh ! 3"] exI [of _ bs]) simp
  moreover have "recv s = resp @ (rh @ bs) @ recv s'" using k1 k2 k3 k4 k5 by simp
  moreover have "sent s' = sent s @ [5, 1, 0] @ connect_request target" using k1 k2 k3 k4 k5 by simp
  ultimately show ?thesis using k5(1) by metis
qed

text \<open>
  A method selection that does not accept ends it: the request is not sent.
\<close>

lemma handshake_auth:
  assumes "ok s" and "recv s = [v, m] @ rest" and "v \<noteq> 5 \<or> m \<noteq> 0"
    and "socks5_handshake C target s = Some (r, s')"
  shows "(\<exists>e. r = Inl e) \<and> (\<exists>n. sent s' = sent s @ take n [5, 1, 0])"
proof -
  consider (greet) e where "send_all C [5, 1, 0] s = Some (Inl e, s')" "r = Inl e"
    | (more) u1 s1 where "send_all C [5, 1, 0] s = Some (Inr u1, s1)"
    using assms(4) by (auto simp: socks5_handshake_def io_bind_def split: option.splits sum.splits)
  then show ?thesis
  proof cases
    case greet
    then show ?thesis using send_err [OF assms(1) greet(1)] by auto
  next
    case (more u1 s1)
    note k1 = send_ok [OF assms(1) more]
    have all: "sent s1 = sent s @ take 3 [5, 1, 0]" using k1 by simp
    consider e where "recv_exact C 2 s1 = Some (Inl e, s')" "r = Inl e"
      | resp s2 where "recv_exact C 2 s1 = Some (Inr resp, s2)"
      using assms(4) more
      by (auto simp: socks5_handshake_def io_bind_def split: option.splits sum.splits)
    then show ?thesis
    proof cases
      case 1
      then show ?thesis using recv_err [of s1 2 e s'] k1 by (intro conjI exI [of _ 3]) auto
    next
      case (2 resp s2)
      have k2: "length resp = 2" "recv s1 = resp @ recv s2" "sent s2 = sent s1"
        using recv_ok [OF _ 2] k1 by auto
      have "resp @ recv s2 = [v, m] @ rest" using k1 k2(2) assms(2) by simp
      then have "resp = [v, m]"
        using k2(1) two_bytes [of resp] by (cases resp) (auto simp: length_Suc_conv numeral_2_eq_2)
      then have "s' = s2" "r = Inl auth_failed"
        using assms(3,4) more 2 by (auto simp: socks5_handshake_def io_bind_def io_fail_def)
      then show ?thesis using k2(3) k1 by (intro conjI exI [of _ 3]) auto
    qed
  qed
qed

text \<open>A refused request is reported with the reply code.\<close>

lemma handshake_refused:
  assumes "ok s" and "recv s = [5, 0, v, rep, rsv, atyp] @ rest" and "v \<noteq> 5 \<or> rep \<noteq> 0"
  shows "socks5_handshake C target s \<noteq> Some (Inr u, s')"
proof
  assume h: "socks5_handshake C target s = Some (Inr u, s')"
  from handshake_ok [OF h assms(1)] obtain reply where
    "accept_reply reply" "recv s = [5, 0] @ reply @ recv s'" by blast
  with assms(2,3) show False by (auto simp: accept_reply_def)
qed

end

section \<open>Over a socket that keeps answering\<close>

lemma script_recv:
  assumes "script_alive s" and "length (rx s) < k" and "n \<le> length (sock_avail s)"
  obtains s' where "recv_exact (conn_of sock_io k) n s = Some (Inr (take n (sock_avail s)), s')"
    "script_alive s'" "wscript s' = wscript s" "length (rx s') < k"
    "sock_avail s' = drop n (sock_avail s)"
proof -
  obtain s' bs where q: "read_exact sock_io s n k = (Ready (Inr bs), s')" "script_alive s'"
    "wscript s' = wscript s" "length (rx s') \<le> length (rx s)"
    using sock_recv_alive [OF assms] by blast
  have r: "recv_exact (conn_of sock_io k) n s = Some (Inr bs, s')" using q(1) by simp
  have n: "length bs = n" "sock_avail s = bs @ sock_avail s'"
    using sock_conn.recv_ok [OF TrueI r] by blast+
  then have "take n (sock_avail s) = bs" "drop n (sock_avail s) = sock_avail s'"
    by (simp_all add: take_drop_append_exact drop_append_exact)
  moreover have "length (rx s') < k" using q(4) assms(2) by linarith
  ultimately show ?thesis using that [of s'] q(2,3) r by metis
qed

lemma script_send:
  assumes "script_alive s" and "length (wscript s) < k"
  obtains s' where "send_all (conn_of sock_io k) bs s = Some (Inr (), s')"
    "script_alive s'" "rx s' = rx s" "length (wscript s') < k" "sock_avail s' = sock_avail s"
proof -
  obtain s' where q: "write_all sock_io s bs k = (Ready (Inr ()), s')" "script_alive s'"
    "rx s' = rx s" "length (wscript s') \<le> length (wscript s)"
    using sock_send_alive [OF assms] by blast
  have a: "sock_avail s' = sock_avail s" using q(3) by (simp add: sock_avail_def)
  have b: "send_all (conn_of sock_io k) bs s = Some (Inr (), s')" using q(1) by simp
  have "length (wscript s') < k" using q(4) assms(2) by linarith
  with a b q(2,3) show ?thesis by (intro that [of s'])
qed

lemma script_bound_address:
  assumes "script_alive s" and "length (rx s) < k" and "bound_address atyp b"
    and "sock_avail s = b @ rest"
  shows "\<exists>s'. read_bound_address (conn_of sock_io k) atyp s = Some (Inr (), s') \<and>
    sock_avail s' = rest"
proof -
  let ?C = "conn_of sock_io k"
  have exact: "\<exists>s'. recv_exact ?C (length b) s = Some (Inr b, s') \<and> sock_avail s' = rest"
  proof -
    have "length b \<le> length (sock_avail s)" using assms(4) by simp
    from script_recv [OF assms(1,2) this] show ?thesis using assms(4) by auto
  qed
  consider "atyp = 1" | "atyp = 3" | "atyp = 4" | "atyp \<notin> {1, 3, 4}" by blast
  then show ?thesis
  proof cases
    case 2
    then obtain l r where b: "b = l # r" "length r = unat l + 2"
      using assms(3) by (auto simp: bound_address_def)
    obtain s1 where s1: "recv_exact ?C 1 s = Some (Inr [l], s1)" "script_alive s1"
      "length (rx s1) < k" "sock_avail s1 = r @ rest"
      using script_recv [OF assms(1,2), of 1] assms(4) b(1) by auto
    obtain s2 where "recv_exact ?C (unat l + 2) s1 = Some (Inr r, s2)" "sock_avail s2 = rest"
      using script_recv [OF s1(2,3), of "unat l + 2"] s1(4) b(2) by auto
    then show ?thesis
      using 2 s1(1) by (auto simp: read_bound_address_def io_bind_step io_return_def simp del: conn_of_sel)
  qed (use exact assms(3,4) in
       \<open>auto simp: read_bound_address_def bound_address_def io_bind_step io_return_def
             simp del: conn_of_sel\<close>)
qed

text \<open>
  However the network fragments and delays an accepting answer, the handshake ends, with
  the stream right after the reply.
\<close>

lemma script_handshake:
  assumes "script_alive s" and "length (rx s) < k" and "length (wscript s) < k"
    and "accept_reply reply" and "sock_avail s = [5, 0] @ reply @ rest"
  shows "\<exists>s'. socks5_handshake (conn_of sock_io k) target s = Some (Inr (), s') \<and>
    sock_avail s' = rest"
proof -
  let ?C = "conn_of sock_io k"
  obtain rsv atyp b where reply: "reply = [5, 0, rsv, atyp] @ b" "bound_address atyp b"
    using assms(4) by (auto simp: accept_reply_def)
  obtain s1 where s1: "send_all ?C [5, 1, 0] s = Some (Inr (), s1)" "script_alive s1"
    "rx s1 = rx s" "length (wscript s1) < k" "sock_avail s1 = sock_avail s"
    using script_send [OF assms(1,3)] .
  have r1: "length (rx s1) < k" using s1(3) assms(2) by simp
  obtain s2 where s2: "recv_exact ?C 2 s1 = Some (Inr [5, 0], s2)" "script_alive s2"
    "wscript s2 = wscript s1" "length (rx s2) < k" "sock_avail s2 = reply @ rest"
    using script_recv [OF s1(2) r1, of 2] s1(5) assms(5) by auto
  have w2: "length (wscript s2) < k" using s2(3) s1(4) by simp
  obtain s3 where s3: "send_all ?C (connect_request target) s2 = Some (Inr (), s3)"
    "script_alive s3" "rx s3 = rx s2" "sock_avail s3 = sock_avail s2"
    using script_send [OF s2(2) w2] .
  have r3: "length (rx s3) < k" using s3(3) s2(4) by simp
  obtain s4 where s4: "recv_exact ?C 4 s3 = Some (Inr [5, 0, rsv, atyp], s4)" "script_alive s4"
    "length (rx s4) < k" "sock_avail s4 = b @ rest"
    using script_recv [OF s3(2) r3, of 4] s3(4) s2(5) reply(1) by auto
  obtain s5 where "read_bound_address ?C atyp s4 = Some (Inr (), s5)" "sock_avail s5 = rest"
    using script_bound_address [OF s4(2,3) reply(2) s4(4)] by blast
  then show ?thesis
    using s1(1) s2(1) s3(1) s4(1)
    by (simp add: socks5_handshake_def io_bind_step del: conn_of_sel)
qed

section \<open>Properties\<close>

text \<open>C5: A SOCKS5 handshake that succeeds, over any connection, has sent the greeting and the request
  of its target and nothing else, and has consumed the method selection and one accepting
  reply, and not a byte of the tunnelled data after them.\<close>

theorem socks5_success:
  assumes "exact_stream C recv sent ok" and "ok s"
    and "socks5_connect C (Inr s) target = Some (Inr s')"
  shows "sent s' = sent s @ [5, 1, 0] @ connect_request target \<and>
    (\<exists>reply. accept_reply reply \<and> recv s = [5, 0] @ reply @ recv s')"
proof -
  have "socks5_handshake C target s = Some (Inr (), s')"
    using assms(3) by (auto simp: socks5_connect_def split: option.splits sum.splits)
  from exact_stream.handshake_ok [OF assms(1) this assms(2)] show ?thesis by blast
qed

text \<open>C6: Over a socket that neither fails nor closes, the connection to a proxy that accepts ends with
  success, for every target, however the network fragments and delays the proxy's answer, and
  leaves the stream at the byte after the reply.\<close>

theorem socks5_completes:
  assumes "script_alive s" and "length (rx s) < k" and "length (wscript s) < k"
    and "accept_reply reply" and "sock_avail s = [5, 0] @ reply @ rest"
  shows "\<exists>s'. socks5_connect (conn_of sock_io k) (Inr s) target = Some (Inr s') \<and> sock_avail s' = rest"
  using script_handshake [OF assms, of target] by (auto simp: socks5_connect_def)

definition sample_sock :: sock where
  "sample_sock = \<lparr>rx = [Recv [5], RPending, Recv [0, 5, 0, 0, 3, 1], Recv [97, 0, 80, 42]],
                  wscript = [Accept 2, WPending], tx = [], closed = False\<rparr>"

lemma sample_reply: "accept_reply [5, 0, 0, 3, 1, 97, 0, 80]"
  unfolding accept_reply_def bound_address_def
  by (intro exI [of _ 0] exI [of _ 3] exI [of _ "[1, 97, 0, 80]"]) simp

lemma sample_sock_ok:
  "script_alive sample_sock" "length (rx sample_sock) < 5" "length (wscript sample_sock) < 5"
  "sock_avail sample_sock = [5, 0] @ [5, 0, 0, 3, 1, 97, 0, 80] @ [42]"
  by (simp_all add: sample_sock_def script_alive_def sock_avail_def)

theorem socks5_completes_witness:
  "\<exists>s'. socks5_connect (conn_of sock_io 5) (Inr sample_sock) (Domain (lit ''a'') 80) = Some (Inr s') \<and>
        sock_avail s' = [42]"
  using socks5_completes [OF sample_sock_ok(1,2,3) sample_reply sample_sock_ok(4)] .

theorem socks5_success_witness:
  "\<exists>s'. socks5_connect (conn_of sock_io 5) (Inr sample_sock) (Domain (lit ''a'') 80) = Some (Inr s') \<and>
        tx s' = [5, 1, 0, 5, 1, 0, 3, 1, 97, 0, 80]"
proof -
  obtain s' where h: "socks5_connect (conn_of sock_io 5) (Inr sample_sock) (Domain (lit ''a'') 80) = Some (Inr s')"
    using script_handshake [OF sample_sock_ok(1,2,3) sample_reply sample_sock_ok(4), of "Domain (lit ''a'') 80"]
    by (auto simp: socks5_connect_def)
  from socks5_success [OF sock_conn.exact_stream_axioms TrueI h] h show ?thesis
    by (simp add: sample_sock_def lit_simps to_be16_def as_u8_def)
qed

text \<open>C39: A proxy that does not select the method without authentication ends the handshake with an
  error, and the address of the target is never sent to it.\<close>

theorem socks5_auth_refused:
  assumes "exact_stream C recv sent ok" and "ok s" and "recv s = [v, m] @ rest"
    and "v \<noteq> 5 \<or> m \<noteq> 0" and "socks5_handshake C target s = Some (r, s')"
  shows "(\<exists>e. r = Inl e) \<and> (\<exists>n. sent s' = sent s @ take n [5, 1, 0])"
  using exact_stream.handshake_auth [OF assms] .

theorem socks5_auth_refused_witness:
  "\<exists>r s'. socks5_handshake (conn_of sock_io 3) (Domain (lit ''a'') 80)
       \<lparr>rx = [Recv [5, 255]], wscript = [], tx = [], closed = False\<rparr> = Some (r, s') \<and>
     (\<exists>e. r = Inl e) \<and> (\<exists>n. tx s' = take n [5, 1, 0])"
proof -
  let ?s = "\<lparr>rx = [Recv [5, 255]], wscript = [], tx = [], closed = False\<rparr>"
  obtain r s' where h: "socks5_handshake (conn_of sock_io 3) (Domain (lit ''a'') 80) ?s = Some (r, s')"
    by (simp add: socks5_handshake_def io_bind_def numeral_3_eq_3 sock_io_def io_fail_def)
  from socks5_auth_refused [OF sock_conn.exact_stream_axioms TrueI _ _ h, of 5 255 "[]"] h
  show ?thesis by (simp add: sock_avail_def)
qed

text \<open>C28: A server reads from the request exactly the target the client meant, and leaves what follows,
  if and only if an IPv6 target has sixteen octets and a name is shorter than 256 bytes: the
  length of a longer name wraps, and the server connects to another name.\<close>

theorem request_understood:
  "read_request (connect_request target @ r) = Some (target, r) \<longleftrightarrow> target_ok target"
proof
  assume "read_request (connect_request target @ r) = Some (target, r)"
  then show "target_ok target"
  proof (induction target rule: connect_request.induct)
    case (2 octets port)
    then show ?case
      by (auto simp: to_be16_def Let_def split: list.splits dest: arg_cong [where f = length])
  next
    case (3 domain port)
    have "take (unat (as_u8 (length domain))) (domain @ to_be16 port @ r) = domain"
      using 3 by (auto split: list.splits)
    then have "length domain \<le> unat (as_u8 (length domain))"
      by (metis length_take min.cobounded2)
    then have "length domain < 256" by (rule le_less_trans) (rule unat_byte_less)
    then show ?case by simp
  qed simp
qed (rule read_connect_request)

end
