(* ===== verification/Doh_Client.thy ===== *)
theory Doh_Client
  imports Rust_Str
begin

text \<open>
  The DNS-over-HTTPS client of \<open>mihomo-android-ffi/src/doh_client.rs\<close>: the client behind the
  \<open>OnceLock\<close>, \<open>init_doh_client\<close>, \<open>resolve_via_doh\<close> and \<open>read_doh_urls_from_config\<close>.  The HTTP
  library, the file system and the YAML parser are parameters: a POST is a function of the
  request and of a state of the world \<open>'w\<close> that it may change.
\<close>

section \<open>Model\<close>

definition IP_BASED_DOH_URLS :: "rstr list" where
  "IP_BASED_DOH_URLS = [lit ''https://1.1.1.1/dns-query'', lit ''https://8.8.8.8/dns-query'']"

definition DOH_TIMEOUT_SECS :: nat where "DOH_TIMEOUT_SECS = 5"

text \<open>What the code configures of its \<open>reqwest::Client\<close>.\<close>

record http_client =
  proxy_url :: rstr
  timeout_secs :: nat
  accept_invalid_certs :: bool

record doh_client =
  http_client :: http_client
  doh_urls :: "rstr list"

text \<open>\<open>MinimalConfig\<close> and \<open>MinimalDns\<close>; only the strings among the YAML values are used.\<close>

datatype yaml_value = YamlString rstr | YamlOther

record minimal_dns =
  nameserver :: "yaml_value list option"
  fallback :: "yaml_value list option"

record minimal_config =
  dns_section :: "minimal_dns option"

definition push_new :: "rstr \<Rightarrow> rstr list \<Rightarrow> rstr list" where
  "push_new s urls = (if s \<notin> set urls then urls @ [s] else urls)"

definition push_entry :: "yaml_value \<Rightarrow> rstr list \<Rightarrow> rstr list" where
  "push_entry entry urls =
     (case entry of
        YamlString s \<Rightarrow>
          if starts_with s (lit ''https://'') \<and> s \<notin> set urls then urls @ [s] else urls
      | YamlOther \<Rightarrow> urls)"

fun opt_list :: "'a list option \<Rightarrow> 'a list list" where
  "opt_list None = []"
| "opt_list (Some xs) = [xs]"

definition config_urls :: "minimal_config \<Rightarrow> rstr list" where
  "config_urls config =
     (let urls = (case dns_section config of
            Some d \<Rightarrow> fold (fold push_entry) (opt_list (nameserver d) @ opt_list (fallback d)) []
          | None \<Rightarrow> [])
      in fold push_new IP_BASED_DOH_URLS urls)"

definition read_doh_urls_from_config ::
  "(rstr \<Rightarrow> rstr option) \<Rightarrow> (rstr \<Rightarrow> minimal_config option) \<Rightarrow> rstr option \<Rightarrow> rstr list" where
  "read_doh_urls_from_config read_to_string from_yaml home_dir =
     (case home_dir of
        None \<Rightarrow> IP_BASED_DOH_URLS
      | Some dir \<Rightarrow>
          (case read_to_string (dir @ lit ''/config.yaml'') of
             None \<Rightarrow> IP_BASED_DOH_URLS
           | Some s \<Rightarrow>
               (case from_yaml s of
                  None \<Rightarrow> IP_BASED_DOH_URLS
                | Some config \<Rightarrow> config_urls config)))"

text \<open>
  \<open>get_or_init\<close>: the closure runs only when the cell is empty.  The library may refuse the proxy
  address or the client's settings (\<open>builds\<close>), and then the code panics.
\<close>

definition doh_settings :: "u16 \<Rightarrow> http_client" where
  "doh_settings socks_port =
     \<lparr>proxy_url = lit ''socks5h://127.0.0.1:'' @ dec (unat socks_port),
      timeout_secs = DOH_TIMEOUT_SECS, accept_invalid_certs = True\<rparr>"

definition init_doh_client ::
  "(http_client \<Rightarrow> bool) \<Rightarrow> rstr list \<Rightarrow> u16 \<Rightarrow> doh_client option \<Rightarrow> doh_client panics" where
  "init_doh_client builds urls socks_port cell =
     (case cell of
        Some c \<Rightarrow> Some c
      | None \<Rightarrow>
          if builds (doh_settings socks_port)
          then Some \<lparr>http_client = doh_settings socks_port, doh_urls = urls\<rparr>
          else None)"

text \<open>
  A POST fails to be sent, or has a response: whether its status is a success, and its
  body unless reading that fails.
\<close>

datatype post_result = SendError | Response bool "byte list option"

record post_request =
  req_url :: rstr
  req_headers :: "(rstr \<times> rstr) list"
  req_body :: "byte list"

definition doh_request :: "rstr \<Rightarrow> byte list \<Rightarrow> post_request" where
  "doh_request url query =
     \<lparr>req_url = url,
      req_headers = [(lit ''Content-Type'', lit ''application/dns-message''),
                     (lit ''Accept'', lit ''application/dns-message'')],
      req_body = query\<rparr>"

type_synonym 'w post = "http_client \<Rightarrow> post_request \<Rightarrow> 'w \<Rightarrow> post_result \<times> 'w"

fun resolve_loop ::
  "'w post \<Rightarrow> http_client \<Rightarrow> rstr list \<Rightarrow> byte list \<Rightarrow> 'w \<Rightarrow> byte list option \<times> 'w" where
  "resolve_loop post client [] query w = (None, w)"
| "resolve_loop post client (url # urls) query w =
     (case post client (doh_request url query) w of
        (Response ok body, w') \<Rightarrow>
          if ok then
            (case body of
               Some bytes \<Rightarrow> (Some bytes, w')
             | None \<Rightarrow> resolve_loop post client urls query w')
          else resolve_loop post client urls query w'
      | (SendError, w') \<Rightarrow> resolve_loop post client urls query w')"

definition resolve_via_doh ::
  "'w post \<Rightarrow> doh_client option \<Rightarrow> byte list \<Rightarrow> 'w \<Rightarrow> byte list option \<times> 'w" where
  "resolve_via_doh post cell query w =
     (case cell of
        None \<Rightarrow> (None, w)
      | Some client \<Rightarrow> resolve_loop post (http_client client) (doh_urls client) query w)"

section \<open>The list of servers\<close>

text \<open>The first occurrences, in order.\<close>

definition first_occurrences :: "'a list \<Rightarrow> 'a list" where
  "first_occurrences xs = rev (remdups (rev xs))"

lemma first_occurrences_snoc:
  "first_occurrences (xs @ [x]) =
     (if x \<in> set xs then first_occurrences xs else first_occurrences xs @ [x])"
  by (simp add: first_occurrences_def)

lemma first_occurrences_set [simp]: "set (first_occurrences xs) = set xs"
  by (simp add: first_occurrences_def)

lemma first_occurrences_distinct [simp]: "distinct (first_occurrences xs)"
  by (simp add: first_occurrences_def)

text \<open>The usable URLs of the configuration.\<close>

fun yaml_urls :: "yaml_value list \<Rightarrow> rstr list" where
  "yaml_urls [] = []"
| "yaml_urls (YamlString s # vs) =
     (if starts_with s (lit ''https://'') then s # yaml_urls vs else yaml_urls vs)"
| "yaml_urls (YamlOther # vs) = yaml_urls vs"

fun user_urls :: "minimal_config \<Rightarrow> rstr list" where
  "user_urls config =
     (case dns_section config of
        None \<Rightarrow> []
      | Some d \<Rightarrow> yaml_urls (concat (opt_list (nameserver d) @ opt_list (fallback d))))"

lemma fold_push_entry:
  "fold push_entry vs (first_occurrences us) = first_occurrences (us @ yaml_urls vs)"
proof (induction vs arbitrary: us rule: yaml_urls.induct)
  case (2 s vs)
  show ?case
  proof (cases "starts_with s (lit ''https://'')")
    case True
    then have "push_entry (YamlString s) (first_occurrences us) = first_occurrences (us @ [s])"
      by (simp add: push_entry_def first_occurrences_snoc)
    with True 2(1) [of "us @ [s]"] show ?thesis by simp
  qed (use 2 in \<open>simp add: push_entry_def\<close>)
qed (simp_all add: push_entry_def)

lemma fold_push_entries:
  "fold (fold push_entry) vss (first_occurrences us) = first_occurrences (us @ yaml_urls (concat vss))"
proof (induction vss arbitrary: us)
  case (Cons vs vss)
  have "yaml_urls (xs @ ys) = yaml_urls xs @ yaml_urls ys" for xs ys
    by (induction xs rule: yaml_urls.induct) simp_all
  then show ?case using Cons [of "us @ yaml_urls vs"] by (simp add: fold_push_entry)
qed simp

lemma fold_push_new: "fold push_new ss (first_occurrences us) = first_occurrences (us @ ss)"
proof (induction ss arbitrary: us)
  case (Cons s ss)
  have "push_new s (first_occurrences us) = first_occurrences (us @ [s])"
    by (simp add: push_new_def first_occurrences_snoc)
  then show ?case using Cons [of "us @ [s]"] by simp
qed simp

lemma config_urls_eq:
  "config_urls config = first_occurrences (user_urls config @ IP_BASED_DOH_URLS)"
proof -
  have "(case dns_section config of
            Some d \<Rightarrow> fold (fold push_entry) (opt_list (nameserver d) @ opt_list (fallback d)) []
          | None \<Rightarrow> []) = first_occurrences (user_urls config)"
  proof -
    have nil: "first_occurrences [] = ([] :: rstr list)" by (simp add: first_occurrences_def)
    have "fold (fold push_entry) vss [] = first_occurrences (yaml_urls (concat vss))" for vss
      using fold_push_entries [of vss "[]"] by (simp add: nil)
    then show ?thesis by (simp add: nil del: fold_append concat_append split: option.split)
  qed
  then show ?thesis by (simp only: config_urls_def Let_def fold_push_new)
qed

lemma IP_BASED_first: "first_occurrences IP_BASED_DOH_URLS = IP_BASED_DOH_URLS"
  by (simp add: IP_BASED_DOH_URLS_def first_occurrences_def lit_simps)

lemma yaml_urls_https: "u \<in> set (yaml_urls vs) \<Longrightarrow> starts_with u (lit ''https://'')"
  by (induction vs rule: yaml_urls.induct) (auto split: if_splits)

lemma IP_BASED_https: "u \<in> set IP_BASED_DOH_URLS \<Longrightarrow> starts_with u (lit ''https://'')"
  by (auto simp: IP_BASED_DOH_URLS_def starts_with_def is_prefix_def lit_simps)

text \<open>The usable URLs of the file in the home directory, none when it cannot be read or parsed.\<close>

definition listed_urls ::
  "(rstr \<Rightarrow> rstr option) \<Rightarrow> (rstr \<Rightarrow> minimal_config option) \<Rightarrow> rstr option \<Rightarrow> rstr list" where
  "listed_urls read_to_string from_yaml home_dir =
     (case Option.bind home_dir (\<lambda>dir.
           Option.bind (read_to_string (dir @ lit ''/config.yaml'')) from_yaml) of
        None \<Rightarrow> []
      | Some config \<Rightarrow> user_urls config)"

lemma read_doh_urls_eq:
  "read_doh_urls_from_config rd yaml home =
     first_occurrences (listed_urls rd yaml home @ IP_BASED_DOH_URLS)"
  by (simp add: read_doh_urls_from_config_def listed_urls_def IP_BASED_first config_urls_eq
      del: user_urls.simps split: option.split)

lemma listed_urls_https: "u \<in> set (listed_urls rd yaml home) \<Longrightarrow> starts_with u (lit ''https://'')"
  by (auto simp: listed_urls_def dest: yaml_urls_https split: option.splits)

section \<open>Asking the servers\<close>

text \<open>The answers the servers give, asked one after the other.\<close>

fun answers :: "'w post \<Rightarrow> http_client \<Rightarrow> rstr list \<Rightarrow> byte list \<Rightarrow> 'w \<Rightarrow> post_result list" where
  "answers post client [] query w = []"
| "answers post client (url # urls) query w =
     (case post client (doh_request url query) w of
        (r, w') \<Rightarrow> r # answers post client urls query w')"

fun usable :: "post_result \<Rightarrow> byte list option" where
  "usable (Response True body) = body"
| "usable _ = None"

text \<open>The result is the first usable answer, and there is none only if every server failed.\<close>

lemma resolve_loop_first:
  "fst (resolve_loop post client urls query w) =
     (case filter (\<lambda>r. usable r \<noteq> None) (answers post client urls query w) of
        [] \<Rightarrow> None
      | r # _ \<Rightarrow> usable r)"
proof (induction post client urls query w rule: resolve_loop.induct)
  case (2 post client url urls query w)
  obtain r w' where p: "post client (doh_request url query) w = (r, w')" by fastforce
  show ?case
  proof (cases r)
    case SendError
    with 2 p show ?thesis by simp
  next
    case (Response ok body)
    with 2 p show ?thesis by (cases ok; cases body) auto
  qed
qed simp

lemma resolve_loop_None:
  "fst (resolve_loop post client urls query w) = None \<longleftrightarrow>
   (\<forall>r \<in> set (answers post client urls query w). usable r = None)"
  by (auto simp: resolve_loop_first filter_empty_conv dest!: filter_eq_ConsD split: list.splits)

section \<open>Properties\<close>

text \<open>C29: The server list that \<open>read_doh_urls_from_config\<close> returns is the first occurrences, in order, of
  the usable entries (strings that start with \<open>https://\<close>) of the name servers and then the
  fallbacks in the configuration file of the home directory, and behind them the two IP-based
  URLs, which are all of it when there is no home directory or the file cannot be read or
  parsed.  So it has no duplicates, only HTTPS URLs, and always the two.\<close>

theorem server_list:
  "read_doh_urls_from_config rd yaml home =
     first_occurrences
       ((case Option.bind home (\<lambda>dir. Option.bind (rd (dir @ lit ''/config.yaml'')) yaml) of
           None \<Rightarrow> [] | Some config \<Rightarrow> user_urls config)
        @ [lit ''https://1.1.1.1/dns-query'', lit ''https://8.8.8.8/dns-query'']) \<and>
   distinct (read_doh_urls_from_config rd yaml home) \<and>
   set IP_BASED_DOH_URLS \<subseteq> set (read_doh_urls_from_config rd yaml home) \<and>
   list_all (\<lambda>u. starts_with u (lit ''https://'')) (read_doh_urls_from_config rd yaml home)"
  using IP_BASED_https listed_urls_https
  by (auto simp: list_all_iff read_doh_urls_eq simp flip: listed_urls_def IP_BASED_DOH_URLS_def)


end
