(* ===== verification/Handlers.thy ===== *)
theory Handlers
  imports Dns_History Udp_Packet Socks5 Doh_Client
begin

text \<open>
  The two per-flow tasks of \<open>mihomo-android-ffi/src/tun2socks.rs\<close>: \<open>handle_dns_query\<close>, which
  resolves a query over HTTPS, remembers the addresses of the answer and sends the reply
  packet, and \<open>handle_tcp_stream\<close>, which names the target of a connection by what the first
  has remembered.  The relaying of bytes (\<open>copy_bidirectional\<close>) is a parameter.
\<close>

section \<open>Model\<close>

text \<open>
  The result is the reply packet, the table and the world of the HTTP client.
  \<^term>\<open>None\<close> is a panic.  The name in the query is only logged.
\<close>

definition handle_dns_query ::
  "endian \<Rightarrow> 'w post \<Rightarrow> doh_client option \<Rightarrow> (nat \<Rightarrow> instant) \<Rightarrow>
   u32 \<Rightarrow> u16 \<Rightarrow> u32 \<Rightarrow> u16 \<Rightarrow> byte list \<Rightarrow> dns_table \<Rightarrow> 'w \<Rightarrow>
   (byte list option \<times> dns_table \<times> 'w) panics" where
  "handle_dns_query ne post cell clock src_ip src_port dst_ip dst_port query table w = do {
     name \<leftarrow> parse_dns_query_name query;
     (case resolve_via_doh post cell query w of
        (None, w) \<Rightarrow> Some (None, table, w)
      | (Some response, w) \<Rightarrow> do {
          records \<leftarrow> parse_dns_response_records response;
          let table = insert_records clock 0 records table;
          reply \<leftarrow> build_udp_packet ne dst_ip dst_port src_ip src_port response;
          Some (Some reply, table, w)
        })
   }"

definition tcp_target :: "instant \<Rightarrow> socket_addr \<Rightarrow> dns_table \<Rightarrow> socks_target \<times> dns_table" where
  "tcp_target now dst_addr table =
     (case dns_table_lookup now (fst dst_addr) table of
        (Some host, table) \<Rightarrow> (Domain host (snd dst_addr), table)
      | (None, table) \<Rightarrow> (Ip dst_addr, table))"

datatype 's tcp_outcome = Socks_Failed io_error "'s option" | Relayed 's

definition handle_tcp_stream ::
  "'s conn \<Rightarrow> io_error + 's \<Rightarrow> ('s \<Rightarrow> 's) \<Rightarrow> instant \<Rightarrow> socket_addr \<Rightarrow> dns_table \<Rightarrow>
   's tcp_outcome option \<times> dns_table" where
  "handle_tcp_stream C connect relay now dst_addr table =
     (let (target, table) = tcp_target now dst_addr table in
      case socks5_connect C connect target of
        None \<Rightarrow> (None, table)
      | Some (Inl (e, s)) \<Rightarrow> (Some (Socks_Failed e s), table)
      | Some (Inr s) \<Rightarrow> (Some (Relayed (relay s)), table))"

section \<open>The DNS task\<close>

lemma handle_dns_query_unfold:
  "handle_dns_query ne post cell clock si sp di dp query table w =
     (case resolve_via_doh post cell query w of
        (None, w') \<Rightarrow> Some (None, table, w')
      | (Some response, w') \<Rightarrow>
          Some (build_udp_packet ne di dp si sp response,
                insert_records clock 0 (the (parse_dns_response_records response)) table, w'))"
proof -
  obtain name where n: "parse_dns_query_name query = Some name"
    using parse_dns_query_name_total by blast
  obtain r w' where r: "resolve_via_doh post cell query w = (r, w')" by fastforce
  show ?thesis
  proof (cases r)
    case None
    with n r show ?thesis by (simp add: handle_dns_query_def)
  next
    case (Some response)
    obtain rs where "parse_dns_response_records response = Some rs"
      using parse_dns_response_total by blast
    with n r Some show ?thesis by (simp add: handle_dns_query_def build_udp_packet_layout)
  qed
qed

section \<open>The TCP task\<close>

lemma tcp_target_eq:
  "table_ok table \<Longrightarrow>
   fst (tcp_target now (ip, port) table) =
     (case table_live table now ip of Some h \<Rightarrow> Domain h port | None \<Rightarrow> Ip (ip, port))"
  using dns.lookup_live [of table now ip]
  by (auto simp: tcp_target_def split: prod.splits option.splits)

lemma tcp_target_table:
  "snd (tcp_target now dst table) = snd (dns_table_lookup now (fst dst) table)"
  by (simp add: tcp_target_def split: prod.splits option.splits)

lemma handle_tcp_stream_cases:
  assumes "handle_tcp_stream C connect relay now dst table = (Some (Relayed s'), table')"
  obtains s where "socks5_connect C connect (fst (tcp_target now dst table)) = Some (Inr s)"
    "s' = relay s"
  using assms by (auto simp: handle_tcp_stream_def split: prod.splits option.splits sum.splits)

lemma socks5_connect_ok:
  "socks5_connect C connect target = Some (Inr s') \<longleftrightarrow>
   (\<exists>s. connect = Inr s \<and> socks5_handshake C target s = Some (Inr (), s'))"
  by (auto simp: socks5_connect_def split: sum.splits option.splits)

text \<open>
  After a DNS answer, a connection to an address of it asks for the name, whatever the other
  tasks have done to the table since, if they stored nothing for the address.
\<close>

lemma target_after_answer:
  assumes "table_ok table" and "mono clock"
    and "parse_dns_response_records response = Some (rs1 @ (ip, h, ttl) # rs2)"
    and "ip \<notin> fst ` set rs2"
    and "clock (2 * (length rs1 + 1 + length rs2)) \<le> later"
    and "later < clock (2 * length rs1) + ttl_nanos ttl"
    and "list_all (\<lambda>c. dated c \<and> locked_at c \<le> later \<and> \<not> stores ip c) cs"
  shows "fst (tcp_target later (ip, port) (snd (table_run cs
           (insert_records clock 0 (the (parse_dns_response_records response)) table)))) = Domain h port"
proof -
  let ?rs = "rs1 @ (ip, h, ttl) # rs2"
  have live: "table_live (dns.insert_all clock 0 ?rs table) later ip = Some h"
    using assms by (intro dns.insert_all_hit [OF assms(1,2) _ refl assms(4)]) simp_all
  have ok: "table_ok (dns.insert_all clock 0 ?rs table)"
    using assms(1) by (rule dns.insert_all_invar)
  from table_run_frame [OF ok assms(7)] live show ?thesis
    using assms(3) by (simp add: tcp_target_eq insert_records_eq)
qed

section \<open>Types\<close>

fun target_typed :: "socks_target \<Rightarrow> bool" where
  "target_typed (Domain host port) = utf8_valid host"
| "target_typed (Ip (ip, port)) = ip_wf ip"

lemma tcp_target_typed:
  assumes "table_typed table" and "ip_wf (fst dst)"
  shows "target_typed (fst (tcp_target now dst table))" and "table_typed (snd (tcp_target now dst table))"
proof -
  obtain h table' where l: "dns_table_lookup now (fst dst) table = (h, table')" by fastforce
  obtain ip port where "dst = (ip, port)" by (cases dst)
  then show "target_typed (fst (tcp_target now dst table))"
    using lookup_typed(2) [OF assms(1), of now "fst dst"] assms(2) l
    by (auto simp: tcp_target_def split: option.splits)
  show "table_typed (snd (tcp_target now dst table))"
    using lookup_typed(1) [OF assms(1), of now "fst dst"] by (simp add: tcp_target_table)
qed

lemma dns_query_typed:
  assumes "handle_dns_query ne post cell clock si sp di dp query table w = Some (reply, table', w')"
    and "table_typed table"
  shows "table_typed table'"
proof -
  have "table_typed (insert_records clock 0 (the (parse_dns_response_records data)) table)" for data
    using parse_dns_response_total [of data] insert_records_typed [OF assms(2) response_typed]
    by force
  then show ?thesis
    using assms by (auto simp: handle_dns_query_unfold split: prod.splits option.splits)
qed

section \<open>Properties\<close>

text \<open>
  The types of the tunnel's data hold whatever comes from the network: a DNS task leaves a table
  whose addresses and names are well formed (16 octets, valid UTF-8), and over such a table a
  connection asks the proxy for a valid name or a well-formed address and leaves such a table.
\<close>

lemma flows_keep_types:
  assumes "table_typed table" and "ip_wf (fst dst)"
  shows "(\<forall>reply table' w'. handle_dns_query ne post cell clock si sp di dp query table w =
       Some (reply, table', w') \<longrightarrow> table_typed table') \<and>
    target_typed (fst (tcp_target now dst table)) \<and> table_typed (snd (tcp_target now dst table))"
proof (intro conjI allI impI)
  show "table_typed table'"
    if "handle_dns_query ne post cell clock si sp di dp query table w = Some (reply, table', w')"
    for reply table' w'
    using that assms(1) by (rule dns_query_typed)
qed (fact tcp_target_typed [OF assms])+

lemma flows_keep_types_witness:
  "target_typed (fst (tcp_target 5 (V4 1 2 3 4, 80)
     [(V4 1 2 3 4, \<lparr>hostname = lit ''a'', expires_at = 9\<rparr>)]))"
proof -
  have t: "table_typed [(V4 1 2 3 4, \<lparr>hostname = lit ''a'', expires_at = 9\<rparr>)]"
    by (simp add: table_typed_def lit_simps)
  show ?thesis
    by (rule flows_keep_types [OF t, THEN conjunct2, THEN conjunct1]) simp
qed

text \<open>C22: When a server answers a query, the DNS task completes without a panic, whatever the bytes of
  the query and of the answer are, and sends a packet of 28 bytes more than the answer.  A
  client that checks the packet strictly (lengths, header sum, protocol) gets the answer
  unchanged, from the address and port that were asked and at the port that asked, if the answer
  has at most 65507 bytes; a longer one, which the proxy side may send, it always drops, because
  the length fields have wrapped.\<close>

theorem dns_reply_packet:
  assumes "resolve_via_doh post cell query w = (Some response, w')"
  shows "\<exists>reply table'. handle_dns_query ne post cell clock src_ip src_port dst_ip dst_port query table w =
      Some (Some reply, table', w') \<and>
    length reply = 28 + length response \<and>
    receive_udp ne reply =
      (if length response \<le> 65507 then Some (dst_ip, dst_port, src_ip, src_port, response) else None)"
proof -
  obtain reply where r: "build_udp_packet ne dst_ip dst_port src_ip src_port response = Some reply"
    by (simp add: build_udp_packet_layout)
  show ?thesis
    using receive_build_udp_packet [OF r] build_udp_packet_length [OF r]
    by (simp add: handle_dns_query_unfold assms r)
qed

definition sample_client :: doh_client where
  "sample_client = \<lparr>http_client = \<lparr>proxy_url = [], timeout_secs = 5, accept_invalid_certs = True\<rparr>,
                    doh_urls = [lit ''u'', lit ''v'']\<rparr>"

definition sample_post :: "byte list \<Rightarrow> unit post" where
  "sample_post body c req w =
     (if req_url req = lit ''u'' then (SendError, w) else (Response True (Some body), w))"

lemma sample_resolve:
  "resolve_via_doh (sample_post body) (Some sample_client) query () = (Some body, ())"
  by (simp add: resolve_via_doh_def sample_client_def sample_post_def doh_request_def lit_simps)

theorem dns_reply_packet_witness:
  "(\<exists>reply table'. handle_dns_query Little (sample_post [1, 2]) (Some sample_client) (\<lambda>i. i)
      9 4000 8 53 [] [] () = Some (Some reply, table', ()) \<and>
      receive_udp Little reply = Some (8, 53, 9, 4000, [1, 2])) \<and>
   (\<exists>reply table'. handle_dns_query Little (sample_post (replicate 65508 0)) (Some sample_client) (\<lambda>i. i)
      9 4000 8 53 [] [] () = Some (Some reply, table', ()) \<and> receive_udp Little reply = None)"
proof
  show "\<exists>reply table'. handle_dns_query Little (sample_post [1, 2]) (Some sample_client) (\<lambda>i. i)
      9 4000 8 53 [] [] () = Some (Some reply, table', ()) \<and>
      receive_udp Little reply = Some (8, 53, 9, 4000, [1, 2])"
    using dns_reply_packet [OF sample_resolve [of "[1, 2]" "[]"], where ne = Little and clock = "\<lambda>i. i"
        and src_ip = 9 and src_port = 4000 and dst_ip = 8 and dst_port = 53 and table = "[]"]
    by auto
  show "\<exists>reply table'. handle_dns_query Little (sample_post (replicate 65508 0)) (Some sample_client) (\<lambda>i. i)
      9 4000 8 53 [] [] () = Some (Some reply, table', ()) \<and> receive_udp Little reply = None"
    using dns_reply_packet [OF sample_resolve [of "replicate 65508 0" "[]"], where ne = Little and clock = "\<lambda>i. i"
        and src_ip = 9 and src_port = 4000 and dst_ip = 8 and dst_port = 53 and table = "[]"]
    by auto
qed

end
