(* ===== verification/Lifecycle.thy ===== *)
theory Lifecycle
  imports Doh_Client
begin

text \<open>
  Starting and stopping the tunnel (\<open>mihomo-android-ffi/src/tun2socks.rs\<close>, \<open>start\<close>, \<open>stop\<close> and
  the control skeleton of \<open>run_tun2socks\<close>): the flag \<open>TUN2SOCKS_RUNNING\<close>, the one-time DoH
  client and the spawned tasks.  Every access to the flag is one event, and events of
  different threads interleave freely: a run is a list of events.  A panic in a call from Java
  ends the process, so no run goes on after one.
\<close>

section \<open>Model\<close>

type_synonym i32 = "32 word"

text \<open>
  \<open>Starting\<close>: the caller has passed the swap and has not spawned yet.  \<open>Building\<close>: spawned, the
  stack is not built.  \<open>Reading\<close>: the reader loop runs.  \<open>Leaving\<close>: the reader has left
  its loop, or the stack could not be built, and the flag is not stored yet.
\<close>

datatype task_phase = Starting | Building | Reading | Leaving

record tun_task =
  task_fd :: i32
  task_port :: u16
  task_phase :: task_phase

record tun =
  running :: bool
  doh_cell :: "doh_client option"
  runtime_built :: bool
  nonblocking :: "i32 \<Rightarrow> bool"
  tasks :: "tun_task list"

text \<open>
  What the system answers a start: the flags \<open>fcntl\<close> reads (\<open>-1\<close> on failure) and whether it sets
  them, and whether the HTTP client and the tokio runtime can be built.
\<close>

record os_answers =
  getfl :: "i32 \<Rightarrow> i32"
  setfl :: "i32 \<Rightarrow> i32 \<Rightarrow> bool"
  client_builds :: "http_client \<Rightarrow> bool"
  runtime_builds :: bool

definition O_NONBLOCK :: i32 where "O_NONBLOCK = 2048"

definition already_running :: rstr where
  "already_running = lit ''tun2socks already running''"

text \<open>\<open>start\<close>: the swap of the flag, and what the winner does after it.\<close>

definition start_swap :: "i32 \<Rightarrow> u16 \<Rightarrow> tun \<Rightarrow> (rstr + unit) \<times> tun" where
  "start_swap fd socks_port st =
     (if running st then (Inl already_running, st\<lparr>running := True\<rparr>)
      else (Inr (), st\<lparr>running := True,
                       tasks := tasks st @ [\<lparr>task_fd = fd, task_port = socks_port,
                                             task_phase = Starting\<rparr>]\<rparr>))"

definition set_phase :: "nat \<Rightarrow> task_phase \<Rightarrow> tun \<Rightarrow> tun" where
  "set_phase i ph st = st\<lparr>tasks := (tasks st)[i := (tasks st ! i)\<lparr>task_phase := ph\<rparr>]\<rparr>"

text \<open>\<open>get_runtime\<close> of \<open>lib.rs\<close>: the runtime is built once, and the code panics if it cannot be.\<close>

definition get_runtime :: "bool \<Rightarrow> tun \<Rightarrow> tun panics" where
  "get_runtime builds st =
     (if runtime_built st then Some st
      else if builds then Some (st\<lparr>runtime_built := True\<rparr>)
      else None)"

text \<open>The two calls of \<open>fcntl\<close>, whose results the code ignores.\<close>

definition set_nonblocking :: "os_answers \<Rightarrow> i32 \<Rightarrow> tun \<Rightarrow> tun" where
  "set_nonblocking os fd st =
     (let flags = getfl os fd in
      if setfl os fd (flags OR O_NONBLOCK) then st\<lparr>nonblocking := (nonblocking st)(fd := True)\<rparr> else st)"

definition start_spawn :: "os_answers \<Rightarrow> rstr list \<Rightarrow> nat \<Rightarrow> tun \<Rightarrow> tun panics" where
  "start_spawn os urls i st =
     (let t = tasks st ! i in do {
        client \<leftarrow> init_doh_client (client_builds os) urls (task_port t) (doh_cell st);
        st \<leftarrow> get_runtime (runtime_builds os)
                (set_nonblocking os (task_fd t) (st\<lparr>doh_cell := Some client\<rparr>));
        Some (set_phase i Building st)
      })"

definition start ::
  "os_answers \<Rightarrow> rstr list \<Rightarrow> i32 \<Rightarrow> u16 \<Rightarrow> tun \<Rightarrow> ((rstr + unit) \<times> tun) panics" where
  "start os urls fd socks_port st =
     (case start_swap fd socks_port st of
        (Inl e, st) \<Rightarrow> Some (Inl e, st)
      | (Inr u, st) \<Rightarrow> do {
          st \<leftarrow> start_spawn os urls (length (tasks st) - 1) st;
          Some (Inr (), st)
        })"

definition stop :: "tun \<Rightarrow> tun" where
  "stop st = st\<lparr>running := False\<rparr>"

text \<open>
  The turn of the reader that loads the flag (\<open>Tunnel_Run\<close> has the turns of its inner loop, in
  which it does not), and the end of the spawned task, which stores it.
\<close>

definition reader_check :: "nat \<Rightarrow> tun \<Rightarrow> tun" where
  "reader_check i st = (if running st then st else set_phase i Leaving st)"

definition task_exit :: "nat \<Rightarrow> tun \<Rightarrow> tun" where
  "task_exit i st =
     st\<lparr>running := False, tasks := take i (tasks st) @ drop (Suc i) (tasks st)\<rparr>"

datatype tun_event =
    StartCall i32 u16
  | Spawn nat os_answers "rstr list"
  | StopCall
  | Built nat
  | BuildError nat
  | Check nat
  | Exit nat

definition in_phase :: "nat \<Rightarrow> task_phase \<Rightarrow> tun \<Rightarrow> bool" where
  "in_phase i ph st \<longleftrightarrow> i < length (tasks st) \<and> task_phase (tasks st ! i) = ph"

fun tun_exec :: "tun_event \<Rightarrow> tun \<Rightarrow> tun option" where
  "tun_exec (StartCall fd port) st = Some (snd (start_swap fd port st))"
| "tun_exec (Spawn i os urls) st = (if in_phase i Starting st then start_spawn os urls i st else None)"
| "tun_exec StopCall st = Some (stop st)"
| "tun_exec (Built i) st = (if in_phase i Building st then Some (set_phase i Reading st) else None)"
| "tun_exec (BuildError i) st =
     (if in_phase i Building st then Some (set_phase i Leaving st) else None)"
| "tun_exec (Check i) st = (if in_phase i Reading st then Some (reader_check i st) else None)"
| "tun_exec (Exit i) st = (if in_phase i Leaving st then Some (task_exit i st) else None)"

fun tun_run :: "tun_event list \<Rightarrow> tun \<Rightarrow> tun option" where
  "tun_run [] st = Some st"
| "tun_run (e # es) st = (case tun_exec e st of None \<Rightarrow> None | Some st' \<Rightarrow> tun_run es st')"

definition tun_init :: tun where
  "tun_init = \<lparr>running = False, doh_cell = None, runtime_built = False, nonblocking = (\<lambda>_. False), tasks = []\<rparr>"

lemma tun_run_append:
  "tun_run (es @ fs) st = (case tun_run es st of None \<Rightarrow> None | Some st' \<Rightarrow> tun_run fs st')"
  by (induction es arbitrary: st) (auto split: option.splits)

text \<open>A property that no event breaks holds after every run.\<close>

lemma tun_run_invariant:
  assumes "tun_run es st = Some st'" and "P st"
    and "\<And>e s s'. e \<in> set es \<Longrightarrow> P s \<Longrightarrow> tun_exec e s = Some s' \<Longrightarrow> P s'"
  shows "P st'"
  using assms
proof (induction es arbitrary: st)
  case (Cons e es)
  then obtain s1 where "tun_exec e st = Some s1" "tun_run es s1 = Some st'"
    by (auto split: option.splits)
  with Cons show ?case by (metis list.set_intros)
qed simp

text \<open>A spawn that does not panic moves its task and leaves the flag and the other tasks alone.\<close>

lemma start_spawn_Some:
  "start_spawn os urls i st = Some st' \<longleftrightarrow>
   (\<exists>c. init_doh_client (client_builds os) urls (task_port (tasks st ! i)) (doh_cell st) = Some c \<and>
      (runtime_built st \<or> runtime_builds os) \<and>
      st' = set_phase i Building
        ((set_nonblocking os (task_fd (tasks st ! i)) (st\<lparr>doh_cell := Some c\<rparr>))\<lparr>runtime_built := True\<rparr>))"
proof -
  have r: "runtime_built (set_nonblocking os fd s) = runtime_built s" for fd s
    by (simp add: set_nonblocking_def Let_def)
  have "get_runtime b s = (if runtime_built s \<or> b then Some (s\<lparr>runtime_built := True\<rparr>) else None)" for b s
    by (cases s) (simp add: get_runtime_def)
  then show ?thesis
    by (auto simp: start_spawn_def Let_def r split: bind_splits if_splits)
qed

lemma set_nonblocking_sel [simp]:
  "running (set_nonblocking os fd st) = running st" "doh_cell (set_nonblocking os fd st) = doh_cell st"
  "tasks (set_nonblocking os fd st) = tasks st"
  "runtime_built (set_nonblocking os fd st) = runtime_built st"
  by (simp_all add: set_nonblocking_def Let_def)

lemma start_spawn_sel:
  assumes "start_spawn os urls i st = Some st'"
  shows "running st' = running st"
    and "tasks st' = (tasks st)[i := (tasks st ! i)\<lparr>task_phase := Building\<rparr>]"
    and "doh_cell st = Some c \<Longrightarrow> doh_cell st' = Some c"
  using assms by (auto simp: start_spawn_Some set_phase_def init_doh_client_def split: option.splits)

text \<open>When everything can be built, a spawn does not panic.\<close>

definition os_fine :: os_answers where
  "os_fine = \<lparr>getfl = (\<lambda>_. 2), setfl = (\<lambda>_ _. True), client_builds = (\<lambda>_. True), runtime_builds = True\<rparr>"

lemma start_spawn_fine: "\<exists>st'. start_spawn os_fine urls i st = Some st'"
  by (auto simp: start_spawn_Some os_fine_def init_doh_client_def split: option.split)

lemmas tun_step_defs = start_swap_def set_phase_def stop_def reader_check_def
  task_exit_def in_phase_def Let_def

lemmas tun_spawn_defs = start_spawn_def init_doh_client_def get_runtime_def set_nonblocking_def os_fine_def

text \<open>A caller that is not interrupted performs the two halves of \<open>start\<close>.\<close>

lemma start_halves:
  "\<not> running st \<Longrightarrow>
   start os urls fd port st = Some (Inr (), st') \<longleftrightarrow>
   tun_run [StartCall fd port, Spawn (length (tasks st)) os urls] st = Some st'"
  by (auto simp: start_def start_swap_def in_phase_def split: bind_splits option.splits)

section \<open>Invariants\<close>

text \<open>The flag is never left set without a task that will clear it.\<close>

definition flag_owned :: "tun \<Rightarrow> bool" where
  "flag_owned st \<longleftrightarrow> (running st \<longrightarrow> tasks st \<noteq> [])"

lemma flag_owned_step: "flag_owned st \<Longrightarrow> tun_exec e st = Some st' \<Longrightarrow> flag_owned st'"
  by (cases e) (auto simp: flag_owned_def tun_step_defs start_spawn_sel split: if_splits)

text \<open>As long as nobody stops the tunnel, the flag and the task go together.\<close>

definition single_task :: "tun \<Rightarrow> bool" where
  "single_task st \<longleftrightarrow>
     (if running st then \<exists>t. tasks st = [t] else tasks st = [])"

lemma single_task_step:
  "single_task st \<Longrightarrow> e \<noteq> StopCall \<Longrightarrow> tun_exec e st = Some st' \<Longrightarrow> single_task st'"
  by (cases e) (auto simp: single_task_def tun_step_defs start_spawn_sel split: if_splits)

text \<open>
  A tunnel that was started when no other was alive keeps its flag: only a stop or a stack
  that cannot be built ends it.
\<close>

definition owned_by :: "i32 \<Rightarrow> u16 \<Rightarrow> tun \<Rightarrow> bool" where
  "owned_by fd port st \<longleftrightarrow> running st \<and>
     (\<exists>ph. tasks st = [\<lparr>task_fd = fd, task_port = port, task_phase = ph\<rparr>] \<and> ph \<noteq> Leaving)"

fun stops :: "tun_event \<Rightarrow> bool" where
  "stops StopCall = True"
| "stops (BuildError i) = True"
| "stops _ = False"

lemma owned_by_step:
  "owned_by fd port st \<Longrightarrow> \<not> stops e \<Longrightarrow> tun_exec e st = Some st' \<Longrightarrow> owned_by fd port st'"
  by (cases e) (auto simp: owned_by_def tun_step_defs start_spawn_sel split: if_splits)

lemma start_owns:
  "\<not> running st \<Longrightarrow> tasks st = [] \<Longrightarrow> tun_exec (StartCall fd port) st = Some st' \<Longrightarrow>
   owned_by fd port st'"
  by (auto simp: owned_by_def start_swap_def)

text \<open>The DoH client is the one of the first start.\<close>

lemma doh_cell_step:
  "doh_cell st = Some c \<Longrightarrow> tun_exec e st = Some st' \<Longrightarrow> doh_cell st' = Some c"
  by (cases e) (auto simp: tun_step_defs start_spawn_sel split: if_splits)

section \<open>A restart\<close>

text \<open>Without another start, the end of a task clears the flag for good.\<close>

lemma clear_stays:
  "tun_run es st = Some st' \<Longrightarrow> \<not> running st \<Longrightarrow>
   list_all (\<lambda>e. \<forall>fd port. e \<noteq> StartCall fd port) es \<Longrightarrow> \<not> running st'"
proof (induction es arbitrary: st)
  case (Cons e es)
  then obtain s where s: "tun_exec e st = Some s" "tun_run es s = Some st'"
    by (auto split: option.splits)
  have "\<not> running s"
    using s(1) Cons.prems(2,3) by (cases e) (auto simp: tun_step_defs start_spawn_sel split: if_splits)
  with Cons s(2) show ?case by simp
qed simp

lemma exit_clears:
  "tun_run es st = Some st' \<Longrightarrow> Exit i \<in> set es \<Longrightarrow>
   list_all (\<lambda>e. \<forall>fd port. e \<noteq> StartCall fd port) es \<Longrightarrow> \<not> running st'"
proof (induction es arbitrary: st)
  case (Cons e es)
  then obtain s where s: "tun_exec e st = Some s" "tun_run es s = Some st'"
    by (auto split: option.splits)
  show ?case
  proof (cases "e = Exit i")
    case True
    then have "\<not> running s" using s(1) by (auto simp: task_exit_def split: if_splits)
    with clear_stays [OF s(2)] Cons.prems(3) show ?thesis by simp
  next
    case False
    with Cons s(2) show ?thesis by auto
  qed
qed simp

text \<open>While the flag is set and no task ends, the readers stay.\<close>

lemma readers_stay:
  "tun_run es st = Some st' \<Longrightarrow> running st \<Longrightarrow>
   list_all (\<lambda>e. \<forall>fd port. e \<noteq> StartCall fd port) es \<Longrightarrow> \<forall>i. Exit i \<notin> set es \<Longrightarrow> StopCall \<notin> set es \<Longrightarrow>
   running st' \<and> length (tasks st') = length (tasks st) \<and>
   (\<forall>i < length (tasks st). task_phase (tasks st ! i) = Reading \<longrightarrow> tasks st' ! i = tasks st ! i)"
proof (induction es arbitrary: st)
  case (Cons e es)
  then obtain s where s: "tun_exec e st = Some s" "tun_run es s = Some st'"
    by (auto split: option.splits)
  have step: "running s \<and> length (tasks s) = length (tasks st) \<and>
      (\<forall>i < length (tasks st). task_phase (tasks st ! i) = Reading \<longrightarrow> tasks s ! i = tasks st ! i)"
    using s(1) Cons.prems(2-5)
    by (cases e) (auto simp: tun_step_defs start_spawn_sel nth_list_update split: if_splits)
  with Cons.IH [OF s(2)] Cons.prems(3-5) show ?case by auto
qed simp

section \<open>Termination after a stop\<close>

fun phase_steps :: "task_phase \<Rightarrow> nat" where
  "phase_steps Starting = 4"
| "phase_steps Building = 3"
| "phase_steps Reading = 2"
| "phase_steps Leaving = 1"

definition steps_left :: "tun \<Rightarrow> nat" where
  "steps_left st = sum_list (map (phase_steps \<circ> task_phase) (tasks st))"

fun control :: "tun_event \<Rightarrow> bool" where
  "control (StartCall fd port) = True"
| "control StopCall = True"
| "control _ = False"

lemma sum_list_update_nat:
  "i < length xs \<Longrightarrow> sum_list (map f (xs[i := x])) + f (xs ! i) = sum_list (map f xs) + (f x :: nat)"
  by (induction xs arbitrary: i) (auto split: nat.splits)

lemma steps_left_set_phase:
  "i < length (tasks st) \<Longrightarrow>
   steps_left (set_phase i ph st) + phase_steps (task_phase (tasks st ! i)) =
   steps_left st + phase_steps ph"
  using sum_list_update_nat [of i "tasks st" "phase_steps \<circ> task_phase"]
  by (simp add: steps_left_def set_phase_def)

lemma sum_list_remove_nat:
  "i < length xs \<Longrightarrow>
   sum_list (map f (take i xs @ drop (Suc i) xs)) + f (xs ! i) = (sum_list (map f xs) :: nat)"
  using arg_cong [OF id_take_nth_drop [of i xs], of "\<lambda>ys. sum_list (map f ys)"] by simp

text \<open>When the flag is clear, every event of a task brings it nearer to its end.\<close>

lemma stopped_step:
  assumes "tun_exec e st = Some st'" and "\<not> running st" and "\<not> control e"
  shows "\<not> running st' \<and> Suc (steps_left st') \<le> steps_left st"
proof -
  have sp: "\<not> running st' \<and> steps_left st' = steps_left (set_phase i Building st)"
    if "start_spawn os urls i st = Some st'" for os urls i
    using start_spawn_sel(1,2) [OF that] assms(2) by (simp add: set_phase_def steps_left_def)
  have ex: "steps_left (task_exit i st) + phase_steps (task_phase (tasks st ! i)) = steps_left st"
    if "i < length (tasks st)" for i
    using sum_list_remove_nat [OF that, of "phase_steps \<circ> task_phase"]
    by (simp add: task_exit_def steps_left_def)
  from assms show ?thesis
  proof (cases e)
    case (Spawn i os urls)
    then show ?thesis
      using assms steps_left_set_phase [of i st Building] sp [of os urls i]
      by (auto simp: in_phase_def split: if_splits)
  next
    case (Built i)
    then show ?thesis
      using assms steps_left_set_phase [of i st Reading]
      by (auto simp: in_phase_def set_phase_def split: if_splits)
  next
    case (BuildError i)
    then show ?thesis
      using assms steps_left_set_phase [of i st Leaving]
      by (auto simp: in_phase_def set_phase_def split: if_splits)
  next
    case (Check i)
    then show ?thesis
      using assms steps_left_set_phase [of i st Leaving]
      by (auto simp: in_phase_def reader_check_def set_phase_def split: if_splits)
  next
    case (Exit i)
    then show ?thesis
      using assms ex [of i] by (auto simp: in_phase_def task_exit_def split: if_splits)
  qed auto
qed

lemma stopped_run:
  "tun_run es st = Some st' \<Longrightarrow> \<not> running st \<Longrightarrow> list_all (\<lambda>e. \<not> control e) es \<Longrightarrow>
   \<not> running st' \<and> length es + steps_left st' \<le> steps_left st"
proof (induction es arbitrary: st)
  case (Cons e es)
  then obtain s1 where "tun_exec e st = Some s1" "tun_run es s1 = Some st'"
    by (auto split: option.splits)
  with Cons.IH [of s1] stopped_step [of e st s1] Cons.prems show ?case by auto
qed simp

text \<open>And as long as a task is alive, one of them can move.\<close>

lemma stopped_enabled:
  assumes "tasks st \<noteq> []"
  shows "\<exists>e st'. \<not> control e \<and> tun_exec e st = Some st'"
proof -
  have i: "0 < length (tasks st)" using assms by simp
  show ?thesis
  proof (cases "task_phase (tasks st ! 0)")
    case Starting
    then show ?thesis
      using i start_spawn_fine [of "[]" 0 st]
      by (intro exI [of _ "Spawn 0 os_fine []"]) (simp add: in_phase_def)
  next
    case Building
    then show ?thesis using i by (intro exI [of _ "Built 0"]) (simp add: in_phase_def)
  next
    case Reading
    then show ?thesis using i by (intro exI [of _ "Check 0"]) (simp add: in_phase_def)
  next
    case Leaving
    then show ?thesis using i by (intro exI [of _ "Exit 0"]) (simp add: in_phase_def)
  qed
qed

section \<open>Properties\<close>

text \<open>C16: As long as nobody calls \<open>stop\<close>, the flag and the tunnel agree: in every interleaving of starts
  and task steps there is one task while the flag is set and none while it is clear, so
  concurrent starts never create a second tunnel.\<close>

theorem no_second_tunnel:
  assumes "tun_run es tun_init = Some st" and "StopCall \<notin> set es"
  shows "single_task st"
proof (rule tun_run_invariant [OF assms(1), of single_task])
  show "single_task tun_init" by (simp add: single_task_def tun_init_def)
  show "single_task s'" if "e \<in> set es" "single_task s" "tun_exec e s = Some s'" for e s s'
    using single_task_step [OF that(2) _ that(3)] that(1) assms(2) by metis
qed

theorem no_second_tunnel_witness:
  "\<exists>st. tun_run [StartCall 3 7890, StartCall 4 7891, Spawn 0 os_fine [], Built 0] tun_init = Some st \<and>
        single_task st"
proof -
  obtain st where r: "tun_run [StartCall 3 7890, StartCall 4 7891, Spawn 0 os_fine [], Built 0] tun_init = Some st"
    by (simp add: tun_init_def tun_step_defs tun_spawn_defs)
  with no_second_tunnel [OF r] show ?thesis by simp
qed

text \<open>C15: A tunnel started when no task of an earlier one is left stays up: until a stop or a stack that
  cannot be built, the flag remains set, its task is the only one and does not leave, and
  further starts are refused.\<close>

theorem started_tunnel_stays:
  assumes "tun_run (StartCall fd port # es) st = Some st'" and "tasks st = []" and "\<not> running st"
    and "list_all (\<lambda>e. \<not> stops e) es"
  shows "owned_by fd port st'"
proof -
  let ?s = "snd (start_swap fd port st)"
  have "owned_by fd port ?s" using start_owns [OF assms(3,2)] by simp
  moreover have "tun_run es ?s = Some st'" using assms(1) by simp
  ultimately show ?thesis
    using tun_run_invariant [of es ?s st' "owned_by fd port"] owned_by_step assms(4)
    by (metis list_all_iff)
qed

theorem started_tunnel_stays_witness:
  "\<exists>st'. tun_run [StartCall 3 7890, Spawn 0 os_fine [], Built 0, Check 0, StartCall 4 1] tun_init = Some st' \<and>
         owned_by 3 7890 st'"
proof -
  obtain st' where r: "tun_run (StartCall 3 7890 # [Spawn 0 os_fine [], Built 0, Check 0, StartCall 4 1]) tun_init = Some st'"
    by (simp add: tun_init_def tun_step_defs tun_spawn_defs)
  from started_tunnel_stays [OF r] r show ?thesis by (simp add: tun_init_def)
qed

text \<open>C17: A start while the flag is clear and a task of an earlier tunnel is left, as after a stop,
  succeeds, and then goes wrong in one of two ways, whatever the tasks do and until the next
  call of \<open>start\<close>.  Once a task ends, the flag is clear for good, although nobody stopped the
  new tunnel: the old task has cleared it.  And as long as no task ends and nobody stops the
  tunnel, every old reader that had not yet seen the flag clear goes on reading its descriptor
  beside the new task.\<close>

theorem restart_races:
  assumes "\<not> running st" and "tasks st \<noteq> []" and "tun_exec (StartCall fd port) st = Some st1"
    and "tun_run es st1 = Some st'" and "list_all (\<lambda>e. \<forall>fd port. e \<noteq> StartCall fd port) es"
  shows "running st1 \<and>
    tasks st1 = tasks st @ [\<lparr>task_fd = fd, task_port = port, task_phase = Starting\<rparr>] \<and>
    ((\<exists>i. Exit i \<in> set es) \<longrightarrow> \<not> running st') \<and>
    ((\<forall>i. Exit i \<notin> set es) \<and> StopCall \<notin> set es \<longrightarrow>
       running st' \<and> length (tasks st') = Suc (length (tasks st)) \<and>
       (\<forall>i < length (tasks st). task_phase (tasks st ! i) = Reading \<longrightarrow> tasks st' ! i = tasks st ! i))"
proof -
  have st1: "running st1" "tasks st1 = tasks st @ [\<lparr>task_fd = fd, task_port = port, task_phase = Starting\<rparr>]"
    using assms(1,3) by (auto simp: start_swap_def)
  have "\<not> running st'" if "Exit i \<in> set es" for i
    using exit_clears [OF assms(4) that assms(5)] .
  moreover have "running st' \<and> length (tasks st') = length (tasks st1) \<and>
      (\<forall>i < length (tasks st1). task_phase (tasks st1 ! i) = Reading \<longrightarrow> tasks st' ! i = tasks st1 ! i)"
    if "\<forall>i. Exit i \<notin> set es" "StopCall \<notin> set es"
    using readers_stay [OF assms(4) st1(1) assms(5) that] .
  ultimately show ?thesis using st1 by (fastforce simp: nth_append)
qed

theorem restart_races_witness:
  "(\<exists>st st1 st'.
     tun_run [StartCall 3 7890, Spawn 0 os_fine [], Built 0, StopCall, Check 0] tun_init = Some st \<and>
     tun_exec (StartCall 4 7891) st = Some st1 \<and>
     tun_run [Spawn 1 os_fine [], Built 1, Exit 0] st1 = Some st' \<and> \<not> running st' \<and>
     tasks st' = [\<lparr>task_fd = 4, task_port = 7891, task_phase = Reading\<rparr>]) \<and>
   (\<exists>st st1 st'.
     tun_run [StartCall 3 7890, Spawn 0 os_fine [], Built 0, StopCall] tun_init = Some st \<and>
     tun_exec (StartCall 4 7891) st = Some st1 \<and>
     tun_run [Spawn 1 os_fine [], Built 1, Check 0, Check 1] st1 = Some st' \<and> running st' \<and>
     tasks st' ! 0 = \<lparr>task_fd = 3, task_port = 7890, task_phase = Reading\<rparr>)"
proof
  obtain st st1 st' where r: "tun_run [StartCall 3 7890, Spawn 0 os_fine [], Built 0, StopCall, Check 0] tun_init = Some st"
    "\<not> running st" "tasks st \<noteq> []" "tun_exec (StartCall 4 7891) st = Some st1"
    "tun_run [Spawn 1 os_fine [], Built 1, Exit 0] st1 = Some st'"
    "tasks st' = [\<lparr>task_fd = 4, task_port = 7891, task_phase = Reading\<rparr>]"
    by (simp add: tun_init_def tun_step_defs tun_spawn_defs)
  have "\<not> running st'" using restart_races [OF r(2-5)] by auto
  with r show "\<exists>st st1 st'.
     tun_run [StartCall 3 7890, Spawn 0 os_fine [], Built 0, StopCall, Check 0] tun_init = Some st \<and>
     tun_exec (StartCall 4 7891) st = Some st1 \<and>
     tun_run [Spawn 1 os_fine [], Built 1, Exit 0] st1 = Some st' \<and> \<not> running st' \<and>
     tasks st' = [\<lparr>task_fd = 4, task_port = 7891, task_phase = Reading\<rparr>]" by blast
  obtain st st1 st' where q: "tun_run [StartCall 3 7890, Spawn 0 os_fine [], Built 0, StopCall] tun_init = Some st"
    "\<not> running st" "tasks st \<noteq> []" "tun_exec (StartCall 4 7891) st = Some st1"
    "tun_run [Spawn 1 os_fine [], Built 1, Check 0, Check 1] st1 = Some st'"
    "tasks st = [\<lparr>task_fd = 3, task_port = 7890, task_phase = Reading\<rparr>]"
    by (simp add: tun_init_def tun_step_defs tun_spawn_defs)
  have "running st'" "tasks st' ! 0 = \<lparr>task_fd = 3, task_port = 7890, task_phase = Reading\<rparr>"
    using restart_races [OF q(2-5)] q(6) by auto
  with q show "\<exists>st st1 st'.
     tun_run [StartCall 3 7890, Spawn 0 os_fine [], Built 0, StopCall] tun_init = Some st \<and>
     tun_exec (StartCall 4 7891) st = Some st1 \<and>
     tun_run [Spawn 1 os_fine [], Built 1, Check 0, Check 1] st1 = Some st' \<and> running st' \<and>
     tasks st' ! 0 = \<lparr>task_fd = 3, task_port = 7890, task_phase = Reading\<rparr>" by blast
qed

text \<open>The DoH client is made once per process: after any run, whatever starts on whatever ports with
  whatever profiles it contains, the client is still the one that existed before it.\<close>

lemma doh_client_is_final:
  assumes "tun_run es st = Some st'" and "doh_cell st = Some c"
  shows "doh_cell st' = Some c"
proof (rule tun_run_invariant [OF assms(1), of "\<lambda>s. doh_cell s = Some c"])
  show "doh_cell s' = Some c" if "doh_cell s = Some c" "tun_exec e s = Some s'" for e s s'
    by (rule doh_cell_step [OF that])
qed (fact assms(2))

lemma doh_client_is_final_witness:
  "\<exists>st st' c. tun_run [StartCall 3 7890, Spawn 0 os_fine [lit ''u'']] tun_init = Some st \<and>
     tun_run [Built 0, StopCall, Check 0, Exit 0, StartCall 5 8080, Spawn 0 os_fine [lit ''v'']] st = Some st' \<and>
     doh_cell st = Some c \<and> doh_urls c = [lit ''u''] \<and> doh_cell st' = Some c"
proof -
  obtain st c where r: "tun_run [StartCall 3 7890, Spawn 0 os_fine [lit ''u'']] tun_init = Some st"
    "doh_cell st = Some c" "doh_urls c = [lit ''u'']"
    "running st" "runtime_built st" "tasks st = [\<lparr>task_fd = 3, task_port = 7890, task_phase = Building\<rparr>]"
    by (simp add: tun_init_def tun_step_defs tun_spawn_defs)
  from r(2,4-6) obtain st' where r': "tun_run [Built 0, StopCall, Check 0, Exit 0, StartCall 5 8080, Spawn 0 os_fine [lit ''v'']] st = Some st'"
    by (simp add: tun_step_defs tun_spawn_defs)
  from doh_client_is_final [OF r' r(2)] r r' show ?thesis by blast
qed

end
