(* ===== verification/Tunnel.thy ===== *)
theory Tunnel
  imports Udp_Packet "HOL-Library.Sublist"
begin

text \<open>
  The packet path of \<open>run_tun2socks\<close> (\<open>mihomo-android-ffi/src/tun2socks.rs\<close>): the TUN reader
  with its DNS interception, the bounded channel to the stack driver, the driver, the
  unbounded channel to the TUN writer and the writer with its retries.  Each iteration of
  a task is one event and a run is a list of events in any order.  The channels are used
  through the interface \<open>fifo\<close>, which states what tokio documents of its \<open>mpsc\<close> channels; the
  stack's answers and the kernel's results are the arguments of the events.
\<close>

section \<open>Channels\<close>

type_synonym packet = "byte list"

datatype send_result = Sent | Full | Closed

record 'c channel =
  try_send :: "'c \<Rightarrow> packet \<Rightarrow> send_result \<times> 'c"
  recv_now :: "'c \<Rightarrow> packet option \<times> 'c"
  close_rx :: "'c \<Rightarrow> 'c"

text \<open>
  \<open>queue c\<close> are the packets in the channel, oldest first, \<open>open_rx c\<close> says that the receiver
  exists, and \<open>cap\<close> bounds the queue where there is a bound.
\<close>

locale fifo =
  fixes ch :: "'c channel" and queue :: "'c \<Rightarrow> packet list" and open_rx :: "'c \<Rightarrow> bool"
    and cap :: "nat option"
  assumes send_sent: "try_send ch c p = (Sent, c') \<Longrightarrow>
      open_rx c \<and> queue c' = queue c @ [p] \<and> open_rx c' \<and>
      (\<forall>n. cap = Some n \<longrightarrow> length (queue c) < n)"
    and send_full: "try_send ch c p = (Full, c') \<Longrightarrow>
      open_rx c \<and> queue c' = queue c \<and> open_rx c' \<and> (\<exists>n. cap = Some n \<and> n \<le> length (queue c))"
    and send_closed: "try_send ch c p = (Closed, c') \<Longrightarrow>
      \<not> open_rx c \<and> queue c' = queue c \<and> \<not> open_rx c'"
    and recv_some: "recv_now ch c = (Some p, c') \<Longrightarrow>
      queue c = p # queue c' \<and> open_rx c' = open_rx c"
    and recv_none: "recv_now ch c = (None, c') \<Longrightarrow>
      queue c = [] \<and> queue c' = [] \<and> open_rx c' = open_rx c"
    and close_closed: "\<not> open_rx (close_rx ch c)"
    and close_queue: "length (queue (close_rx ch c)) \<le> length (queue c)"

text \<open>A queue in memory.\<close>

record list_chan =
  buffer :: "packet list"
  rx_alive :: bool

definition list_channel :: "nat option \<Rightarrow> list_chan channel" where
  "list_channel cap =
     \<lparr>try_send = (\<lambda>c p.
        if \<not> rx_alive c then (Closed, c)
        else if (case cap of None \<Rightarrow> False | Some n \<Rightarrow> n \<le> length (buffer c)) then (Full, c)
        else (Sent, c\<lparr>buffer := buffer c @ [p]\<rparr>)),
      recv_now = (\<lambda>c. case buffer c of [] \<Rightarrow> (None, c) | p # r \<Rightarrow> (Some p, c\<lparr>buffer := r\<rparr>)),
      close_rx = (\<lambda>c. c\<lparr>rx_alive := False\<rparr>)\<rparr>"

interpretation list_fifo: fifo "list_channel cap" buffer rx_alive cap for cap
  by unfold_locales (auto simp: list_channel_def split: if_splits option.splits list.splits)

section \<open>Model\<close>

type_synonym dns_job = "u32 \<times> u16 \<times> u32 \<times> u16 \<times> byte list"

definition READ_BUF_LEN :: nat where "READ_BUF_LEN = 65535"
definition INGRESS_CAP :: nat where "INGRESS_CAP = 256"
definition EAGAIN :: int where "EAGAIN = 11"

text \<open>
  \<open>blocked\<close> is a frame whose \<open>send\<close> waits for room.  \<open>stack_in\<close> logs the frames the stack
  took, \<open>spawned\<close> the DNS tasks, \<open>written\<close> the packets given to the kernel with the outcome.
\<close>

record 'c tunnel =
  ingress :: 'c
  blocked :: "packet option"
  driver_alive :: bool
  egress :: 'c
  stack_in :: "packet list"
  spawned :: "dns_job list"
  written :: "(packet \<times> bool) list"

text \<open>
  One packet of the inner loop: whether the loop goes on, and the state.
\<close>

definition forward :: "'c channel \<Rightarrow> packet \<Rightarrow> 'c tunnel \<Rightarrow> bool \<times> 'c tunnel" where
  "forward I frame st =
     (case try_send I (ingress st) frame of
        (Sent, c) \<Rightarrow> (True, st\<lparr>ingress := c\<rparr>)
      | (Full, c) \<Rightarrow> (True, st\<lparr>ingress := c, blocked := Some frame\<rparr>)
      | (Closed, c) \<Rightarrow> (False, st\<lparr>ingress := c\<rparr>))"

definition reader_packet ::
  "endian \<Rightarrow> 'c channel \<Rightarrow> packet \<Rightarrow> 'c tunnel \<Rightarrow> (bool \<times> 'c tunnel) panics" where
  "reader_packet ne I ip_data st = do {
     parsed \<leftarrow> parse_udp_packet ne ip_data;
     (case parsed of
        Some (src_ip, src_port, dst_ip, dst_port, payload) \<Rightarrow>
          if dst_port = 53
          then Some (True, st\<lparr>spawned := spawned st @ [(src_ip, src_port, dst_ip, dst_port, payload)]\<rparr>)
          else Some (forward I ip_data st)
      | None \<Rightarrow> Some (forward I ip_data st))
   }"

text \<open>\<open>send(frame).await\<close> after a full channel; its error is ignored.\<close>

definition reader_unblock :: "'c channel \<Rightarrow> packet \<Rightarrow> 'c tunnel \<Rightarrow> 'c tunnel" where
  "reader_unblock I frame st =
     (case try_send I (ingress st) frame of
        (Full, c) \<Rightarrow> st\<lparr>ingress := c\<rparr>
      | (_, c) \<Rightarrow> st\<lparr>ingress := c, blocked := None\<rparr>)"

text \<open>The two arms of the driver's \<open>select!\<close>; leaving its loop drops the receiver.\<close>

definition driver_break :: "'c channel \<Rightarrow> 'c tunnel \<Rightarrow> 'c tunnel" where
  "driver_break I st = st\<lparr>driver_alive := False, ingress := close_rx I (ingress st)\<rparr>"

definition driver_ingress :: "'c channel \<Rightarrow> bool \<Rightarrow> 'c tunnel \<Rightarrow> 'c tunnel" where
  "driver_ingress I accepted st =
     (case recv_now I (ingress st) of
        (Some frame, c) \<Rightarrow>
          if accepted then st\<lparr>ingress := c, stack_in := stack_in st @ [frame]\<rparr>
          else driver_break I (st\<lparr>ingress := c\<rparr>)
      | (None, c) \<Rightarrow> st\<lparr>ingress := c\<rparr>)"

text \<open>The stack's next item: a frame, an error or its end.\<close>

definition driver_egress :: "'c channel \<Rightarrow> 'c channel \<Rightarrow> packet option \<Rightarrow> 'c tunnel \<Rightarrow> 'c tunnel" where
  "driver_egress I E next st =
     (case next of
        Some frame \<Rightarrow> st\<lparr>egress := snd (try_send E (egress st) frame)\<rparr>
      | None \<Rightarrow> driver_break I st)"

text \<open>
  The write loop: \<open>wr r\<close> is the result and the \<open>errno\<close> of the attempt after \<open>r\<close> retries.
  It returns whether the packet was written.
\<close>

function writer_loop :: "(nat \<Rightarrow> int \<times> int) \<Rightarrow> nat \<Rightarrow> bool" where
  "writer_loop wr retries =
     (let (n, errno) = wr retries in
      if 0 \<le> n then True
      else if errno = EAGAIN \<and> retries < 3 then writer_loop wr (retries + 1)
      else False)"
  by pat_completeness auto
termination
  by (relation "measure (\<lambda>(wr, retries). 3 - retries)") auto

declare writer_loop.simps [simp del]

definition writer_packet :: "'c channel \<Rightarrow> (nat \<Rightarrow> int \<times> int) \<Rightarrow> 'c tunnel \<Rightarrow> 'c tunnel" where
  "writer_packet E wr st =
     (case recv_now E (egress st) of
        (Some pkt, c) \<Rightarrow>
          st\<lparr>egress := c, written := written st @ [(pkt, writer_loop wr 0)]\<rparr>
      | (None, c) \<Rightarrow> st\<lparr>egress := c\<rparr>)"

text \<open>The reply of a DNS task.\<close>

definition dns_reply :: "'c channel \<Rightarrow> packet \<Rightarrow> 'c tunnel \<Rightarrow> 'c tunnel" where
  "dns_reply E pkt st = st\<lparr>egress := snd (try_send E (egress st) pkt)\<rparr>"

datatype path_event =
    ReadPacket packet
  | Unblock
  | DriverRecv bool
  | DriverNext "packet option"
  | DnsReply packet
  | WritePacket "nat \<Rightarrow> int \<times> int"

text \<open>
  An event happens only where its task can be: the reader reads no packet while a frame
  waits (a read of no bytes ends its inner loop and is no event), and a driver that left its loop does nothing.
\<close>

fun path_exec ::
  "endian \<Rightarrow> 'c channel \<Rightarrow> 'c channel \<Rightarrow> path_event \<Rightarrow> 'c tunnel \<Rightarrow> 'c tunnel option" where
  "path_exec ne I E (ReadPacket bytes) st =
     (if blocked st \<noteq> None \<or> bytes = [] then None
      else map_option snd (reader_packet ne I (take READ_BUF_LEN bytes) st))"
| "path_exec ne I E Unblock st =
     (case blocked st of None \<Rightarrow> None | Some frame \<Rightarrow> Some (reader_unblock I frame st))"
| "path_exec ne I E (DriverRecv accepted) st =
     (if driver_alive st then Some (driver_ingress I accepted st) else None)"
| "path_exec ne I E (DriverNext next) st =
     (if driver_alive st then Some (driver_egress I E next st) else None)"
| "path_exec ne I E (DnsReply pkt) st = Some (dns_reply E pkt st)"
| "path_exec ne I E (WritePacket wr) st = Some (writer_packet E wr st)"

fun path_run ::
  "endian \<Rightarrow> 'c channel \<Rightarrow> 'c channel \<Rightarrow> path_event list \<Rightarrow> 'c tunnel \<Rightarrow> 'c tunnel option" where
  "path_run ne I E [] st = Some st"
| "path_run ne I E (e # es) st =
     (case path_exec ne I E e st of None \<Rightarrow> None | Some st' \<Rightarrow> path_run ne I E es st')"

definition path_init :: "'c \<Rightarrow> 'c \<Rightarrow> 'c tunnel" where
  "path_init i e = \<lparr>ingress = i, blocked = None, driver_alive = True, egress = e,
                    stack_in = [], spawned = [], written = []\<rparr>"

section \<open>What a run carries\<close>

text \<open>The DNS job a packet is, if it is one.\<close>

definition dns_job_of :: "endian \<Rightarrow> packet \<Rightarrow> dns_job option" where
  "dns_job_of ne p =
     (case parse_udp_packet ne p of
        Some (Some (si, sp, di, dp, pl)) \<Rightarrow> if dp = 53 then Some (si, sp, di, dp, pl) else None
      | _ \<Rightarrow> None)"

fun packets_read :: "path_event list \<Rightarrow> packet list" where
  "packets_read [] = []"
| "packets_read (ReadPacket p # es) = take READ_BUF_LEN p # packets_read es"
| "packets_read (_ # es) = packets_read es"

definition to_forward :: "endian \<Rightarrow> path_event list \<Rightarrow> packet list" where
  "to_forward ne es = filter (\<lambda>p. dns_job_of ne p = None) (packets_read es)"

definition dns_jobs :: "endian \<Rightarrow> path_event list \<Rightarrow> dns_job list" where
  "dns_jobs ne es = List.map_filter (dns_job_of ne) (packets_read es)"

fun egress_input :: "path_event list \<Rightarrow> packet list" where
  "egress_input [] = []"
| "egress_input (DriverNext (Some p) # es) = p # egress_input es"
| "egress_input (DnsReply p # es) = p # egress_input es"
| "egress_input (_ # es) = egress_input es"

lemma packets_read_append: "packets_read (es @ fs) = packets_read es @ packets_read fs"
  by (induction es rule: packets_read.induct) simp_all

lemma egress_input_append: "egress_input (es @ fs) = egress_input es @ egress_input fs"
  by (induction es rule: egress_input.induct) simp_all

lemma to_forward_append: "to_forward ne (es @ fs) = to_forward ne es @ to_forward ne fs"
  by (simp add: to_forward_def packets_read_append)

lemma dns_jobs_append: "dns_jobs ne (es @ fs) = dns_jobs ne es @ dns_jobs ne fs"
  by (simp add: dns_jobs_def packets_read_append map_filter_def)

lemma carried_simps [simp]:
  "to_forward ne [ReadPacket b] =
     (if dns_job_of ne (take READ_BUF_LEN b) = None then [take READ_BUF_LEN b] else [])"
  "to_forward ne [Unblock] = []" "to_forward ne [DriverRecv a] = []"
  "to_forward ne [DriverNext n] = []" "to_forward ne [DnsReply p] = []"
  "to_forward ne [WritePacket w] = []"
  "dns_jobs ne [ReadPacket b] =
     (case dns_job_of ne (take READ_BUF_LEN b) of None \<Rightarrow> [] | Some j \<Rightarrow> [j])"
  "dns_jobs ne [Unblock] = []" "dns_jobs ne [DriverRecv a] = []"
  "dns_jobs ne [DriverNext n] = []" "dns_jobs ne [DnsReply p] = []"
  "dns_jobs ne [WritePacket w] = []"
  by (simp_all add: to_forward_def dns_jobs_def map_filter_def split: option.splits)

text \<open>The reader never panics, and handles a packet by its kind.\<close>

lemma reader_packet_eq:
  "reader_packet ne I p st =
     Some (case dns_job_of ne p of
             Some j \<Rightarrow> (True, st\<lparr>spawned := spawned st @ [j]\<rparr>)
           | None \<Rightarrow> forward I p st)"
proof -
  obtain r where "parse_udp_packet ne p = Some r" using parse_udp_packet_total by blast
  then show ?thesis
    by (auto simp: reader_packet_def dns_job_of_def split: option.splits)
qed

section \<open>The ingress direction\<close>

definition waiting :: "'c tunnel \<Rightarrow> packet list" where
  "waiting st = (case blocked st of None \<Rightarrow> [] | Some p \<Rightarrow> [p])"

context fifo
begin

text \<open>
  The packets to forward are, in order, those the stack took, those in the channel and the
  one that waits; once the driver has left, those the stack took are a prefix.
\<close>

definition ingress_inv :: "endian \<Rightarrow> path_event list \<Rightarrow> 'c tunnel \<Rightarrow> bool" where
  "ingress_inv ne es st \<longleftrightarrow>
     open_rx (ingress st) = driver_alive st \<and>
     (driver_alive st \<longrightarrow>
        to_forward ne es = stack_in st @ queue (ingress st) @ waiting st) \<and>
     prefix (stack_in st) (to_forward ne es) \<and>
     spawned st = dns_jobs ne es \<and>
     (\<forall>n. cap = Some n \<longrightarrow> length (queue (ingress st)) \<le> n)"

lemma ingress_inv_init:
  "queue i = [] \<Longrightarrow> open_rx i \<Longrightarrow> ingress_inv ne [] (path_init i e)"
  by (simp add: ingress_inv_def path_init_def waiting_def to_forward_def dns_jobs_def map_filter_def)

lemma forward_inv:
  assumes "ingress_inv ne es st" and "blocked st = None" and "dns_job_of ne p = None"
    and "p = take READ_BUF_LEN b" and "forward ch p st = (g, st')"
  shows "ingress_inv ne (es @ [ReadPacket b]) st'"
proof -
  obtain r c where t: "try_send ch (ingress st) p = (r, c)" by fastforce
  show ?thesis
  proof (cases r)
    case Sent
    then show ?thesis
      using assms t send_sent [of "ingress st" p c]
      by (auto simp: ingress_inv_def forward_def to_forward_append dns_jobs_append waiting_def)
  next
    case Full
    then show ?thesis
      using assms t send_full [of "ingress st" p c]
      by (auto simp: ingress_inv_def forward_def to_forward_append dns_jobs_append waiting_def)
  next
    case Closed
    then show ?thesis
      using assms t send_closed [of "ingress st" p c]
      by (auto simp: ingress_inv_def forward_def to_forward_append dns_jobs_append waiting_def)
  qed
qed

lemma unblock_inv:
  assumes "ingress_inv ne es st" and "blocked st = Some p"
  shows "ingress_inv ne (es @ [Unblock]) (reader_unblock ch p st)"
proof -
  obtain r c where t: "try_send ch (ingress st) p = (r, c)" by fastforce
  show ?thesis
  proof (cases r)
    case Sent
    then show ?thesis
      using assms t send_sent [of "ingress st" p c]
      by (auto simp: ingress_inv_def reader_unblock_def to_forward_append dns_jobs_append waiting_def)
  next
    case Full
    then show ?thesis
      using assms t send_full [of "ingress st" p c]
      by (auto simp: ingress_inv_def reader_unblock_def to_forward_append dns_jobs_append waiting_def)
  next
    case Closed
    then show ?thesis
      using assms t send_closed [of "ingress st" p c]
      by (auto simp: ingress_inv_def reader_unblock_def to_forward_append dns_jobs_append waiting_def)
  qed
qed

lemma break_inv: "ingress_inv ne es st \<Longrightarrow> ingress_inv ne es (driver_break ch st)"
  using close_queue [of "ingress st"]
  by (fastforce simp: ingress_inv_def driver_break_def close_closed)

lemma driver_recv_inv:
  assumes "ingress_inv ne es st" and "driver_alive st"
  shows "ingress_inv ne (es @ [DriverRecv a]) (driver_ingress ch a st)"
proof -
  obtain r c where t: "recv_now ch (ingress st) = (r, c)" by fastforce
  show ?thesis
  proof (cases r)
    case None
    then show ?thesis
      using assms t recv_none [of "ingress st" c]
      by (auto simp: ingress_inv_def driver_ingress_def to_forward_append dns_jobs_append waiting_def)
  next
    case (Some p)
    have q: "queue (ingress st) = p # queue c" "open_rx c = open_rx (ingress st)"
      using recv_some t Some by auto
    show ?thesis
    proof (cases a)
      case True
      then show ?thesis
        using assms t Some q
        by (fastforce simp: ingress_inv_def driver_ingress_def to_forward_append dns_jobs_append
              waiting_def)
    next
      case False
      then show ?thesis
        using assms t Some q close_queue [of c]
        by (fastforce simp: ingress_inv_def driver_ingress_def driver_break_def close_closed
              to_forward_append dns_jobs_append)
    qed
  qed
qed

text \<open>The events of the other direction do not touch it.\<close>

lemma ingress_inv_frame:
  assumes "ingress_inv ne es st" and "to_forward ne [e] = []" and "dns_jobs ne [e] = []"
  shows "ingress_inv ne (es @ [e]) (st\<lparr>egress := c\<rparr>)"
    and "ingress_inv ne (es @ [e]) (st\<lparr>egress := c, written := w\<rparr>)"
  using assms by (auto simp: ingress_inv_def to_forward_append dns_jobs_append waiting_def)

lemma ingress_inv_step:
  assumes "ingress_inv ne es st" and "path_exec ne ch E e st = Some st'"
  shows "ingress_inv ne (es @ [e]) st'"
proof (cases e)
  case (ReadPacket b)
  then have b: "blocked st = None" using assms(2) by (simp split: if_splits)
  show ?thesis
  proof (cases "dns_job_of ne (take READ_BUF_LEN b)")
    case None
    then have "forward ch (take READ_BUF_LEN b) st = (fst (forward ch (take READ_BUF_LEN b) st), st')"
      using assms(2) ReadPacket b by (auto simp: reader_packet_eq split: if_splits)
    from forward_inv [OF assms(1) b None refl this] show ?thesis using ReadPacket by simp
  next
    case (Some j)
    then show ?thesis
      using assms ReadPacket b
      by (auto simp: reader_packet_eq ingress_inv_def to_forward_append dns_jobs_append waiting_def
            split: if_splits)
  qed
next
  case Unblock
  then show ?thesis using assms unblock_inv by (auto split: option.splits)
next
  case (DriverRecv a)
  then show ?thesis using assms driver_recv_inv by (auto split: if_splits)
next
  case (DriverNext n)
  have "ingress_inv ne (es @ [e]) st"
    using assms(1) DriverNext
    by (simp add: ingress_inv_def to_forward_append dns_jobs_append)
  then show ?thesis
    using assms DriverNext ingress_inv_frame(1) [OF assms(1), of e] break_inv
    by (auto simp: driver_egress_def split: if_splits option.splits)
next
  case (DnsReply p)
  then show ?thesis using assms ingress_inv_frame(1) [OF assms(1), of e] by (auto simp: dns_reply_def)
next
  case (WritePacket w)
  then show ?thesis
    using assms ingress_inv_frame [OF assms(1), of e]
    by (auto simp: writer_packet_def split: prod.splits option.splits)
qed

lemma ingress_run:
  "path_run ne ch E es st = Some st' \<Longrightarrow> ingress_inv ne pre st \<Longrightarrow> ingress_inv ne (pre @ es) st'"
proof (induction es arbitrary: pre st)
  case (Cons e es)
  then obtain s1 where "path_exec ne ch E e st = Some s1" "path_run ne ch E es s1 = Some st'"
    by (auto split: option.splits)
  with Cons.IH [of s1 "pre @ [e]"] ingress_inv_step [OF Cons.prems(2)] show ?case by simp
qed simp

end

section \<open>The egress direction\<close>

context fifo
begin

text \<open>
  Over an unbounded channel whose writer is alive, everything sent is written in order.
\<close>

definition egress_inv :: "path_event list \<Rightarrow> 'c tunnel \<Rightarrow> bool" where
  "egress_inv es st \<longleftrightarrow>
     open_rx (egress st) \<and> egress_input es = map fst (written st) @ queue (egress st)"

lemma egress_inv_init: "queue e = [] \<Longrightarrow> open_rx e \<Longrightarrow> egress_inv [] (path_init i e)"
  by (simp add: egress_inv_def path_init_def)

lemma egress_send:
  assumes "cap = None" and "open_rx c"
  shows "queue (snd (try_send ch c p)) = queue c @ [p] \<and> open_rx (snd (try_send ch c p))"
proof -
  obtain r c' where t: "try_send ch c p = (r, c')" by fastforce
  then show ?thesis
    using assms send_sent [of c p c'] send_full [of c p c'] send_closed [of c p c']
    by (cases r) auto
qed

lemma egress_inv_step:
  assumes "cap = None" and "egress_inv es st" and "path_exec ne I ch e st = Some st'"
  shows "egress_inv (es @ [e]) st'"
proof (cases e)
  case (ReadPacket b)
  have "egress (snd (forward I p st)) = egress st" "written (snd (forward I p st)) = written st" for p
    by (simp_all add: forward_def split: prod.splits send_result.splits)
  then show ?thesis
    using assms(2,3) ReadPacket
    by (auto simp: reader_packet_eq egress_inv_def egress_input_append
          split: if_splits option.splits)
next
  case Unblock
  have "egress (reader_unblock I p st) = egress st" "written (reader_unblock I p st) = written st" for p
    by (simp_all add: reader_unblock_def split: prod.splits send_result.splits)
  then show ?thesis
    using assms(2,3) Unblock
    by (auto simp: egress_inv_def egress_input_append split: option.splits)
next
  case (DriverRecv a)
  have "egress (driver_ingress I a st) = egress st" "written (driver_ingress I a st) = written st"
    by (simp_all add: driver_ingress_def driver_break_def split: prod.splits option.splits)
  then show ?thesis
    using assms(2,3) DriverRecv by (auto simp: egress_inv_def egress_input_append split: if_splits)
next
  case (DriverNext n)
  then show ?thesis
    using assms(2,3) egress_send [OF assms(1), of "egress st"]
    by (cases n)
      (auto simp: egress_inv_def egress_input_append driver_egress_def driver_break_def
         split: if_splits)
next
  case (DnsReply p)
  then show ?thesis
    using assms(2,3) egress_send [OF assms(1), of "egress st"]
    by (auto simp: egress_inv_def egress_input_append dns_reply_def)
next
  case (WritePacket w)
  obtain r c where t: "recv_now ch (egress st) = (r, c)" by fastforce
  then show ?thesis
    using assms(2,3) WritePacket recv_some [of "egress st" _ c] recv_none [of "egress st" c]
    by (cases r) (auto simp: egress_inv_def egress_input_append writer_packet_def)
qed

lemma egress_run:
  "cap = None \<Longrightarrow> path_run ne I ch es st = Some st' \<Longrightarrow> egress_inv pre st \<Longrightarrow>
   egress_inv (pre @ es) st'"
proof (induction es arbitrary: pre st)
  case (Cons e es)
  then obtain s1 where "path_exec ne I ch e st = Some s1" "path_run ne I ch es s1 = Some st'"
    by (auto split: option.splits)
  with Cons.IH [of s1 "pre @ [e]"] egress_inv_step [OF Cons.prems(1,3)] Cons.prems(1)
  show ?case by simp
qed simp

end

section \<open>The write loop\<close>

text \<open>
  At most four attempts; the packet is written exactly when one of them succeeds and every
  one before it was told to try again.
\<close>

lemma writer_loop_from:
  "retries \<le> 3 \<Longrightarrow>
   writer_loop wr retries \<longleftrightarrow>
   (\<exists>r. retries \<le> r \<and> r \<le> 3 \<and> 0 \<le> fst (wr r) \<and>
        (\<forall>j. retries \<le> j \<and> j < r \<longrightarrow> fst (wr j) < 0 \<and> snd (wr j) = EAGAIN))"
proof (induction wr retries rule: writer_loop.induct)
  case (1 wr retries)
  obtain n errno where w: "wr retries = (n, errno)" by fastforce
  show ?case
  proof (cases "0 \<le> n")
    case True
    then show ?thesis
      using w 1(2) by (auto simp: writer_loop.simps [of wr retries] intro!: exI [of _ retries])
  next
    case neg: False
    show ?thesis
    proof (cases "errno = EAGAIN \<and> retries < 3")
      case True
      let ?Q = "\<lambda>s r. s \<le> r \<and> r \<le> 3 \<and> 0 \<le> fst (wr r) \<and>
        (\<forall>j. s \<le> j \<and> j < r \<longrightarrow> fst (wr j) < 0 \<and> snd (wr j) = EAGAIN)"
      have "?Q retries r \<longleftrightarrow> ?Q (retries + 1) r" for r
      proof (cases "r = retries")
        case False
        have "(\<forall>j. retries \<le> j \<and> j < r \<longrightarrow> fst (wr j) < 0 \<and> snd (wr j) = EAGAIN) \<longleftrightarrow>
            (\<forall>j. retries + 1 \<le> j \<and> j < r \<longrightarrow> fst (wr j) < 0 \<and> snd (wr j) = EAGAIN)"
          if "retries < r"
          using that w neg True by (auto simp: le_eq_less_or_eq [of retries])
        then show ?thesis using False by auto
      qed (use w neg in simp)
      moreover have "writer_loop wr retries = writer_loop wr (retries + 1)"
        using w neg True by (simp add: writer_loop.simps [of wr retries])
      ultimately show ?thesis using 1(1) [OF refl] w neg True by simp
    next
      case False
      have "r = retries" if "retries \<le> r" "r \<le> 3"
        "\<forall>j. retries \<le> j \<and> j < r \<longrightarrow> fst (wr j) < 0 \<and> snd (wr j) = EAGAIN" for r
      proof (rule ccontr)
        assume "r \<noteq> retries"
        then have "retries < r" using that(1) by simp
        then show False using that(2,3) w False by auto
      qed
      moreover have "\<not> writer_loop wr retries"
        using w neg False by (auto simp: writer_loop.simps [of wr retries])
      ultimately show ?thesis using w neg by (metis fst_conv)
    qed
  qed
qed

section \<open>Properties\<close>

text \<open>C12: The ingress path is a FIFO without loss: in every interleaving of the reader and the driver
  over a bounded channel, the packets to forward are, in order, those the stack has taken,
  those in the channel and the one whose send waits; the channel never exceeds its bound;
  every DNS query is handed to its own task; and a driver that gave up has taken a prefix.\<close>

theorem ingress_is_fifo:
  assumes "fifo I queue open_rx cap" and "queue i = []" and "open_rx i"
    and "path_run ne I E es (path_init i e) = Some st"
  shows "(driver_alive st \<longrightarrow> to_forward ne es = stack_in st @ queue (ingress st) @ waiting st) \<and>
    prefix (stack_in st) (to_forward ne es) \<and> spawned st = dns_jobs ne es \<and>
    (\<forall>n. cap = Some n \<longrightarrow> length (queue (ingress st)) \<le> n)"
  using fifo.ingress_run [OF assms(1,4) fifo.ingress_inv_init [OF assms(1-3)]]
  by (simp add: fifo.ingress_inv_def [OF assms(1)])

definition empty_chan :: list_chan where
  "empty_chan = \<lparr>buffer = [], rx_alive = True\<rparr>"

theorem ingress_is_fifo_witness:
  "\<exists>st. path_run Little (list_channel (Some 1)) (list_channel None)
       [ReadPacket [1], ReadPacket [2], DriverRecv True, Unblock] (path_init empty_chan empty_chan) = Some st \<and>
     driver_alive st \<and> [[1], [2]] = stack_in st @ buffer (ingress st) @ waiting st"
proof -
  have np: "parse_udp_packet Little [b] = Some None" for b
    by (simp add: parse_udp_packet_def)
  have t: "take READ_BUF_LEN [b] = [b]" for b :: byte by (simp add: READ_BUF_LEN_def)
  obtain st where r: "path_run Little (list_channel (Some 1)) (list_channel None)
       [ReadPacket [1], ReadPacket [2], DriverRecv True, Unblock] (path_init empty_chan empty_chan) = Some st"
    "driver_alive st"
    by (simp add: path_init_def empty_chan_def reader_packet_def np t forward_def list_channel_def
        driver_ingress_def reader_unblock_def)
  have "to_forward Little [ReadPacket [1], ReadPacket [2], DriverRecv True, Unblock] = [[1], [2]]"
    by (simp add: to_forward_def dns_job_of_def np t)
  with ingress_is_fifo [OF list_fifo.fifo_axioms _ _ r(1)] r show ?thesis
    by (simp add: empty_chan_def)
qed

text \<open>C13: The egress path is a FIFO without loss: over an unbounded channel, the packets of the stack and
  the DNS replies are, in the order they were sent, those given to the kernel and those
  waiting for the writer.\<close>

theorem egress_is_fifo:
  assumes "fifo E queue open_rx None" and "queue e = []" and "open_rx e"
    and "path_run ne I E es (path_init i e) = Some st"
  shows "egress_input es = map fst (written st) @ queue (egress st)"
  using fifo.egress_run [OF assms(1) refl assms(4) fifo.egress_inv_init [OF assms(1-3)]]
  by (simp add: fifo.egress_inv_def [OF assms(1)])

theorem egress_is_fifo_witness:
  "\<exists>st. path_run Little (list_channel (Some 1)) (list_channel None)
       [DriverNext (Some [1]), DnsReply [2], WritePacket (\<lambda>_. (1, 0))] (path_init empty_chan empty_chan) = Some st \<and>
     [[1], [2]] = map fst (written st) @ buffer (egress st)"
proof -
  obtain st where r: "path_run Little (list_channel (Some 1)) (list_channel None)
       [DriverNext (Some [1]), DnsReply [2], WritePacket (\<lambda>_. (1, 0))] (path_init empty_chan empty_chan) = Some st"
    by (simp add: path_init_def empty_chan_def list_channel_def driver_egress_def dns_reply_def
        writer_packet_def)
  with egress_is_fifo [OF list_fifo.fifo_axioms _ _ r] show ?thesis by (simp add: empty_chan_def)
qed

text \<open>C33: The write loop makes at most four attempts: a packet is written exactly when one of the first
  four attempts succeeds and every attempt before it failed with EAGAIN; any other error drops
  the packet at once.\<close>

theorem writer_gives_up:
  "writer_loop wr 0 \<longleftrightarrow>
   (\<exists>r\<le>3. 0 \<le> fst (wr r) \<and> list_all (\<lambda>j. fst (wr j) < 0 \<and> snd (wr j) = EAGAIN) [0..<r])"
  using writer_loop_from [of 0 wr] by (auto simp: list_all_iff)

end
