(* ===== verification/Tunnel_Run.thy ===== *)
theory Tunnel_Run
  imports Tunnel Socks5
begin

text \<open>
  The whole of \<open>run_tun2socks\<close> (\<open>mihomo-android-ffi/src/tun2socks.rs\<close>): the control of the TUN
  reader (its outer loop with the flag, its inner loop over the packets, the blocked send and
  the sleep), the accept loop, the TCP runner, and the end, which aborts the other tasks.  The
  packets themselves move as in \<open>Tunnel\<close>.  A step of a task is a rule of \<open>run_step\<close>; the label
  holds what the environment answers (the flag that is loaded, the bytes that are read, the
  next item of a stream), so a run is a list of labels in any order.
\<close>

section \<open>Model\<close>

text \<open>
  Where the reader is: before the flag check, in the inner loop (with \<open>did_work\<close>), waiting
  for room in the channel, in the sleep, or out of its loop.
\<close>

datatype reader_pc = Top | Draining bool | Sending | Sleeping | Finished

text \<open>A spawned \<open>handle_tcp_stream\<close>: the stream, its two addresses and the address of the proxy.\<close>

type_synonym 'x relay = "'x \<times> socket_addr \<times> socket_addr \<times> socket_addr"

record ('c, 'x) run =
  pc :: reader_pc
  path :: "'c tunnel"
  runner_alive :: bool
  acceptor_alive :: bool
  writer_alive :: bool
  relays :: "'x relay list"
  aborted :: bool

definition run_init :: "'c \<Rightarrow> 'c \<Rightarrow> ('c, 'x) run" where
  "run_init i e =
     \<lparr>pc = Top, path = path_init i e, runner_alive = True, acceptor_alive = True,
      writer_alive = True, relays = [], aborted = False\<rparr>"

datatype 'x run_event =
    LoadFlag bool
  | Read packet
  | Room
  | Wake
  | Teardown
  | RunnerEnds
  | StackSend bool
  | StackNext "packet option"
  | IngressClosed
  | Accept "('x \<times> socket_addr \<times> socket_addr) option"
  | WriteNext "nat \<Rightarrow> int \<times> int"
  | Reply packet
  | DropRunner
  | DropDriver
  | DropAcceptor
  | DropWriter

text \<open>Where one packet leaves the reader, whose inner loop goes on or not.\<close>

definition after_packet :: "bool \<Rightarrow> 'c tunnel \<Rightarrow> reader_pc" where
  "after_packet go p =
     (if blocked p \<noteq> None then Sending else if go then Draining True else Top)"

text \<open>
  An aborted task may still finish what it is doing before tokio drops it, so the drop is a
  step of its own, and until then the task's other steps remain possible.  Dropping the driver
  or the writer drops its receiver.  The reader holds the only sender of the ingress channel: once
  it has left, the driver that finds the channel empty leaves its loop.
\<close>

inductive run_step ::
  "endian \<Rightarrow> 'c channel \<Rightarrow> 'c channel \<Rightarrow> socket_addr \<Rightarrow> 'x run_event \<Rightarrow>
   ('c, 'x) run \<Rightarrow> ('c, 'x) run \<Rightarrow> bool"
  for ne :: endian and I :: "'c channel" and E :: "'c channel" and socks :: socket_addr where
    load_set: "pc r = Top \<Longrightarrow>
      run_step ne I E socks (LoadFlag True) r (r\<lparr>pc := Draining False\<rparr>)"
  | load_clear: "pc r = Top \<Longrightarrow>
      run_step ne I E socks (LoadFlag False) r (r\<lparr>pc := Finished\<rparr>)"
  | read_none: "pc r = Draining did_work \<Longrightarrow>
      run_step ne I E socks (Read []) r (r\<lparr>pc := if did_work then Top else Sleeping\<rparr>)"
  | read_packet: "pc r = Draining did_work \<Longrightarrow> bytes \<noteq> [] \<Longrightarrow>
      reader_packet ne I (take READ_BUF_LEN bytes) (path r) = Some (go, p) \<Longrightarrow>
      run_step ne I E socks (Read bytes) r (r\<lparr>path := p, pc := after_packet go p\<rparr>)"
  | room: "pc r = Sending \<Longrightarrow> blocked (path r) = Some frame \<Longrightarrow>
      p = reader_unblock I frame (path r) \<Longrightarrow>
      run_step ne I E socks Room r (r\<lparr>path := p, pc := after_packet True p\<rparr>)"
  | wake: "pc r = Sleeping \<Longrightarrow> run_step ne I E socks Wake r (r\<lparr>pc := Top\<rparr>)"
  | teardown: "pc r = Finished \<Longrightarrow> \<not> aborted r \<Longrightarrow>
      run_step ne I E socks Teardown r (r\<lparr>aborted := True\<rparr>)"
  | runner_ends: "runner_alive r \<Longrightarrow>
      run_step ne I E socks RunnerEnds r (r\<lparr>runner_alive := False\<rparr>)"
  | stack_send: "driver_alive (path r) \<Longrightarrow>
      run_step ne I E socks (StackSend accepted) r (r\<lparr>path := driver_ingress I accepted (path r)\<rparr>)"
  | stack_next: "driver_alive (path r) \<Longrightarrow>
      run_step ne I E socks (StackNext item) r (r\<lparr>path := driver_egress I E item (path r)\<rparr>)"
  | ingress_closed: "driver_alive (path r) \<Longrightarrow> pc r = Finished \<Longrightarrow>
      recv_now I (ingress (path r)) = (None, c) \<Longrightarrow>
      run_step ne I E socks IngressClosed r (r\<lparr>path := driver_break I ((path r)\<lparr>ingress := c\<rparr>)\<rparr>)"
  | accept: "acceptor_alive r \<Longrightarrow>
      run_step ne I E socks (Accept (Some (stream, local, remote))) r
        (r\<lparr>relays := relays r @ [(stream, local, remote, socks)]\<rparr>)"
  | accept_end: "acceptor_alive r \<Longrightarrow>
      run_step ne I E socks (Accept None) r (r\<lparr>acceptor_alive := False\<rparr>)"
  | write_next: "writer_alive r \<Longrightarrow>
      run_step ne I E socks (WriteNext wr) r (r\<lparr>path := writer_packet E wr (path r)\<rparr>)"
  | reply: "run_step ne I E socks (Reply pkt) r (r\<lparr>path := dns_reply E pkt (path r)\<rparr>)"
  | drop_runner: "aborted r \<Longrightarrow> runner_alive r \<Longrightarrow>
      run_step ne I E socks DropRunner r (r\<lparr>runner_alive := False\<rparr>)"
  | drop_driver: "aborted r \<Longrightarrow> driver_alive (path r) \<Longrightarrow>
      run_step ne I E socks DropDriver r (r\<lparr>path := driver_break I (path r)\<rparr>)"
  | drop_acceptor: "aborted r \<Longrightarrow> acceptor_alive r \<Longrightarrow>
      run_step ne I E socks DropAcceptor r (r\<lparr>acceptor_alive := False\<rparr>)"
  | drop_writer: "aborted r \<Longrightarrow> writer_alive r \<Longrightarrow>
      run_step ne I E socks DropWriter r
        (r\<lparr>writer_alive := False, path := (path r)\<lparr>egress := close_rx E (egress (path r))\<rparr>\<rparr>)"

inductive run_steps ::
  "endian \<Rightarrow> 'c channel \<Rightarrow> 'c channel \<Rightarrow> socket_addr \<Rightarrow> 'x run_event list \<Rightarrow>
   ('c, 'x) run \<Rightarrow> ('c, 'x) run \<Rightarrow> bool"
  for ne :: endian and I :: "'c channel" and E :: "'c channel" and socks :: socket_addr where
    none: "run_steps ne I E socks [] r r"
  | snoc: "run_steps ne I E socks es r r' \<Longrightarrow> run_step ne I E socks e r' r'' \<Longrightarrow>
      run_steps ne I E socks (es @ [e]) r r''"

declare run_step.intros [intro]

inductive_cases run_steps_nilE [elim!]: "run_steps ne I E socks [] r r'"

lemmas run_step_cases = run_step.cases [consumes 1]

section \<open>Invariants\<close>

text \<open>The tasks beside the reader do not touch the frame it waits with.\<close>

lemma blocked_frame [simp]:
  "blocked (driver_ingress I a p) = blocked p" "blocked (driver_break I p) = blocked p"
  "blocked (driver_egress I E item p) = blocked p" "blocked (writer_packet E wr p) = blocked p"
  "blocked (dns_reply E pkt p) = blocked p"
  by (simp_all add: driver_ingress_def driver_break_def driver_egress_def writer_packet_def
      dns_reply_def split: prod.splits option.splits)

definition run_ok :: "('c, 'x) run \<Rightarrow> bool" where
  "run_ok r \<longleftrightarrow> (blocked (path r) \<noteq> None \<longleftrightarrow> pc r = Sending) \<and>
     (aborted r \<longrightarrow> pc r = Finished) \<and> (\<not> writer_alive r \<longrightarrow> aborted r)"

lemma run_init_ok: "run_ok (run_init i e)"
  by (simp add: run_ok_def run_init_def path_init_def)

lemma run_step_ok: "run_step ne I E socks e r r' \<Longrightarrow> run_ok r \<Longrightarrow> run_ok r'"
  by (induction rule: run_step.induct) (auto simp: run_ok_def after_packet_def)

text \<open>The connections the listener handed out.\<close>

fun accepted_of :: "'x run_event \<Rightarrow> ('x \<times> socket_addr \<times> socket_addr) list" where
  "accepted_of (Accept (Some c)) = [c]"
| "accepted_of _ = []"

definition relay_of :: "socket_addr \<Rightarrow> 'x \<times> socket_addr \<times> socket_addr \<Rightarrow> 'x relay" where
  "relay_of socks c = (case c of (stream, local, remote) \<Rightarrow> (stream, local, remote, socks))"

lemma run_step_relays:
  "run_step ne I E socks e r r' \<Longrightarrow> relays r' = relays r @ map (relay_of socks) (accepted_of e)"
  by (induction rule: run_step.induct) (simp_all add: relay_of_def)

lemma run_steps_ok: "run_steps ne I E socks es r r' \<Longrightarrow> run_ok r \<Longrightarrow> run_ok r'"
  by (induction rule: run_steps.induct) (auto intro: run_step_ok)

lemma run_steps_relays:
  "run_steps ne I E socks es r r' \<Longrightarrow>
   relays r' = relays r @ map (relay_of socks) (concat (map accepted_of es))"
  by (induction rule: run_steps.induct) (auto dest: run_step_relays)

section \<open>Refinement of the packet path\<close>

text \<open>The events of \<open>Tunnel\<close> a step performs; a dropped driver has left its loop.\<close>

fun path_events :: "'x run_event \<Rightarrow> path_event list" where
  "path_events (Read bytes) = (if bytes = [] then [] else [ReadPacket bytes])"
| "path_events Room = [Unblock]"
| "path_events (StackSend a) = [DriverRecv a]"
| "path_events (StackNext item) = [DriverNext item]"
| "path_events IngressClosed = [DriverRecv True, DriverNext None]"
| "path_events (WriteNext wr) = [WritePacket wr]"
| "path_events (Reply pkt) = [DnsReply pkt]"
| "path_events DropDriver = [DriverNext None]"
| "path_events _ = []"

lemma path_run_append:
  "path_run ne I E (es @ fs) st =
     (case path_run ne I E es st of None \<Rightarrow> None | Some st' \<Rightarrow> path_run ne I E fs st')"
  by (induction es arbitrary: st) (auto split: option.splits)

lemma run_step_path:
  "run_step ne I E socks e r r' \<Longrightarrow> run_ok r \<Longrightarrow> e \<noteq> DropWriter \<Longrightarrow>
   path_run ne I E (path_events e) (path r) = Some (path r')"
  by (induction rule: run_step.induct)
    (auto simp: run_ok_def driver_egress_def driver_ingress_def)

lemma run_steps_path:
  "run_steps ne I E socks es r r' \<Longrightarrow> run_ok r \<Longrightarrow> DropWriter \<notin> set es \<Longrightarrow>
   path_run ne I E (concat (map path_events es)) (path r) = Some (path r')"
proof (induction rule: run_steps.induct)
  case (snoc es r r' e r'')
  then show ?case
    using run_step_path [OF snoc.hyps(2)] run_steps_ok [OF snoc.hyps(1)]
    by (auto simp: path_run_append)
qed simp

text \<open>What a step reads from the kernel, and what it sends to the writer.\<close>

fun reads_of :: "'x run_event \<Rightarrow> packet list" where
  "reads_of (Read bytes) = (if bytes = [] then [] else [take READ_BUF_LEN bytes])"
| "reads_of _ = []"

fun sends_of :: "'x run_event \<Rightarrow> packet list" where
  "sends_of (StackNext (Some p)) = [p]"
| "sends_of (Reply p) = [p]"
| "sends_of _ = []"

lemma run_reads: "packets_read (concat (map path_events es)) = concat (map reads_of es)"
proof (induction es)
  case (Cons e es)
  then show ?case by (cases e) (simp_all add: packets_read_append)
qed simp

lemma run_sends: "egress_input (concat (map path_events es)) = concat (map sends_of es)"
proof (induction es)
  case (Cons e es)
  have "egress_input (path_events e) = sends_of e"
    by (cases e rule: sends_of.cases) simp_all
  with Cons show ?case by (simp add: egress_input_append)
qed simp

text \<open>The invariants of both directions hold in every run; dropping the writer touches one of them.\<close>

lemma drop_writer_path:
  "run_step ne I E socks DropWriter r r' \<Longrightarrow>
   writer_alive r \<and> \<not> writer_alive r' \<and> path r' = (path r)\<lparr>egress := close_rx E (egress (path r))\<rparr>"
  by (auto elim: run_step.cases)

lemma run_ingress:
  "run_steps ne I E socks es (run_init i e) r \<Longrightarrow> fifo I q o' cap \<Longrightarrow>
   fifo.ingress_inv q o' cap ne [] (path_init i e) \<Longrightarrow>
   fifo.ingress_inv q o' cap ne (concat (map path_events es)) (path r)"
proof (induction es "run_init i e :: ('a, 'b) run" r rule: run_steps.induct)
  case none
  then show ?case by (simp add: run_init_def)
next
  case (snoc es r' ev r'')
  then have inv: "fifo.ingress_inv q o' cap ne (concat (map path_events es)) (path r')" by blast
  have ok: "run_ok r'" using run_steps_ok [OF snoc.hyps(1) run_init_ok] .
  show ?case
  proof (cases "ev = DropWriter")
    case True
    with drop_writer_path snoc.hyps(3) inv show ?thesis
      by (fastforce simp: fifo.ingress_inv_def [OF snoc.prems(1)] waiting_def)
  next
    case False
    from fifo.ingress_run [OF snoc.prems(1) run_step_path [OF snoc.hyps(3) ok False] inv]
    show ?thesis by simp
  qed
qed

lemma writer_gone:
  "run_step ne I E socks ev r r' \<Longrightarrow> \<not> writer_alive r \<Longrightarrow>
   \<not> writer_alive r' \<and> written (path r') = written (path r)"
  by (induction rule: run_step.induct)
    (auto simp: driver_ingress_def driver_egress_def driver_break_def dns_reply_def reader_packet_eq
       reader_unblock_def forward_def split: prod.splits option.splits send_result.splits)

lemma writer_stays:
  "run_step ne I E socks ev r r' \<Longrightarrow> ev \<noteq> DropWriter \<Longrightarrow> writer_alive r' = writer_alive r"
  by (induction rule: run_step.induct) simp_all

lemma run_egress:
  "run_steps ne I E socks es (run_init i e) r \<Longrightarrow> fifo E q o' None \<Longrightarrow>
   fifo.egress_inv q o' [] (path_init i e) \<Longrightarrow>
   (if writer_alive r then fifo.egress_inv q o' (concat (map path_events es)) (path r)
    else prefix (map fst (written (path r))) (concat (map sends_of es)))"
proof (induction es "run_init i e :: ('a, 'b) run" r rule: run_steps.induct)
  case none
  then show ?case by (simp add: run_init_def)
next
  case (snoc es r' ev r'')
  then have inv: "if writer_alive r' then fifo.egress_inv q o' (concat (map path_events es)) (path r')
    else prefix (map fst (written (path r'))) (concat (map sends_of es))" by blast
  have ok: "run_ok r'" using run_steps_ok [OF snoc.hyps(1) run_init_ok] .
  consider "ev = DropWriter" | "ev \<noteq> DropWriter" "writer_alive r'" | "\<not> writer_alive r'" by blast
  then show ?case
  proof cases
    case 1
    with drop_writer_path snoc.hyps(3) have d: "writer_alive r'" "\<not> writer_alive r''"
      "written (path r'') = written (path r')" by fastforce+
    with inv have "concat (map sends_of es) = map fst (written (path r')) @ q (egress (path r'))"
      by (simp add: fifo.egress_inv_def [OF snoc.prems(1)] run_sends)
    with d 1 show ?thesis by simp
  next
    case 2
    from fifo.egress_run [OF snoc.prems(1) refl run_step_path [OF snoc.hyps(3) ok 2(1)]] inv 2
    show ?thesis using writer_stays [OF snoc.hyps(3) 2(1)] by simp
  next
    case 3
    with writer_gone [OF snoc.hyps(3) 3] inv show ?thesis by (simp add: prefix_def) (metis append.assoc)
  qed
qed

section \<open>When the reader sees a stop\<close>

fun reader_event :: "'x run_event \<Rightarrow> bool" where
  "reader_event (LoadFlag b) = True"
| "reader_event (Read bytes) = True"
| "reader_event Room = True"
| "reader_event Wake = True"
| "reader_event _ = False"

text \<open>The flag is clear and the kernel has no packet.\<close>

fun quiet :: "'x run_event \<Rightarrow> bool" where
  "quiet (LoadFlag b) = (\<not> b)"
| "quiet (Read bytes) = (bytes = [])"
| "quiet _ = True"

fun pc_rank :: "reader_pc \<Rightarrow> nat" where
  "pc_rank Finished = 0"
| "pc_rank Top = 1"
| "pc_rank Sleeping = 2"
| "pc_rank (Draining did_work) = (if did_work then 2 else 3)"
| "pc_rank Sending = 0"

lemma pc_rank_le: "pc_rank c \<le> 3"
  by (cases c) auto

lemma quiet_step:
  "run_step ne I E socks e r r' \<Longrightarrow> quiet e \<Longrightarrow> pc r \<noteq> Sending \<Longrightarrow>
   pc r' \<noteq> Sending \<and> pc_rank (pc r') + (if reader_event e then 1 else 0) = pc_rank (pc r)"
  by (induction rule: run_step.induct) auto

lemma quiet_steps:
  "run_steps ne I E socks es r r' \<Longrightarrow> list_all quiet es \<Longrightarrow> pc r \<noteq> Sending \<Longrightarrow>
   pc r' \<noteq> Sending \<and> pc_rank (pc r') + length (filter reader_event es) = pc_rank (pc r)"
proof (induction rule: run_steps.induct)
  case (snoc es r r' e r'')
  then show ?case using quiet_step [OF snoc.hyps(2)] by (auto split: if_splits)
qed simp

lemma quiet_enabled:
  assumes "pc r \<noteq> Sending" and "pc r \<noteq> Finished"
  shows "\<exists>e r'. reader_event e \<and> quiet e \<and> run_step ne I E socks e r r'"
proof (cases "pc r")
  case Top
  then show ?thesis by (intro exI [of _ "LoadFlag False"]) (auto intro: load_clear)
next
  case (Draining w)
  then show ?thesis by (intro exI [of _ "Read []"]) (auto intro: read_none)
next
  case Sleeping
  then show ?thesis by (intro exI [of _ Wake]) (auto intro: wake)
qed (use assms in simp_all)

text \<open>A burst of packets keeps the reader in its inner loop, where it does not load the flag.\<close>

lemma read_burst:
  assumes "pc r = Draining w" and "blocked (path r) = None"
    and "list_all (\<lambda>b. b \<noteq> [] \<and> dns_job_of ne (take READ_BUF_LEN b) \<noteq> None) ps"
  shows "\<exists>r' w'. run_steps ne I E socks (map Read ps) r r' \<and> pc r' = Draining w' \<and>
    blocked (path r') = None \<and>
    spawned (path r') = spawned (path r) @ map (\<lambda>b. the (dns_job_of ne (take READ_BUF_LEN b))) ps"
  using assms(3)
proof (induction ps rule: rev_induct)
  case Nil
  then show ?case using assms(1,2) by (auto intro: run_steps.none)
next
  case (snoc b ps)
  then obtain r' w' where r': "run_steps ne I E socks (map Read ps) r r'" "pc r' = Draining w'"
    "blocked (path r') = None"
    "spawned (path r') = spawned (path r) @ map (\<lambda>b. the (dns_job_of ne (take READ_BUF_LEN b))) ps"
    by auto
  obtain j where j: "dns_job_of ne (take READ_BUF_LEN b) = Some j" "b \<noteq> []" using snoc.prems by auto
  let ?p = "(path r')\<lparr>spawned := spawned (path r') @ [j]\<rparr>"
  have "run_step ne I E socks (Read b) r' (r'\<lparr>path := ?p, pc := after_packet True ?p\<rparr>)"
    using r'(2) j by (intro read_packet) (simp_all add: reader_packet_eq)
  from run_steps.snoc [OF r'(1) this]
  have "run_steps ne I E socks (map Read (ps @ [b])) r (r'\<lparr>path := ?p, pc := Draining True\<rparr>)"
    using r'(3) by (simp add: after_packet_def)
  then show ?case
    using r'(3,4) j(1) by (intro exI [of _ "r'\<lparr>path := ?p, pc := Draining True\<rparr>"] exI [of _ True]) simp
qed

section \<open>After the teardown\<close>

definition workers_left :: "('c, 'x) run \<Rightarrow> nat" where
  "workers_left r =
     of_bool (runner_alive r) + of_bool (driver_alive (path r)) + of_bool (acceptor_alive r)
     + of_bool (writer_alive r)"

fun drops :: "'x run_event \<Rightarrow> bool" where
  "drops DropRunner = True"
| "drops DropDriver = True"
| "drops DropAcceptor = True"
| "drops DropWriter = True"
| "drops _ = False"

text \<open>What the workers have done so far.\<close>

definition done_work :: "('c, 'x) run \<Rightarrow> 'x relay list \<times> packet list \<times> dns_job list \<times> (packet \<times> bool) list" where
  "done_work r = (relays r, stack_in (path r), spawned (path r), written (path r))"

lemma driver_alive_le:
  "driver_alive (driver_ingress I a p) \<Longrightarrow> driver_alive p"
  "driver_alive (driver_egress I E item p) \<Longrightarrow> driver_alive p"
  by (auto simp: driver_ingress_def driver_egress_def driver_break_def
      split: prod.splits option.splits if_splits)

lemma driver_alive_frame [simp]:
  "driver_alive (writer_packet E wr p) = driver_alive p"
  "driver_alive (dns_reply E pkt p) = driver_alive p" "\<not> driver_alive (driver_break I p)"
  by (simp_all add: writer_packet_def dns_reply_def driver_break_def split: prod.splits option.splits)

lemma torn_step:
  "run_step ne I E socks e r r' \<Longrightarrow> aborted r \<Longrightarrow> run_ok r \<Longrightarrow>
   aborted r' \<and> workers_left r' + of_bool (drops e) \<le> workers_left r \<and>
   (workers_left r = 0 \<longrightarrow> done_work r' = done_work r)"
  by (induction rule: run_step.induct)
    (auto simp: workers_left_def run_ok_def done_work_def dns_reply_def
       dest: driver_alive_le)

lemma torn_steps:
  "run_steps ne I E socks es r r' \<Longrightarrow> aborted r \<Longrightarrow> run_ok r \<Longrightarrow>
   aborted r' \<and> workers_left r' + length (filter drops es) \<le> workers_left r \<and>
   (workers_left r = 0 \<longrightarrow> done_work r' = done_work r)"
proof (induction rule: run_steps.induct)
  case (snoc es r r' e r'')
  then show ?case
    using torn_step [OF snoc.hyps(2)] run_steps_ok [OF snoc.hyps(1)] by (auto split: if_splits)
qed simp

lemma drop_enabled:
  assumes "aborted r" and "workers_left r \<noteq> 0"
  shows "\<exists>e r'. drops e \<and> run_step ne I E socks e r r'"
proof -
  consider "runner_alive r" | "driver_alive (path r)" | "acceptor_alive r" | "writer_alive r"
    using assms(2) by (auto simp: workers_left_def split: if_splits)
  then show ?thesis
  proof cases
    case 1
    from drop_runner [OF assms(1) this] show ?thesis by (metis drops.simps(1))
  next
    case 2
    from drop_driver [OF assms(1) this] show ?thesis by (metis drops.simps(2))
  next
    case 3
    from drop_acceptor [OF assms(1) this] show ?thesis by (metis drops.simps(3))
  next
    case 4
    from drop_writer [OF assms(1) this] show ?thesis by (metis drops.simps(4))
  qed
qed

section \<open>Properties\<close>

text \<open>
  The tasks of \<open>run_tun2socks\<close> refine the packet path: up to the moment the writer is dropped, the
  packets are where a run of the packet path over the corresponding events puts them.
\<close>

lemma run_refines_path:
  assumes "run_steps ne I E socks es (run_init i e) r" and "DropWriter \<notin> set es"
  shows "path_run ne I E (concat (map path_events es)) (path_init i e) = Some (path r)"
  using run_steps_path [OF assms(1) run_init_ok assms(2)] by (simp add: run_init_def)

text \<open>C34: Both directions of a running tunnel are FIFOs without loss, whatever its tasks do and in any
  order.  The packets that were read and are no DNS queries are, in order, those the TCP stack
  has taken, those in the channel and the one whose send waits, and those the stack has taken
  are a prefix of them also after the driver gave up or was dropped; each DNS query became one
  task; the channel keeps its bound.  The packets the stack and the DNS tasks sent are, in
  order, those given to the kernel and those waiting for the writer, and after the writer was
  dropped those given to the kernel are a prefix of them.\<close>

theorem run_is_fifo:
  assumes "fifo I qI oI cap" and "qI i = []" and "oI i"
    and "fifo E qE oE None" and "qE e = []" and "oE e"
    and "run_steps ne I E socks es (run_init i e) r"
  defines "read \<equiv> concat (map reads_of es)" and "out \<equiv> concat (map sends_of es)"
  shows "(driver_alive (path r) \<longrightarrow>
      filter (\<lambda>p. dns_job_of ne p = None) read =
        stack_in (path r) @ qI (ingress (path r)) @ waiting (path r)) \<and>
    prefix (stack_in (path r)) (filter (\<lambda>p. dns_job_of ne p = None) read) \<and>
    map Some (spawned (path r)) = filter (\<lambda>j. j \<noteq> None) (map (dns_job_of ne) read) \<and>
    (\<forall>n. cap = Some n \<longrightarrow> length (qI (ingress (path r))) \<le> n) \<and>
    (writer_alive r \<longrightarrow> out = map fst (written (path r)) @ qE (egress (path r))) \<and>
    prefix (map fst (written (path r))) out"
proof -
  note i = run_ingress [OF assms(7,1) fifo.ingress_inv_init [OF assms(1-3)]]
  note e = run_egress [OF assms(7,4) fifo.egress_inv_init [OF assms(4-6)]]
  have jobs: "map Some (List.map_filter f xs) = filter (\<lambda>j. j \<noteq> None) (map f xs)"
    for f :: "packet \<Rightarrow> dns_job option" and xs
    by (induction xs) (auto simp: map_filter_simps split: option.splits)
  show ?thesis
    using i e unfolding fifo.ingress_inv_def [OF assms(1)] fifo.egress_inv_def [OF assms(4)]
    by (auto simp: read_def out_def to_forward_def dns_jobs_def run_reads run_sends jobs split: if_splits)
qed

definition sample_run_events :: "nat run_event list" where
  "sample_run_events =
     [LoadFlag True, Accept (Some (7, (V4 10 0 0 1, 4000), (V4 1 2 3 4, 80))), Reply [1], Read []]"

lemma sample_run:
  "\<exists>r. run_steps Little (list_channel (Some 1)) (list_channel None) (V4 127 0 0 1, 7890)
       sample_run_events (run_init empty_chan empty_chan) r \<and> pc r = Sleeping \<and>
     relays r = [(7, (V4 10 0 0 1, 4000), (V4 1 2 3 4, 80), (V4 127 0 0 1, 7890))]"
proof -
  let ?S = "run_steps Little (list_channel (Some 1)) (list_channel None) (V4 127 0 0 1, 7890)"
  let ?r = "run_init empty_chan empty_chan :: (list_chan, nat) run"
  let ?r1 = "?r\<lparr>pc := Draining False\<rparr>"
  let ?r2 = "?r1\<lparr>relays := relays ?r1 @ [(7, (V4 10 0 0 1, 4000), (V4 1 2 3 4, 80), (V4 127 0 0 1, 7890))]\<rparr>"
  let ?r3 = "?r2\<lparr>path := dns_reply (list_channel None) [1] (path ?r2)\<rparr>"
  have "?S ([] @ [LoadFlag True]) ?r ?r1"
    by (rule run_steps.snoc [OF run_steps.none], rule load_set) (simp add: run_init_def)
  then have "?S (([] @ [LoadFlag True]) @ [Accept (Some (7, (V4 10 0 0 1, 4000), (V4 1 2 3 4, 80)))]) ?r ?r2"
    by (rule run_steps.snoc) (rule accept, simp add: run_init_def)
  then have "?S ((([] @ [LoadFlag True]) @ [Accept (Some (7, (V4 10 0 0 1, 4000), (V4 1 2 3 4, 80)))])
      @ [Reply [1]]) ?r ?r3"
    by (rule run_steps.snoc) (rule reply)
  then have "?S (((([] @ [LoadFlag True]) @ [Accept (Some (7, (V4 10 0 0 1, 4000), (V4 1 2 3 4, 80)))])
      @ [Reply [1]]) @ [Read []]) ?r (?r3\<lparr>pc := if False then Top else Sleeping\<rparr>)"
    by (rule run_steps.snoc) (rule read_none, simp add: run_init_def)
  then show ?thesis
    by (intro exI [of _ "?r3\<lparr>pc := Sleeping\<rparr>"]) (simp add: sample_run_events_def run_init_def)
qed

theorem run_is_fifo_witness:
  "\<exists>r. run_steps Little (list_channel (Some 1)) (list_channel None) (V4 127 0 0 1, 7890)
       sample_run_events (run_init empty_chan empty_chan) r \<and>
     [[1]] = map fst (written (path r)) @ buffer (egress (path r)) \<and> spawned (path r) = []"
proof -
  obtain r where r: "run_steps Little (list_channel (Some 1)) (list_channel None) (V4 127 0 0 1, 7890)
       sample_run_events (run_init empty_chan empty_chan) r" "pc r = Sleeping"
    using sample_run by blast
  have "writer_alive r" using run_steps_ok [OF r(1) run_init_ok] r(2) by (auto simp: run_ok_def)
  with run_is_fifo [OF list_fifo.fifo_axioms _ _ list_fifo.fifo_axioms _ _ r(1)] r(1) show ?thesis
    by (auto simp: sample_run_events_def empty_chan_def)
qed

text \<open>The control of the tunnel: in every run, the reader waits for room exactly while a frame is
  blocked, the teardown comes only after the reader has left its loop, the writer lives until
  then, and every accepted connection is handed to one relay task, in order and with its own
  addresses.\<close>

lemma run_control:
  assumes "run_steps ne I E socks es (run_init i e) r"
  shows "(blocked (path r) \<noteq> None \<longleftrightarrow> pc r = Sending) \<and> (aborted r \<longrightarrow> pc r = Finished) \<and>
    (\<not> writer_alive r \<longrightarrow> aborted r) \<and>
    relays r = map (relay_of socks) (concat (map accepted_of es))"
  using run_steps_ok [OF assms run_init_ok] run_steps_relays [OF assms]
  by (simp add: run_ok_def run_init_def)

lemma run_control_witness:
  "\<exists>r. run_steps Little (list_channel (Some 1)) (list_channel None) (V4 127 0 0 1, 7890)
       sample_run_events (run_init empty_chan empty_chan) r \<and>
     blocked (path r) = None \<and>
     relays r = [(7, (V4 10 0 0 1, 4000), (V4 1 2 3 4, 80), (V4 127 0 0 1, 7890))]"
proof -
  obtain r where r: "run_steps Little (list_channel (Some 1)) (list_channel None) (V4 127 0 0 1, 7890)
       sample_run_events (run_init empty_chan empty_chan) r" "pc r = Sleeping"
    using sample_run by blast
  from run_control [OF r(1)] r show ?thesis by (auto simp: sample_run_events_def relay_of_def)
qed

text \<open>When the flag is clear and the kernel has no packet, a reader that does not wait for room
  leaves its loop after at most three steps of its own, whatever the other tasks do in between,
  and until then it can always take the next one.\<close>

lemma stop_seen_when_idle:
  assumes "run_steps ne I E socks es r r'" and "list_all quiet es" and "pc r \<noteq> Sending"
  shows "length (filter reader_event es) \<le> 3 \<and>
    (pc r' = Finished \<or> (\<exists>e r''. reader_event e \<and> quiet e \<and> run_step ne I E socks e r' r''))"
  using quiet_steps [OF assms] quiet_enabled [of r'] pc_rank_le [of "pc r"] by fastforce

lemma stop_seen_when_idle_witness:
  "\<exists>es r'. run_steps Little (list_channel (Some 1)) (list_channel None) (V4 127 0 0 1, 7890) es
       (run_init empty_chan empty_chan :: (list_chan, nat) run) r' \<and> pc r' = Finished \<and>
     length (filter reader_event es) \<le> 3"
proof -
  let ?r = "run_init empty_chan empty_chan :: (list_chan, nat) run"
  have s: "run_steps Little (list_channel (Some 1)) (list_channel None) (V4 127 0 0 1, 7890)
      ([] @ [LoadFlag False]) ?r (?r\<lparr>pc := Finished\<rparr>)"
    by (rule run_steps.snoc [OF run_steps.none], rule load_clear) (simp add: run_init_def)
  from stop_seen_when_idle [OF s] s show ?thesis
    by (intro exI [of _ "[LoadFlag False]"] exI [of _ "?r\<lparr>pc := Finished\<rparr>"]) (simp add: run_init_def)
qed

text \<open>A stop does not stop the packets: as long as the kernel has packets the reader stays in its inner
  loop, where it does not load the flag, and goes on, here with DNS queries, each of which
  becomes a task, however many arrive.\<close>

lemma stop_waits_for_burst:
  assumes "pc r = Draining w" and "blocked (path r) = None"
    and "list_all (\<lambda>b. b \<noteq> [] \<and> dns_job_of ne (take READ_BUF_LEN b) \<noteq> None) ps"
  shows "\<exists>r' w'. run_steps ne I E socks (map Read ps) r r' \<and> pc r' = Draining w' \<and>
    spawned (path r') = spawned (path r) @ map (\<lambda>b. the (dns_job_of ne (take READ_BUF_LEN b))) ps"
  using read_burst [OF assms, of I E socks] by blast

lemma stop_waits_for_burst_witness:
  "\<exists>p r' w'. run_steps Little (list_channel (Some 1)) (list_channel None) (V4 127 0 0 1, 7890)
       (map Read [p, p]) ((run_init empty_chan empty_chan :: (list_chan, nat) run)\<lparr>pc := Draining False\<rparr>) r' \<and>
     pc r' = Draining w' \<and> spawned (path r') = [(1, 4000, 2, 53, [9]), (1, 4000, 2, 53, [9])]"
proof -
  let ?r = "(run_init empty_chan empty_chan :: (list_chan, nat) run)\<lparr>pc := Draining False\<rparr>"
  obtain p where p: "build_udp_packet Little 1 4000 2 53 [9] = Some p"
    by (simp add: build_udp_packet_layout)
  then have l: "length p = 29" using build_udp_packet_length [of Little 1 4000 2 53 "[9]"] by simp
  then have ne: "p \<noteq> []" by auto
  have "parse_udp_packet Little p = Some (Some (1, 4000, 2, 53, [9]))"
    using p by (intro parse_build_udp_packet) simp_all
  then have j: "dns_job_of Little (take READ_BUF_LEN p) = Some (1, 4000, 2, 53, [9])"
    using l by (simp add: dns_job_of_def READ_BUF_LEN_def)
  from stop_waits_for_burst [of ?r False Little "[p, p]" "list_channel (Some 1)" "list_channel None"
      "(V4 127 0 0 1, 7890)"] j ne
  show ?thesis by (intro exI [of _ p]) (auto simp: run_init_def path_init_def)
qed



end
