(* ===== verification/Tunnel_System.thy ===== *)
theory Tunnel_System
  imports Lifecycle Tunnel_Run
begin

text \<open>
  The whole tunnel of the process: the flag and the tasks of \<open>Lifecycle\<close> composed with one
  \<open>run_tun2socks\<close> of \<open>Tunnel_Run\<close> for every task.  The flag is the shared state: the value a
  reader loads is the one the calls of \<open>start\<close> and \<open>stop\<close> and the ends of other tasks left.  A
  task that has ended may leave workers behind which tokio has not dropped yet.
\<close>

section \<open>Model\<close>

text \<open>\<open>live\<close> holds the run of every task of \<open>life\<close>, in its order, once the stack is built.\<close>

record ('c, 'x) system =
  life :: tun
  live :: "('c, 'x) run option list"
  torn :: "(socket_addr \<times> ('c, 'x) run) list"

definition socks_addr :: "tun_task \<Rightarrow> socket_addr" where
  "socks_addr t = (V4 127 0 0 1, task_port t)"

definition sys_init :: "('c, 'x) system" where
  "sys_init = \<lparr>life = tun_init, live = [], torn = []\<rparr>"

datatype 'x sys_event =
    Ctl tun_event
  | Work nat "'x run_event"
  | Rest nat "'x run_event"

fun loads :: "'x run_event \<Rightarrow> bool" where
  "loads (LoadFlag b) = True"
| "loads _ = False"

definition remove_at :: "nat \<Rightarrow> 'a list \<Rightarrow> 'a list" where
  "remove_at i xs = take i xs @ drop (Suc i) xs"

inductive sys_step ::
  "endian \<Rightarrow> 'c channel \<Rightarrow> 'c channel \<Rightarrow> 'c \<Rightarrow> 'c \<Rightarrow> 'x sys_event \<Rightarrow>
   ('c, 'x) system \<Rightarrow> ('c, 'x) system \<Rightarrow> bool"
  for ne :: endian and I :: "'c channel" and E :: "'c channel" and i0 :: 'c and e0 :: 'c where
    sys_start: "sys_step ne I E i0 e0 (Ctl (StartCall fd port)) s
      (s\<lparr>life := snd (start_swap fd port (life s)),
         live := live s @ (if running (life s) then [] else [None])\<rparr>)"
  | sys_stop: "sys_step ne I E i0 e0 (Ctl StopCall) s (s\<lparr>life := stop (life s)\<rparr>)"
  | sys_spawn: "in_phase i Starting (life s) \<Longrightarrow> start_spawn os urls i (life s) = Some l \<Longrightarrow>
      sys_step ne I E i0 e0 (Ctl (Spawn i os urls)) s (s\<lparr>life := l\<rparr>)"
  | sys_built: "in_phase i Building (life s) \<Longrightarrow>
      sys_step ne I E i0 e0 (Ctl (Built i)) s
        (s\<lparr>life := set_phase i Reading (life s), live := (live s)[i := Some (run_init i0 e0)]\<rparr>)"
  | sys_error: "in_phase i Building (life s) \<Longrightarrow>
      sys_step ne I E i0 e0 (Ctl (BuildError i)) s (s\<lparr>life := set_phase i Leaving (life s)\<rparr>)"
  | sys_check: "in_phase i Reading (life s) \<Longrightarrow> live s ! i = Some r \<Longrightarrow>
      run_step ne I E (socks_addr (tasks (life s) ! i)) (LoadFlag (running (life s))) r r' \<Longrightarrow>
      sys_step ne I E i0 e0 (Ctl (Check i)) s
        (s\<lparr>life := reader_check i (life s), live := (live s)[i := Some r']\<rparr>)"
  | sys_work: "i < length (live s) \<Longrightarrow> live s ! i = Some r \<Longrightarrow> \<not> loads ev \<Longrightarrow>
      run_step ne I E (socks_addr (tasks (life s) ! i)) ev r r' \<Longrightarrow>
      sys_step ne I E i0 e0 (Work i ev) s (s\<lparr>live := (live s)[i := Some r']\<rparr>)"
  | sys_exit: "in_phase i Leaving (life s) \<Longrightarrow> live s ! i = None \<Longrightarrow>
      sys_step ne I E i0 e0 (Ctl (Exit i)) s
        (s\<lparr>life := task_exit i (life s), live := remove_at i (live s)\<rparr>)"
  | sys_exit_torn: "in_phase i Leaving (life s) \<Longrightarrow> live s ! i = Some r \<Longrightarrow> aborted r \<Longrightarrow>
      sys_step ne I E i0 e0 (Ctl (Exit i)) s
        (s\<lparr>life := task_exit i (life s), live := remove_at i (live s),
           torn := torn s @ [(socks_addr (tasks (life s) ! i), r)]\<rparr>)"
  | sys_rest: "k < length (torn s) \<Longrightarrow> torn s ! k = (addr, r) \<Longrightarrow> \<not> loads ev \<Longrightarrow>
      run_step ne I E addr ev r r' \<Longrightarrow>
      sys_step ne I E i0 e0 (Rest k ev) s (s\<lparr>torn := (torn s)[k := (addr, r')]\<rparr>)"

inductive sys_steps ::
  "endian \<Rightarrow> 'c channel \<Rightarrow> 'c channel \<Rightarrow> 'c \<Rightarrow> 'c \<Rightarrow> 'x sys_event list \<Rightarrow>
   ('c, 'x) system \<Rightarrow> ('c, 'x) system \<Rightarrow> bool"
  for ne :: endian and I :: "'c channel" and E :: "'c channel" and i0 :: 'c and e0 :: 'c where
    sys_none: "sys_steps ne I E i0 e0 [] s s"
  | sys_snoc: "sys_steps ne I E i0 e0 es s s' \<Longrightarrow> sys_step ne I E i0 e0 e s' s'' \<Longrightarrow>
      sys_steps ne I E i0 e0 (es @ [e]) s s''"

inductive_cases sys_steps_nilE [elim!]: "sys_steps ne I E i0 e0 [] s s'"

section \<open>The parts\<close>

fun ctl_events :: "'x sys_event \<Rightarrow> tun_event list" where
  "ctl_events (Ctl e) = [e]"
| "ctl_events _ = []"

lemma sys_step_life:
  "sys_step ne I E i0 e0 e s s' \<Longrightarrow> tun_run (ctl_events e) (life s) = Some (life s')"
  by (induction rule: sys_step.induct) simp_all

lemma sys_steps_life:
  "sys_steps ne I E i0 e0 es s s' \<Longrightarrow>
   tun_run (concat (map ctl_events es)) (life s) = Some (life s')"
  by (induction rule: sys_steps.induct) (auto simp: tun_run_append dest: sys_step_life)

text \<open>
  A task in the state a slot says: without a run before the stack is built and after a build
  that failed, reading until its reader has left the loop, and then leaving.
\<close>

definition slot_ok :: "('c, 'x) run option \<Rightarrow> task_phase \<Rightarrow> bool" where
  "slot_ok slot ph \<longleftrightarrow>
     (case slot of
        None \<Rightarrow> ph \<noteq> Reading
      | Some r \<Rightarrow> run_ok r \<and> (if pc r = Finished then ph = Leaving else ph = Reading))"

definition sys_ok :: "('c, 'x) system \<Rightarrow> bool" where
  "sys_ok s \<longleftrightarrow> length (live s) = length (tasks (life s)) \<and>
     (\<forall>i < length (live s). slot_ok (live s ! i) (task_phase (tasks (life s) ! i)))"

text \<open>The run in a slot is one of \<open>Tunnel_Run\<close>, with the address of its task.\<close>

definition slot_run ::
  "endian \<Rightarrow> 'c channel \<Rightarrow> 'c channel \<Rightarrow> 'c \<Rightarrow> 'c \<Rightarrow> socket_addr \<Rightarrow> ('c, 'x) run option \<Rightarrow> bool" where
  "slot_run ne I E i0 e0 addr slot \<longleftrightarrow>
     (\<forall>r. slot = Some r \<longrightarrow> (\<exists>fs. run_steps ne I E addr fs (run_init i0 e0) r))"

definition sys_runs :: "endian \<Rightarrow> 'c channel \<Rightarrow> 'c channel \<Rightarrow> 'c \<Rightarrow> 'c \<Rightarrow> ('c, 'x) system \<Rightarrow> bool" where
  "sys_runs ne I E i0 e0 s \<longleftrightarrow>
     (\<forall>i < length (live s). slot_run ne I E i0 e0 (socks_addr (tasks (life s) ! i)) (live s ! i)) \<and>
     (\<forall>k < length (torn s). slot_run ne I E i0 e0 (fst (torn s ! k)) (Some (snd (torn s ! k))))"

lemma remove_at_nth:
  "i < length xs \<Longrightarrow> j < length (remove_at i xs) \<Longrightarrow>
   remove_at i xs ! j = xs ! (if j < i then j else Suc j)"
  by (auto simp: remove_at_def nth_append)

lemma length_remove_at [simp]: "i < length xs \<Longrightarrow> length (remove_at i xs) = length xs - 1"
  by (simp add: remove_at_def)

lemma task_exit_tasks: "tasks (task_exit i st) = remove_at i (tasks st)"
  by (simp add: task_exit_def remove_at_def)

lemma set_phase_tasks [simp]:
  "tasks (set_phase i ph st) = (tasks st)[i := (tasks st ! i)\<lparr>task_phase := ph\<rparr>]"
  by (simp add: set_phase_def)

lemma socks_addr_phase [simp]: "socks_addr (t\<lparr>task_phase := ph\<rparr>) = socks_addr t"
  by (simp add: socks_addr_def)

lemma load_moves:
  "run_step ne I E addr (LoadFlag b) r r' \<Longrightarrow> pc r = Top \<and> r' = r\<lparr>pc := if b then Draining False else Finished\<rparr>"
  by (auto elim: run_step.cases)

lemma work_keeps_pc:
  "run_step ne I E addr ev r r' \<Longrightarrow> \<not> loads ev \<Longrightarrow> pc r' = Finished \<longleftrightarrow> pc r = Finished"
  by (induction rule: run_step.induct) (auto simp: after_packet_def)

lemma reader_check_tasks:
  "tasks (reader_check i st) = (if running st then tasks st else tasks (set_phase i Leaving st))"
  by (simp add: reader_check_def)

lemma start_swap_tasks:
  "tasks (snd (start_swap fd port st)) =
     (if running st then tasks st
      else tasks st @ [\<lparr>task_fd = fd, task_port = port, task_phase = Starting\<rparr>])"
  by (simp add: start_swap_def)

lemma stop_tasks [simp]: "tasks (stop st) = tasks st"
  by (simp add: stop_def)

lemmas sys_tasks = reader_check_tasks start_swap_tasks task_exit_tasks

lemma slot_ok_simps [simp]:
  "slot_ok None ph \<longleftrightarrow> ph \<noteq> Reading"
  "slot_ok (Some r) ph \<longleftrightarrow> run_ok r \<and> (if pc r = Finished then ph = Leaving else ph = Reading)"
  by (simp_all add: slot_ok_def)

lemma run_init_sel [simp]: "run_ok (run_init i e)" "pc (run_init i e) = Top"
  by (simp_all add: run_init_ok) (simp add: run_init_def)

lemma sys_step_ok: "sys_step ne I E i0 e0 e s s' \<Longrightarrow> sys_ok s \<Longrightarrow> sys_ok s'"
proof (induction rule: sys_step.induct)
  case (sys_start fd port s)
  then show ?case by (auto simp: sys_ok_def sys_tasks nth_append)
next
  case (sys_check i s r r')
  from load_moves [OF sys_check(3)] have "pc r = Top"
    "r' = r\<lparr>pc := if running (life s) then Draining False else Finished\<rparr>" by blast+
  moreover have "run_ok r'" using sys_check run_step_ok [OF sys_check(3)]
    by (metis in_phase_def slot_ok_simps(2) sys_ok_def)
  ultimately show ?case
    using sys_check by (auto simp: sys_ok_def sys_tasks in_phase_def nth_list_update)
next
  case (sys_work i s r ev r')
  then have "slot_ok (Some r) (task_phase (tasks (life s) ! i))" by (metis sys_ok_def)
  then have "slot_ok (Some r') (task_phase (tasks (life s) ! i))"
    using work_keeps_pc [OF sys_work(4,3)] run_step_ok [OF sys_work(4)] by simp
  then show ?case using sys_work by (auto simp: sys_ok_def nth_list_update)
next
  case (sys_exit i s)
  then show ?case by (auto simp: sys_ok_def sys_tasks in_phase_def remove_at_nth)
next
  case (sys_exit_torn i s r)
  then show ?case by (auto simp: sys_ok_def sys_tasks in_phase_def remove_at_nth)
next
  case (sys_error i s)
  then have "slot_ok (live s ! i) Building" by (auto simp: sys_ok_def in_phase_def)
  then have "slot_ok (live s ! i) Leaving" by (cases "live s ! i") (auto split: if_splits)
  then show ?case using sys_error by (auto simp: sys_ok_def in_phase_def nth_list_update)
next
  case (sys_spawn i s os urls l)
  then have "slot_ok (live s ! i) Starting" by (auto simp: sys_ok_def in_phase_def)
  then have "slot_ok (live s ! i) Building" by (cases "live s ! i") (auto split: if_splits)
  then show ?case
    using sys_spawn start_spawn_sel(2) [OF sys_spawn(2)]
    by (auto simp: sys_ok_def in_phase_def nth_list_update)
qed (auto simp: sys_ok_def in_phase_def nth_list_update)

lemma slot_run_step:
  assumes "slot_run ne I E i0 e0 addr (Some r)" and "run_step ne I E addr ev r r'"
  shows "slot_run ne I E i0 e0 addr (Some r')"
  using assms by (auto simp: slot_run_def intro: run_steps.snoc)

lemma sys_step_runs:
  "sys_step ne I E i0 e0 e s s' \<Longrightarrow> sys_ok s \<Longrightarrow> sys_runs ne I E i0 e0 s \<Longrightarrow> sys_runs ne I E i0 e0 s'"
proof (induction rule: sys_step.induct)
  case (sys_start fd port s)
  then show ?case by (auto simp: sys_ok_def sys_runs_def sys_tasks nth_append slot_run_def)
next
  case (sys_check i s r r')
  then have "i < length (live s)" by (simp add: sys_ok_def in_phase_def)
  then have "slot_run ne I E i0 e0 (socks_addr (tasks (life s) ! i)) (Some r')"
    using sys_check slot_run_step [OF _ sys_check(3)] by (metis sys_runs_def)
  then show ?case using sys_check by (auto simp: sys_runs_def sys_ok_def sys_tasks in_phase_def nth_list_update)
next
  case (sys_work i s r ev r')
  then have "slot_run ne I E i0 e0 (socks_addr (tasks (life s) ! i)) (Some r')"
    using slot_run_step [OF _ sys_work(4)] by (metis sys_runs_def)
  then show ?case using sys_work by (auto simp: sys_runs_def nth_list_update)
next
  case (sys_exit i s)
  then show ?case by (auto simp: sys_ok_def sys_runs_def sys_tasks in_phase_def remove_at_nth)
next
  case (sys_exit_torn i s r)
  then have "slot_run ne I E i0 e0 (socks_addr (tasks (life s) ! i)) (Some r)"
    by (auto simp: sys_runs_def sys_ok_def in_phase_def)
  then show ?case
    using sys_exit_torn
    by (auto simp: sys_ok_def sys_runs_def sys_tasks in_phase_def remove_at_nth nth_append)
next
  case (sys_rest k s addr r ev r')
  then have "slot_run ne I E i0 e0 addr (Some r')"
    using slot_run_step [OF _ sys_rest(4)] by (metis sys_runs_def fst_conv snd_conv)
  then show ?case using sys_rest by (auto simp: sys_runs_def nth_list_update)
next
  case (sys_built i s)
  then show ?case
    by (auto simp: sys_runs_def sys_ok_def in_phase_def nth_list_update slot_run_def intro: run_steps.none)
qed (auto simp: sys_runs_def sys_ok_def in_phase_def nth_list_update start_spawn_sel)

lemma sys_init_ok: "sys_ok sys_init" and sys_init_runs: "sys_runs ne I E i0 e0 sys_init"
  by (simp_all add: sys_ok_def sys_runs_def sys_init_def tun_init_def)

lemma sys_steps_inv:
  "sys_steps ne I E i0 e0 es s s' \<Longrightarrow> sys_ok s \<Longrightarrow> sys_runs ne I E i0 e0 s \<Longrightarrow>
   sys_ok s' \<and> sys_runs ne I E i0 e0 s'"
  by (induction rule: sys_steps.induct) (auto dest: sys_step_ok sys_step_runs)

section \<open>After a stop\<close>

text \<open>
  The events while nobody calls \<open>start\<close> or \<open>stop\<close> and the kernel has no packet, and those among
  them that bring a task nearer to its end.
\<close>

fun calm :: "'x sys_event \<Rightarrow> bool" where
  "calm (Ctl e) = (\<not> control e)"
| "calm (Work i ev) = quiet ev"
| "calm (Rest k ev) = True"

fun advances :: "'x run_event \<Rightarrow> bool" where
  "advances Teardown = True"
| "advances ev = reader_event ev"

fun moves :: "'x sys_event \<Rightarrow> bool" where
  "moves (Ctl e) = True"
| "moves (Work i ev) = advances ev"
| "moves (Rest k ev) = False"

definition run_weight :: "('c, 'x) run \<Rightarrow> nat" where
  "run_weight r = pc_rank (pc r) + 1 + of_bool (\<not> aborted r)"

fun slot_weight :: "tun_task \<times> ('c, 'x) run option \<Rightarrow> nat" where
  "slot_weight (t, Some r) = run_weight r"
| "slot_weight (t, None) =
     (case task_phase t of Starting \<Rightarrow> 5 | Building \<Rightarrow> 4 | Reading \<Rightarrow> 1 | Leaving \<Rightarrow> 1)"

definition sys_weight :: "('c, 'x) system \<Rightarrow> nat" where
  "sys_weight s = sum_list (map slot_weight (zip (tasks (life s)) (live s)))"

definition unblocked :: "('c, 'x) system \<Rightarrow> bool" where
  "unblocked s \<longleftrightarrow> (\<forall>r. Some r \<in> set (live s) \<longrightarrow> pc r \<noteq> Sending)"

lemma run_weight_step:
  assumes "run_step ne I E addr ev r r'" and "quiet ev" and "pc r \<noteq> Sending"
  shows "run_weight r' + of_bool (advances ev) = run_weight r \<and> pc r' \<noteq> Sending"
proof -
  have "aborted r' = (aborted r \<or> ev = Teardown) \<and> (ev = Teardown \<longrightarrow> \<not> aborted r)"
    using assms(1) by (induction rule: run_step.induct) auto
  moreover have "advances ev = (reader_event ev \<or> ev = Teardown)" "\<not> (reader_event ev \<and> ev = Teardown)"
    by (cases ev; simp)+
  ultimately show ?thesis
    using quiet_step [OF assms] by (auto simp: run_weight_def split: if_splits)
qed

lemma run_weight_init [simp]: "run_weight (run_init i e) = 3"
  by (simp add: run_weight_def run_init_def)

lemma slot_weight_le: "slot_weight p \<le> 5"
proof (cases p rule: slot_weight.cases)
  case (1 t r)
  then show ?thesis using pc_rank_le [of "pc r"] by (simp add: run_weight_def)
qed (auto split: task_phase.splits)

lemma sys_weight_le: "length (live s) = length (tasks (life s)) \<Longrightarrow> sys_weight s \<le> 5 * length (tasks (life s))"
proof -
  have "sum_list (map slot_weight ps) \<le> 5 * length ps" for ps :: "(tun_task \<times> ('a, 'b) run option) list"
    using slot_weight_le by (induction ps) (auto intro: add_mono)
  then show "length (live s) = length (tasks (life s)) \<Longrightarrow> sys_weight s \<le> 5 * length (tasks (life s))"
    unfolding sys_weight_def by (metis length_zip min.idem)
qed

lemma weight_update:
  assumes "i < length ts" and "length ls = length ts"
  shows "sum_list (map slot_weight (zip (ts[i := t]) (ls[i := l]))) + slot_weight (ts ! i, ls ! i) =
    sum_list (map slot_weight (zip ts ls)) + slot_weight (t, l)"
  using sum_list_update_nat [of i "zip ts ls" slot_weight "(t, l)"] assms
  by (simp add: zip_update)

lemma weight_remove:
  assumes "i < length ts" and "length ls = length ts"
  shows "sum_list (map slot_weight (zip (remove_at i ts) (remove_at i ls))) + slot_weight (ts ! i, ls ! i) =
    sum_list (map slot_weight (zip ts ls))"
proof -
  have "zip (remove_at i ts) (remove_at i ls) = remove_at i (zip ts ls)"
    using assms by (simp add: remove_at_def take_zip drop_zip)
  then show ?thesis
    using sum_list_remove_nat [of i "zip ts ls" slot_weight] assms by (simp add: remove_at_def)
qed

text \<open>A step that replaces one slot, and one that removes it.\<close>

lemma replace_slot:
  assumes "i < length (tasks (life s))" and "length (live s) = length (tasks (life s))"
    and "tasks (life s') = (tasks (life s))[i := t]" and "live s' = (live s)[i := l]"
    and "slot_weight (t, l) + n \<le> slot_weight (tasks (life s) ! i, live s ! i)"
    and "unblocked s" and "\<And>r. l = Some r \<Longrightarrow> pc r \<noteq> Sending"
  shows "unblocked s' \<and> sys_weight s' + n \<le> sys_weight s"
proof
  show "unblocked s'"
    using assms(4,6,7) set_update_subset_insert [of "live s" i l] by (auto simp: unblocked_def)
  show "sys_weight s' + n \<le> sys_weight s"
    using weight_update [OF assms(1,2), of t l] assms(3-5) by (simp add: sys_weight_def)
qed

lemma drop_slot:
  assumes "i < length (tasks (life s))" and "length (live s) = length (tasks (life s))"
    and "tasks (life s') = remove_at i (tasks (life s))" and "live s' = remove_at i (live s)"
    and "1 \<le> slot_weight (tasks (life s) ! i, live s ! i)" and "unblocked s"
  shows "unblocked s' \<and> sys_weight s' + 1 \<le> sys_weight s"
proof
  have "set (remove_at i (live s)) \<subseteq> set (live s)"
    by (auto simp: remove_at_def dest: in_set_takeD in_set_dropD)
  then show "unblocked s'" using assms(4,6) by (auto simp: unblocked_def)
  show "sys_weight s' + 1 \<le> sys_weight s"
    using weight_remove [OF assms(1,2)] assms(3-5) by (simp add: sys_weight_def)
qed

lemma slot_none:
  "sys_ok s \<Longrightarrow> in_phase i ph (life s) \<Longrightarrow> ph = Starting \<or> ph = Building \<Longrightarrow> live s ! i = None"
  by (cases "live s ! i") (auto simp: sys_ok_def in_phase_def slot_ok_def split: if_splits)

lemma sys_ok_length: "sys_ok s \<Longrightarrow> length (live s) = length (tasks (life s))"
  by (simp add: sys_ok_def)

lemma stays_clear:
  "sys_step ne I E i0 e0 e s s' \<Longrightarrow> calm e \<Longrightarrow> \<not> running (life s) \<Longrightarrow> \<not> running (life s')"
  by (induction rule: sys_step.induct)
    (auto simp: stop_def start_spawn_sel set_phase_def reader_check_def task_exit_def Let_def)

lemma calm_step:
  "sys_step ne I E i0 e0 e s s' \<Longrightarrow> calm e \<Longrightarrow> \<not> running (life s) \<Longrightarrow> sys_ok s \<Longrightarrow> unblocked s \<Longrightarrow>
   unblocked s' \<and> sys_weight s' + of_bool (moves e) \<le> sys_weight s"
proof (induction rule: sys_step.induct)
  case (sys_spawn i s os urls l)
  note none = slot_none [OF sys_spawn(5,1)]
  have "(live s)[i := None] = live s" using none by (metis list_update_id)
  then show ?case
    using sys_spawn none sys_ok_length [OF sys_spawn(5)] start_spawn_sel(2) [OF sys_spawn(2)]
    by (intro replace_slot [where l = None and i = i and t = "(tasks (life s) ! i)\<lparr>task_phase := Building\<rparr>"])
      (auto simp: in_phase_def)
next
  case (sys_built i s)
  note none = slot_none [OF sys_built(4,1)]
  show ?case
    using sys_built none sys_ok_length [OF sys_built(4)]
    by (intro replace_slot [where l = "Some (run_init i0 e0)" and i = i
          and t = "(tasks (life s) ! i)\<lparr>task_phase := Reading\<rparr>"])
      (auto simp: in_phase_def)
next
  case (sys_error i s)
  note none = slot_none [OF sys_error(4,1)]
  have "(live s)[i := None] = live s" using none by (metis list_update_id)
  then show ?case
    using sys_error none sys_ok_length [OF sys_error(4)]
    by (intro replace_slot [where l = None and i = i and t = "(tasks (life s) ! i)\<lparr>task_phase := Leaving\<rparr>"])
      (auto simp: in_phase_def)
next
  case (sys_check i s r r')
  have i: "i < length (tasks (life s))" using sys_check(1) by (simp add: in_phase_def)
  have "Some r \<in> set (live s)" using sys_check(2) i sys_ok_length [OF sys_check(6)] by (metis nth_mem)
  then have "pc r \<noteq> Sending" using sys_check(7) by (simp add: unblocked_def)
  with run_weight_step [OF sys_check(3)] sys_check(5)
  have "run_weight r' + 1 = run_weight r" "pc r' \<noteq> Sending" by simp_all
  then show ?case
    using sys_check i sys_ok_length [OF sys_check(6)]
    by (intro replace_slot [where l = "Some r'" and i = i and t = "(tasks (life s) ! i)\<lparr>task_phase := Leaving\<rparr>"])
      (auto simp: reader_check_tasks)
next
  case (sys_work i s r ev r')
  have "Some r \<in> set (live s)" using sys_work(1,2) by (metis nth_mem)
  then have "pc r \<noteq> Sending" using sys_work(8) by (simp add: unblocked_def)
  with run_weight_step [OF sys_work(4)] sys_work(5)
  have "run_weight r' + of_bool (advances ev) = run_weight r" "pc r' \<noteq> Sending" by simp_all
  then show ?case
    using sys_work sys_ok_length [OF sys_work(7)]
    by (intro replace_slot [where l = "Some r'" and i = i and t = "tasks (life s) ! i"]) auto
next
  case (sys_exit i s)
  then show ?case
    using sys_ok_length [OF sys_exit(5)] drop_slot [of i s]
    by (auto simp: in_phase_def task_exit_tasks)
next
  case (sys_exit_torn i s r)
  have "1 \<le> run_weight r" by (simp add: run_weight_def)
  then show ?case
    using sys_exit_torn sys_ok_length [OF sys_exit_torn(6)]
    by (simp, intro drop_slot [of i s, simplified]) (auto simp: in_phase_def task_exit_tasks)
qed (auto simp: unblocked_def sys_weight_def)

lemma calm_steps:
  "sys_steps ne I E i0 e0 es s s' \<Longrightarrow> list_all calm es \<Longrightarrow> \<not> running (life s) \<Longrightarrow> sys_ok s \<Longrightarrow>
   unblocked s \<Longrightarrow>
   \<not> running (life s') \<and> sys_ok s' \<and> unblocked s' \<and> sys_weight s' + length (filter moves es) \<le> sys_weight s"
proof (induction rule: sys_steps.induct)
  case (sys_snoc es s s' e s'')
  then have "calm e" "\<not> running (life s')" "sys_ok s'" "unblocked s'"
    "sys_weight s' + length (filter moves es) \<le> sys_weight s" by auto
  with calm_step [OF sys_snoc.hyps(2)] stays_clear [OF sys_snoc.hyps(2)] sys_step_ok [OF sys_snoc.hyps(2)]
  show ?case by (auto split: if_splits)
qed simp

text \<open>While a task is left, one can move.\<close>

lemma calm_enabled:
  assumes "sys_ok s" and "unblocked s" and "\<not> running (life s)" and "tasks (life s) \<noteq> []"
  shows "\<exists>e s'. calm e \<and> moves e \<and> sys_step ne I E i0 e0 e s s'"
proof -
  have i: "0 < length (tasks (life s))" and n: "0 < length (live s)"
    using assms(4) sys_ok_length [OF assms(1)] by simp_all
  have ok: "slot_ok (live s ! 0) (task_phase (tasks (life s) ! 0))"
    using assms(1) n by (simp add: sys_ok_def)
  show ?thesis
  proof (cases "live s ! 0")
    case None
    then consider "in_phase 0 Starting (life s)" | "in_phase 0 Building (life s)"
      | "in_phase 0 Leaving (life s)"
      using ok i by (cases "task_phase (tasks (life s) ! 0)") (auto simp: in_phase_def)
    then show ?thesis
    proof cases
      case 1
      obtain l where "start_spawn os_fine [] 0 (life s) = Some l" using start_spawn_fine by blast
      from sys_spawn [OF 1 this] obtain s' where "sys_step ne I E i0 e0 (Ctl (Spawn 0 os_fine [])) s s'"
        by blast
      then show ?thesis by (intro exI [of _ "Ctl (Spawn 0 os_fine [])"]) auto
    next
      case 2
      obtain s' where "sys_step ne I E i0 e0 (Ctl (Built 0)) s s'" using sys_built [OF 2] by blast
      then show ?thesis by (intro exI [of _ "Ctl (Built 0)"]) auto
    next
      case 3
      obtain s' where "sys_step ne I E i0 e0 (Ctl (Exit 0)) s s'" using sys_exit [OF 3 None] by blast
      then show ?thesis by (intro exI [of _ "Ctl (Exit 0)"]) auto
    qed
  next
    case (Some r)
    then have "Some r \<in> set (live s)" using n by (metis nth_mem)
    then have ns: "pc r \<noteq> Sending" using assms(2) by (simp add: unblocked_def)
    show ?thesis
    proof (cases "pc r = Finished")
      case True
      then have l: "in_phase 0 Leaving (life s)" using ok Some i by (simp add: in_phase_def)
      show ?thesis
      proof (cases "aborted r")
        case True
        obtain s' where "sys_step ne I E i0 e0 (Ctl (Exit 0)) s s'"
          using sys_exit_torn [OF l Some True] by blast
        then show ?thesis by (intro exI [of _ "Ctl (Exit 0)"]) auto
      next
        case False
        obtain s' where "sys_step ne I E i0 e0 (Work 0 Teardown) s s'"
          using sys_work [OF n Some _ teardown [OF \<open>pc r = Finished\<close> False]] by fastforce
        then show ?thesis by (intro exI [of _ "Work 0 Teardown"]) auto
      qed
    next
      case False
      obtain ev r' where ev: "reader_event ev" "quiet ev"
        "run_step ne I E (socks_addr (tasks (life s) ! 0)) ev r r'"
        using quiet_enabled [OF ns False] by blast
      have a: "advances ev" using ev(1) by (cases ev) auto
      show ?thesis
      proof (cases "loads ev")
        case True
        then have "ev = LoadFlag (running (life s))" using ev(2) assms(3) by (cases ev) auto
        moreover have "in_phase 0 Reading (life s)" using ok Some False i by (simp add: in_phase_def)
        ultimately obtain s' where "sys_step ne I E i0 e0 (Ctl (Check 0)) s s'"
          using sys_check [OF _ Some] ev(3) by blast
        then show ?thesis by (intro exI [of _ "Ctl (Check 0)"]) auto
      next
        case nl: False
        obtain s' where "sys_step ne I E i0 e0 (Work 0 ev) s s'"
          using sys_work [OF n Some nl ev(3)] by blast
        then show ?thesis using a ev(2) by (intro exI [of _ "Work 0 ev"]) auto
      qed
    qed
  qed
qed

section \<open>A sample\<close>

text \<open>A tunnel that is started and stopped, and whose writer has a packet left at the end.\<close>

abbreviation sample_sys_steps ::
  "nat sys_event list \<Rightarrow> (list_chan, nat) system \<Rightarrow> (list_chan, nat) system \<Rightarrow> bool" where
  "sample_sys_steps \<equiv>
     sys_steps Little (list_channel (Some INGRESS_CAP)) (list_channel None) empty_chan empty_chan"

definition sample_task :: "task_phase \<Rightarrow> tun_task" where
  "sample_task ph = \<lparr>task_fd = 3, task_port = 7890, task_phase = ph\<rparr>"

definition sample_up :: "nat sys_event list" where
  "sample_up = [Ctl (StartCall 3 7890), Ctl (Spawn 0 os_fine []), Ctl (Built 0), Work 0 (Reply [1]), Ctl StopCall]"

definition sample_down :: "nat sys_event list" where
  "sample_down = [Ctl (Check 0), Work 0 Teardown, Ctl (Exit 0)]"

definition sample_path :: "list_chan tunnel" where
  "sample_path = dns_reply (list_channel None) [1] (path_init empty_chan empty_chan)"

definition sample_run_at :: "reader_pc \<Rightarrow> bool \<Rightarrow> (list_chan, nat) run" where
  "sample_run_at c a = (run_init empty_chan empty_chan)\<lparr>pc := c, path := sample_path, aborted := a\<rparr>"

lemma sys_more:
  "sys_steps ne I E i0 e0 es s s' \<Longrightarrow> sys_step ne I E i0 e0 e s' s'' \<Longrightarrow> s'' = t \<Longrightarrow>
   sys_steps ne I E i0 e0 (es @ [e]) s t"
  by (auto intro: sys_steps.sys_snoc)

lemma sample_run_sel [simp]: "pc (sample_run_at c a) = c" "aborted (sample_run_at c a) = a"
  by (simp_all add: sample_run_at_def)

lemma sample_run_upd:
  "(run_init empty_chan empty_chan)\<lparr>path := dns_reply (list_channel None) [1] (path (run_init empty_chan empty_chan))\<rparr> =
     sample_run_at Top False"
  "(sample_run_at Top False)\<lparr>pc := Finished\<rparr> = sample_run_at Finished False"
  "(sample_run_at Finished False)\<lparr>aborted := True\<rparr> = sample_run_at Finished True"
  by (simp_all add: sample_run_at_def run_init_def sample_path_def)

lemma sample_run_steps:
  "run_step ne I (list_channel None) addr (Reply [1]) (run_init empty_chan empty_chan) (sample_run_at Top False)"
  "run_step ne I E addr (LoadFlag False) (sample_run_at Top False) (sample_run_at Finished False)"
  "run_step ne I E addr Teardown (sample_run_at Finished False) (sample_run_at Finished True)"
proof -
  show "run_step ne I (list_channel None) addr (Reply [1]) (run_init empty_chan empty_chan) (sample_run_at Top False)"
    using reply [where ne = ne and I = I and E = "list_channel None" and socks = addr and pkt = "[1]"
        and r = "run_init empty_chan empty_chan :: (list_chan, nat) run"]
    by (simp only: sample_run_upd(1))
  show "run_step ne I E addr (LoadFlag False) (sample_run_at Top False) (sample_run_at Finished False)"
    unfolding sample_run_upd(2) [symmetric] by (rule load_clear) simp
  show "run_step ne I E addr Teardown (sample_run_at Finished False) (sample_run_at Finished True)"
    unfolding sample_run_upd(3) [symmetric] by (rule teardown) simp_all
qed

lemma sample_up_run:
  "\<exists>t. sample_sys_steps sample_up sys_init t \<and> \<not> running (life t) \<and> tasks (life t) = [sample_task Reading] \<and>
     live t = [Some (sample_run_at Top False)] \<and> torn t = []"
proof -
  let ?s1 = "sys_init\<lparr>life := snd (start_swap 3 7890 tun_init), live := [None]\<rparr> :: (list_chan, nat) system"
  obtain l where l: "start_spawn os_fine [] 0 (life ?s1) = Some l"
    using start_spawn_fine by blast
  note sel = start_spawn_sel(2) [OF l]
  let ?s2 = "?s1\<lparr>life := l\<rparr>"
  let ?s3 = "?s2\<lparr>life := set_phase 0 Reading (life ?s2), live := [Some (run_init empty_chan empty_chan)]\<rparr>"
  let ?s4 = "?s3\<lparr>live := [Some (sample_run_at Top False)]\<rparr>"
  let ?s5 = "?s4\<lparr>life := stop (life ?s4)\<rparr>"
  have "sample_sys_steps ([] @ [Ctl (StartCall 3 7890)]) sys_init ?s1"
    by (rule sys_more [OF sys_none sys_start]) (simp add: sys_init_def tun_init_def)
  then have "sample_sys_steps (([] @ [Ctl (StartCall 3 7890)]) @ [Ctl (Spawn 0 os_fine [])]) sys_init ?s2"
    by (rule sys_more [OF _ sys_spawn [OF _ l]]) (simp_all add: in_phase_def start_swap_tasks tun_init_def)
  then have "sample_sys_steps ((([] @ [Ctl (StartCall 3 7890)]) @ [Ctl (Spawn 0 os_fine [])]) @ [Ctl (Built 0)]) sys_init ?s3"
    by (rule sys_more [OF _ sys_built]) (simp_all add: in_phase_def start_swap_tasks tun_init_def sel)
  then have "sample_sys_steps (((([] @ [Ctl (StartCall 3 7890)]) @ [Ctl (Spawn 0 os_fine [])]) @ [Ctl (Built 0)])
      @ [Work 0 (Reply [1])]) sys_init ?s4"
    by (rule sys_more [OF _ sys_work [OF _ _ _ sample_run_steps(1)]]) simp_all
  then have "sample_sys_steps ((((([] @ [Ctl (StartCall 3 7890)]) @ [Ctl (Spawn 0 os_fine [])]) @ [Ctl (Built 0)])
      @ [Work 0 (Reply [1])]) @ [Ctl StopCall]) sys_init ?s5"
    by (rule sys_more [OF _ sys_stop]) simp
  then show ?thesis
    by (intro exI [of _ ?s5])
      (simp add: sample_up_def sys_init_def start_swap_tasks tun_init_def sample_task_def sel, simp add: stop_def)
qed

lemma sample_down_run:
  assumes "\<not> running (life t)" and "tasks (life t) = [sample_task Reading]"
    and "live t = [Some (sample_run_at Top False)]" and "torn t = []"
  shows "\<exists>t'. sample_sys_steps sample_down t t' \<and> \<not> running (life t') \<and> tasks (life t') = [] \<and> live t' = [] \<and>
     torn t' = [((V4 127 0 0 1, 7890), sample_run_at Finished True)]"
proof -
  let ?s1 = "t\<lparr>life := reader_check 0 (life t), live := [Some (sample_run_at Finished False)]\<rparr>"
  let ?s2 = "?s1\<lparr>live := [Some (sample_run_at Finished True)]\<rparr>"
  let ?s3 = "?s2\<lparr>life := task_exit 0 (life ?s2), live := [],
      torn := [((V4 127 0 0 1, 7890), sample_run_at Finished True)]\<rparr>"
  have "sample_sys_steps ([] @ [Ctl (Check 0)]) t ?s1"
    by (rule sys_more [OF sys_none sys_check [where r' = "sample_run_at Finished False"]])
      (use assms sample_run_steps(2) in \<open>simp_all add: in_phase_def sample_task_def\<close>)
  then have "sample_sys_steps (([] @ [Ctl (Check 0)]) @ [Work 0 Teardown]) t ?s2"
    by (rule sys_more [OF _ sys_work [OF _ _ _ sample_run_steps(3)]]) simp_all
  then have "sample_sys_steps ((([] @ [Ctl (Check 0)]) @ [Work 0 Teardown]) @ [Ctl (Exit 0)]) t ?s3"
    by (rule sys_more [OF _ sys_exit_torn])
      (use assms in \<open>simp_all add: in_phase_def reader_check_tasks sample_task_def remove_at_def socks_addr_def\<close>)
  then show ?thesis
    by (intro exI [of _ ?s3])
      (use assms in \<open>simp add: sample_down_def task_exit_tasks reader_check_tasks remove_at_def task_exit_def\<close>)
qed

section \<open>Properties\<close>

text \<open>
  The process refines its two parts: in every interleaving of calls, tasks and workers, the flag
  and the tasks follow a run of the lifecycle, and every tunnel that is up follows a run of
  \<open>run_tun2socks\<close> to the proxy port its start was given, which reads exactly while its task is
  in the reading phase and has left its loop exactly when the task is leaving.  So what is
  proved of the parts holds of the process.
\<close>

lemma system_refines_parts:
  assumes "sys_steps ne I E i0 e0 es sys_init s"
  shows "tun_run (concat (map ctl_events es)) tun_init = Some (life s) \<and>
    length (live s) = length (tasks (life s)) \<and>
    (\<forall>i r. i < length (live s) \<and> live s ! i = Some r \<longrightarrow>
       (\<exists>fs. run_steps ne I E (V4 127 0 0 1, task_port (tasks (life s) ! i)) fs (run_init i0 e0) r) \<and>
       task_phase (tasks (life s) ! i) = (if pc r = Finished then Leaving else Reading)) \<and>
    (\<forall>addr r. (addr, r) \<in> set (torn s) \<longrightarrow> (\<exists>fs. run_steps ne I E addr fs (run_init i0 e0) r))"
proof -
  have inv: "sys_ok s" "sys_runs ne I E i0 e0 s"
    using sys_steps_inv [OF assms sys_init_ok sys_init_runs] by blast+
  have "tun_run (concat (map ctl_events es)) tun_init = Some (life s)"
    using sys_steps_life [OF assms] by (simp add: sys_init_def)
  moreover have "task_phase (tasks (life s) ! i) = (if pc r = Finished then Leaving else Reading)"
    if "i < length (live s)" "live s ! i = Some r" for i r
    using that inv(1) by (metis slot_ok_simps(2) sys_ok_def)
  moreover have "\<exists>fs. run_steps ne I E addr fs (run_init i0 e0) r" if "(addr, r) \<in> set (torn s)" for addr r
    using that inv(2) by (fastforce simp: sys_runs_def slot_run_def in_set_conv_nth)
  ultimately show ?thesis
    using inv by (auto simp: sys_ok_def sys_runs_def slot_run_def socks_addr_def)
qed

lemma system_refines_parts_witness:
  "\<exists>s. sample_sys_steps sample_up sys_init s \<and>
     tun_run [StartCall 3 7890, Spawn 0 os_fine [], Built 0, StopCall] tun_init = Some (life s) \<and>
     (\<exists>fs. run_steps Little (list_channel (Some INGRESS_CAP)) (list_channel None) (V4 127 0 0 1, 7890) fs
        (run_init empty_chan empty_chan) (sample_run_at Top False))"
proof -
  obtain s where s: "sample_sys_steps sample_up sys_init s" "tasks (life s) = [sample_task Reading]"
    "live s = [Some (sample_run_at Top False)]"
    using sample_up_run by blast
  from system_refines_parts [OF s(1)] s show ?thesis
    by (intro exI [of _ s]) (simp add: sample_up_def sample_task_def)
qed

text \<open>C14: After a stop the tunnels of the process end once the traffic does: with the flag clear, no
  further call, no packet to read and no reader waiting for room, whatever the other workers
  do, at most five steps per task remain until it is gone, the flag stays clear, and while a
  task is left one of these steps can be taken.\<close>

theorem stopped_tunnels_end:
  assumes "sys_steps ne I E i0 e0 es0 sys_init s" and "\<not> running (life s)"
    and "\<forall>r. Some r \<in> set (live s) \<longrightarrow> pc r \<noteq> Sending"
    and "sys_steps ne I E i0 e0 es s s'" and "list_all calm es"
  shows "\<not> running (life s') \<and> length (filter moves es) \<le> 5 * length (tasks (life s)) \<and>
    (tasks (life s') \<noteq> [] \<longrightarrow> (\<exists>e s''. calm e \<and> moves e \<and> sys_step ne I E i0 e0 e s' s''))"
proof -
  have ok: "sys_ok s"
    using sys_steps_inv [OF assms(1) sys_init_ok sys_init_runs] by blast
  have u: "unblocked s" using assms(3) by (simp add: unblocked_def)
  note c = calm_steps [OF assms(4,5,2) ok u]
  have "length (filter moves es) \<le> 5 * length (tasks (life s))"
    using c sys_weight_le [OF sys_ok_length [OF ok]] by linarith
  with c calm_enabled [of s'] show ?thesis by blast
qed

theorem stopped_tunnels_end_witness:
  "\<exists>s s'. sample_sys_steps sample_up sys_init s \<and> sample_sys_steps sample_down s s' \<and>
     length (filter moves sample_down) = 3 \<and> length (tasks (life s)) = 1 \<and>
     \<not> running (life s') \<and> tasks (life s') = []"
proof -
  obtain s where s: "sample_sys_steps sample_up sys_init s" "\<not> running (life s)"
    "tasks (life s) = [sample_task Reading]" "live s = [Some (sample_run_at Top False)]" "torn s = []"
    using sample_up_run by blast
  obtain s' where s': "sample_sys_steps sample_down s s'" "tasks (life s') = []"
    using sample_down_run [OF s(2-5)] by blast
  have "list_all calm sample_down" by (simp add: sample_down_def)
  from stopped_tunnels_end [OF s(1,2) _ s'(1) this] s s' show ?thesis
    by (intro exI [of _ s] exI [of _ s']) (simp add: sample_down_def)
qed

text \<open>
  A stop, even the end of the task, does not end the use of the descriptor: a worker that was
  aborted and is not yet dropped still writes to it.
\<close>

lemma descriptor_used_after_end:
  "\<exists>es s. sample_sys_steps (es @ [Rest 0 (WriteNext (\<lambda>_. (1, 0)))]) sys_init s \<and> \<not> running (life s) \<and>
     tasks (life s) = [] \<and> (\<exists>addr r. torn s = [(addr, r)] \<and> written (path r) = [([1], True)])"
proof -
  obtain t where t: "sample_sys_steps sample_up sys_init t" "\<not> running (life t)"
    "tasks (life t) = [sample_task Reading]" "live t = [Some (sample_run_at Top False)]" "torn t = []"
    using sample_up_run by blast
  obtain s where s: "sample_sys_steps sample_down t s" "\<not> running (life s)" "tasks (life s) = []" "live s = []"
    "torn s = [((V4 127 0 0 1, 7890), sample_run_at Finished True)]"
    using sample_down_run [OF t(2-5)] by blast
  have trans: "sample_sys_steps (sample_up @ es) sys_init u" if "sample_sys_steps es t u" for es u
    using that t(1)
    by (induction rule: sys_steps.induct) (auto intro: sys_snoc simp flip: append_assoc)
  let ?r = "(sample_run_at Finished True)
      \<lparr>path := writer_packet (list_channel None) (\<lambda>_. (1, 0)) (path (sample_run_at Finished True))\<rparr>"
  have "run_step Little (list_channel (Some INGRESS_CAP)) (list_channel None) (V4 127 0 0 1, 7890)
      (WriteNext (\<lambda>_. (1, 0))) (sample_run_at Finished True) ?r"
    by (rule write_next) (simp add: sample_run_at_def run_init_def)
  then have "sample_sys_steps ((sample_up @ sample_down) @ [Rest 0 (WriteNext (\<lambda>_. (1, 0)))]) sys_init
      (s\<lparr>torn := (torn s)[0 := ((V4 127 0 0 1, 7890), ?r)]\<rparr>)"
    using s by (intro sys_snoc [OF trans [OF s(1)]] sys_rest) auto
  moreover have "written (path ?r) = [([1], True)]"
    by (simp add: sample_run_at_def sample_path_def run_init_def path_init_def dns_reply_def
        writer_packet_def list_channel_def empty_chan_def writer_loop.simps)
  ultimately show ?thesis
    using s(2,3,5)
    by (intro exI [of _ "sample_up @ sample_down"]
          exI [of _ "s\<lparr>torn := (torn s)[0 := ((V4 127 0 0 1, 7890), ?r)]\<rparr>"]) simp
qed

end
