(* ===== verification/Jni.thy ===== *)
theory Jni
  imports Lifecycle
begin

text \<open>
  The JNI entry points of \<open>mihomo-android-ffi/src/lib.rs\<close> and the logger of \<open>logging.rs\<close>: the
  process-wide state (\<open>HOME_DIR\<close>, the logger's \<open>Once\<close> and the tunnel with its \<open>RUNTIME\<close>) and the
  error message of each thread.  A thread is a number.
\<close>

section \<open>Model\<close>

type_synonym thread_id = nat

record process =
  home_dir :: "rstr option"
  logger_inits :: nat
  logger_once :: bool
  last_error :: "thread_id \<Rightarrow> rstr"
  log_lines :: "rstr list"
  tun :: tun

definition process_init :: process where
  "process_init = \<lparr>home_dir = None, logger_inits = 0, logger_once = False,
                   last_error = (\<lambda>_. []), log_lines = [], tun = tun_init\<rparr>"

definition set_error :: "thread_id \<Rightarrow> rstr \<Rightarrow> process \<Rightarrow> process" where
  "set_error t msg p = p\<lparr>last_error := (last_error p)(t := msg)\<rparr>"

definition get_error :: "thread_id \<Rightarrow> process \<Rightarrow> rstr" where
  "get_error t p = last_error p t"

definition bridge_log :: "rstr \<Rightarrow> process \<Rightarrow> process" where
  "bridge_log msg p = p\<lparr>log_lines := log_lines p @ [msg]\<rparr>"

text \<open>\<open>Once::call_once\<close>: the closure runs the first time.\<close>

definition init_android_logger :: "process \<Rightarrow> process" where
  "init_android_logger p =
     (if logger_once p then p
      else p\<lparr>logger_once := True, logger_inits := logger_inits p + 1\<rparr>)"

definition nativeInit :: "process \<Rightarrow> process" where
  "nativeInit p =
     bridge_log (lit ''Tun2SocksCore.nativeInit: android logger initialized'')
       (init_android_logger p)"

text \<open>\<open>dir\<close> is what JNI makes of the Java string, nothing if that fails.\<close>

definition nativeSetHomeDir :: "rstr option \<Rightarrow> process \<Rightarrow> process" where
  "nativeSetHomeDir dir p =
     (let dir_str = (case dir of Some s \<Rightarrow> s | None \<Rightarrow> []);
          p = bridge_log (lit ''Tun2SocksCore.nativeSetHomeDir: '' @ dir_str) p
      in p\<lparr>home_dir := (if dir_str = [] then None else Some dir_str)\<rparr>)"

definition dec_i32 :: "i32 \<Rightarrow> rstr" where
  "dec_i32 n = (if sint n < 0 then lit ''-'' @ dec (nat (- sint n)) else dec (unat n))"

text \<open>
  \<open>as u16\<close> keeps the low 16 bits.  The DoH client reads its servers from the profile of the
  home directory of this moment.  \<open>os\<close> are the answers of the system; \<^term>\<open>None\<close> is a panic.
\<close>

definition nativeStartTun2Socks ::
  "os_answers \<Rightarrow> (rstr \<Rightarrow> rstr option) \<Rightarrow> (rstr \<Rightarrow> minimal_config option) \<Rightarrow> thread_id \<Rightarrow>
   i32 \<Rightarrow> i32 \<Rightarrow> i32 \<Rightarrow> process \<Rightarrow> (i32 \<times> process) panics" where
  "nativeStartTun2Socks os read_to_string from_yaml t fd socks_port dns_port p =
     (let p = bridge_log (lit ''Tun2SocksCore.nativeStartTun2Socks: fd='' @ dec_i32 fd
                @ lit '', socks='' @ dec_i32 socks_port @ lit '', dns='' @ dec_i32 dns_port) p
      in if sint fd < 0 then Some (- 1, set_error t (lit ''invalid file descriptor'') p)
      else
        (let urls = read_doh_urls_from_config read_to_string from_yaml (home_dir p) in
         case start os urls fd (ucast socks_port) (tun p) of
           None \<Rightarrow> None
         | Some (Inr u, tn) \<Rightarrow>
             Some (0, bridge_log (lit ''Tun2SocksCore.nativeStartTun2Socks: started successfully'')
                        (p\<lparr>tun := tn\<rparr>))
         | Some (Inl e, tn) \<Rightarrow>
             Some (- 1, set_error t e
                          (bridge_log (lit ''Tun2SocksCore.nativeStartTun2Socks: ERROR: '' @ e)
                            (p\<lparr>tun := tn\<rparr>)))))"

definition nativeStopTun2Socks :: "process \<Rightarrow> process" where
  "nativeStopTun2Socks p =
     (let p = bridge_log (lit ''Tun2SocksCore.nativeStopTun2Socks'') p
      in p\<lparr>tun := stop (tun p)\<rparr>)"

text \<open>\<open>new_string\<close> may fail, then the empty string is returned.\<close>

definition nativeGetLastError :: "(rstr \<Rightarrow> rstr option) \<Rightarrow> thread_id \<Rightarrow> process \<Rightarrow> rstr" where
  "nativeGetLastError new_string t p =
     (case new_string (get_error t p) of Some s \<Rightarrow> s | None \<Rightarrow> [])"

lemmas jni_simps = set_error_def get_error_def bridge_log_def
  nativeStopTun2Socks_def nativeSetHomeDir_def Let_def

section \<open>Outcomes\<close>

lemma start_refused: "running tn \<Longrightarrow> start os urls fd port tn = Some (Inl already_running, tn)"
  by (simp add: start_def start_swap_def)

text \<open>The first start that finds a part it cannot build panics.\<close>

definition start_panics :: "os_answers \<Rightarrow> u16 \<Rightarrow> tun \<Rightarrow> bool" where
  "start_panics os port tn \<longleftrightarrow>
     doh_cell tn = None \<and> \<not> client_builds os (doh_settings port) \<or>
     \<not> runtime_built tn \<and> \<not> runtime_builds os"

lemma init_doh_client_None:
  "init_doh_client builds urls port cell = None \<longleftrightarrow> cell = None \<and> \<not> builds (doh_settings port)"
  by (simp add: init_doh_client_def split: option.split)

lemma start_accepted:
  assumes "\<not> running tn"
  shows "case start os urls fd port tn of
      None \<Rightarrow> start_panics os port tn
    | Some (r, tn') \<Rightarrow> \<not> start_panics os port tn \<and> r = Inr () \<and> running tn' \<and> runtime_built tn' \<and>
        tasks tn' = tasks tn @ [\<lparr>task_fd = fd, task_port = port, task_phase = Building\<rparr>]"
proof -
  let ?tn = "tn\<lparr>running := True, tasks := tasks tn @ [\<lparr>task_fd = fd, task_port = port, task_phase = Starting\<rparr>]\<rparr>"
  have s: "start os urls fd port tn =
      map_option (\<lambda>tn'. (Inr (), tn')) (start_spawn os urls (length (tasks tn)) ?tn)"
    using assms by (simp add: start_def start_swap_def map_conv_bind_option comp_def)
  show ?thesis
  proof (cases "start_spawn os urls (length (tasks tn)) ?tn")
    case None
    have "start_panics os port tn"
    proof (rule ccontr)
      assume a: "\<not> start_panics os port tn"
      then obtain c where "init_doh_client (client_builds os) urls port (doh_cell tn) = Some c"
        using init_doh_client_None [of "client_builds os" urls port "doh_cell tn"]
        by (auto simp: start_panics_def)
      with a have "\<exists>tn'. start_spawn os urls (length (tasks tn)) ?tn = Some tn'"
        by (auto simp: start_spawn_Some start_panics_def)
      with None show False by simp
    qed
    with None s show ?thesis by simp
  next
    case (Some tn')
    then have "\<not> start_panics os port tn" "runtime_built tn'"
      using init_doh_client_None [of "client_builds os" urls port "doh_cell tn"]
      by (auto simp: start_spawn_Some start_panics_def set_phase_def)
    with Some s start_spawn_sel(1,2) [OF Some] show ?thesis by simp
  qed
qed

text \<open>
  Starting succeeds exactly on a descriptor that is not negative when no tunnel runs.  A
  failure leaves the tunnel and the errors of other threads alone and sets the caller's.
\<close>

lemma native_start_outcome:
  "case nativeStartTun2Socks os rd yaml t fd port dns p of
     None \<Rightarrow> 0 \<le> sint fd \<and> \<not> running (tun p) \<and> start_panics os (ucast port) (tun p)
   | Some (r, p') \<Rightarrow>
       if 0 \<le> sint fd \<and> \<not> running (tun p)
       then \<not> start_panics os (ucast port) (tun p) \<and> r = 0 \<and> last_error p' = last_error p \<and>
         running (tun p') \<and> runtime_built (tun p') \<and>
         tasks (tun p') = tasks (tun p)
           @ [\<lparr>task_fd = fd, task_port = ucast port, task_phase = Building\<rparr>]
       else r = - 1 \<and> tun p' = tun p \<and>
         last_error p' = (last_error p)(t :=
           if sint fd < 0 then lit ''invalid file descriptor'' else already_running)"
proof (cases "sint fd < 0 \<or> running (tun p)")
  case True
  then show ?thesis
    by (auto simp: nativeStartTun2Socks_def jni_simps start_refused)
next
  case False
  let ?urls = "read_doh_urls_from_config rd yaml (home_dir p)"
  have home: "home_dir (bridge_log m p) = home_dir p" "tun (bridge_log m p) = tun p" for m
    by (simp_all add: bridge_log_def)
  show ?thesis
    using False start_accepted [where tn = "tun p" and os = os and urls = ?urls and fd = fd and port = "ucast port"]
    by (auto simp: nativeStartTun2Socks_def home Let_def split: option.splits)
      (auto simp: bridge_log_def)
qed

section \<open>Properties\<close>

text \<open>C31: \<open>nativeStartTun2Socks\<close> succeeds exactly on a descriptor that is not negative while no tunnel
  runs; then it spawns one task on that descriptor and the low 16 bits of the port and leaves
  every error message alone.  Otherwise it changes nothing of the tunnel and sets the error
  message of the calling thread, and of no other.  The one exception is a start that would
  succeed and finds that the HTTP client or the runtime, not yet built, cannot be: it panics.\<close>

theorem native_start:
  "case nativeStartTun2Socks os rd yaml t fd port dns p of
     None \<Rightarrow> 0 \<le> sint fd \<and> \<not> running (tun p) \<and>
       (doh_cell (tun p) = None \<and> \<not> client_builds os (doh_settings (ucast port)) \<or>
        \<not> runtime_built (tun p) \<and> \<not> runtime_builds os)
   | Some (r, p') \<Rightarrow>
       if 0 \<le> sint fd \<and> \<not> running (tun p)
       then r = 0 \<and> last_error p' = last_error p \<and> running (tun p') \<and> runtime_built (tun p') \<and>
         tasks (tun p') = tasks (tun p)
           @ [\<lparr>task_fd = fd, task_port = ucast port, task_phase = Building\<rparr>]
       else r = - 1 \<and> tun p' = tun p \<and>
         last_error p' = (last_error p)(t :=
           if sint fd < 0 then lit ''invalid file descriptor'' else already_running)"
  using native_start_outcome [where os = os and rd = rd and yaml = yaml and t = t and fd = fd and port = port
      and dns = dns and p = p]
  by (auto simp: start_panics_def split: option.splits if_splits)

theorem native_start_witness:
  "\<exists>p'. nativeStartTun2Socks os_fine (\<lambda>_. None) (\<lambda>_. None) 1 (- 1) 7890 53 process_init = Some (- 1, p') \<and>
     get_error 1 p' = lit ''invalid file descriptor'' \<and> get_error 2 p' = []"
proof -
  have neg: "sint (- 1 :: i32) < 0" by simp
  from native_start [where os = os_fine and rd = "\<lambda>_. None" and yaml = "\<lambda>_. None" and t = 1 and fd = "- 1"
      and port = 7890 and dns = 53 and p = process_init] neg show ?thesis
    by (auto simp: get_error_def process_init_def split: option.splits)
qed

end
