(* ===== verification/V2ray_Opts.thy ===== *)
theory V2ray_Opts
  imports Rust_Str
begin

text \<open>
  The options of \<open>mihomo-proxy-patched/src/v2ray_plugin.rs\<close>: \<open>V2rayPluginConfig\<close> with its
  default, \<open>parse_bool\<close> and \<open>parse_opts\<close>.  The header \<open>HashMap\<close> is a map.  The specification
  says what the parsed configuration is in terms of the last option of each name.
\<close>

section \<open>Model\<close>

datatype mode = Websocket

datatype mihomo_error = Config rstr | Io rstr | Proxy rstr

record v2ray_plugin_config =
  cfg_mode :: mode
  cfg_tls :: bool
  cfg_host :: rstr
  cfg_path :: rstr
  cfg_headers :: "rstr \<rightharpoonup> rstr"
  cfg_skip_cert_verify :: bool
  cfg_mux :: bool

definition default_config :: v2ray_plugin_config where
  "default_config =
     \<lparr>cfg_mode = Websocket, cfg_tls = False, cfg_host = [], cfg_path = lit ''/'',
      cfg_headers = Map.empty, cfg_skip_cert_verify = False, cfg_mux = False\<rparr>"

definition parse_bool :: "rstr \<Rightarrow> bool" where
  "parse_bool s \<longleftrightarrow>
     to_ascii_lowercase s \<in> {lit ''1'', lit ''true'', lit ''yes'', lit ''on''}"

definition unsupported_mode :: "rstr \<Rightarrow> mihomo_error" where
  "unsupported_mode value =
     Config (lit ''v2ray-plugin: unsupported mode '' @ [39] @ value @ [39]
             @ lit '' (only '' @ [39] @ lit ''websocket'' @ [39] @ lit '' is supported)'')"

text \<open>The bytes of \<open>;\<close>, \<open>=\<close> and \<open>:\<close>.\<close>

definition semicolon :: byte where "semicolon = 59"
definition equals :: byte where "equals = 61"
definition colon :: byte where "colon = 58"

definition key_value :: "rstr \<Rightarrow> rstr \<times> rstr" where
  "key_value token =
     (case split_once equals token of
        Some (k, v) \<Rightarrow> (trim k, trim v)
      | None \<Rightarrow> (token, lit ''true''))"

definition apply_opt ::
  "rstr \<times> rstr \<Rightarrow> v2ray_plugin_config \<Rightarrow> mihomo_error + v2ray_plugin_config" where
  "apply_opt kv cfg =
     (case kv of (key, value) \<Rightarrow>
        if key = lit ''mode'' then
          (if eq_ignore_ascii_case value (lit ''websocket'') \<or> eq_ignore_ascii_case value (lit ''ws'')
           then Inr (cfg\<lparr>cfg_mode := Websocket\<rparr>)
           else Inl (unsupported_mode value))
        else if key = lit ''tls'' then Inr (cfg\<lparr>cfg_tls := parse_bool value\<rparr>)
        else if key = lit ''host'' then Inr (cfg\<lparr>cfg_host := value\<rparr>)
        else if key = lit ''path'' then Inr (cfg\<lparr>cfg_path := value\<rparr>)
        else if key = lit ''mux'' then Inr (cfg\<lparr>cfg_mux := parse_bool value\<rparr>)
        else if key = lit ''skip-cert-verify''
          then Inr (cfg\<lparr>cfg_skip_cert_verify := parse_bool value\<rparr>)
        else if key = lit ''header'' then
          (case split_once colon value of
             Some (k, v) \<Rightarrow> Inr (cfg\<lparr>cfg_headers := (cfg_headers cfg)(trim k \<mapsto> trim v)\<rparr>)
           | None \<Rightarrow> Inr cfg)
        else Inr cfg)"

fun apply_opts ::
  "(rstr \<times> rstr) list \<Rightarrow> v2ray_plugin_config \<Rightarrow> mihomo_error + v2ray_plugin_config" where
  "apply_opts [] cfg = Inr cfg"
| "apply_opts (kv # kvs) cfg =
     (case apply_opt kv cfg of Inl e \<Rightarrow> Inl e | Inr cfg' \<Rightarrow> apply_opts kvs cfg')"

definition tokens :: "rstr \<Rightarrow> rstr list" where
  "tokens s = filter (\<lambda>t. t \<noteq> []) (map trim (split_on semicolon s))"

definition parse_opts :: "rstr \<Rightarrow> mihomo_error + v2ray_plugin_config" where
  "parse_opts s = apply_opts (map key_value (tokens s)) default_config"

section \<open>Specification\<close>

definition bad_mode :: "rstr \<times> rstr \<Rightarrow> bool" where
  "bad_mode kv \<longleftrightarrow> fst kv = lit ''mode'' \<and>
     to_ascii_lowercase (snd kv) \<notin> {lit ''websocket'', lit ''ws''}"

text \<open>The last value of an option, and the headers the options set.\<close>

definition last_value :: "rstr \<Rightarrow> (rstr \<times> rstr) list \<Rightarrow> rstr option" where
  "last_value k kvs = map_of (rev kvs) k"

definition last_bool :: "rstr \<Rightarrow> bool \<Rightarrow> (rstr \<times> rstr) list \<Rightarrow> bool" where
  "last_bool k d kvs = (case last_value k kvs of None \<Rightarrow> d | Some v \<Rightarrow> parse_bool v)"

definition last_string :: "rstr \<Rightarrow> rstr \<Rightarrow> (rstr \<times> rstr) list \<Rightarrow> rstr" where
  "last_string k d kvs = (case last_value k kvs of None \<Rightarrow> d | Some v \<Rightarrow> v)"

definition header_entry :: "rstr \<times> rstr \<Rightarrow> (rstr \<times> rstr) option" where
  "header_entry kv =
     (if fst kv = lit ''header''
      then map_option (\<lambda>(k, v). (trim k, trim v)) (split_once colon (snd kv)) else None)"

definition header_entries :: "(rstr \<times> rstr) list \<Rightarrow> (rstr \<times> rstr) list" where
  "header_entries kvs = List.map_filter header_entry kvs"

definition config_of :: "v2ray_plugin_config \<Rightarrow> (rstr \<times> rstr) list \<Rightarrow> v2ray_plugin_config" where
  "config_of cfg kvs =
     \<lparr>cfg_mode = Websocket,
      cfg_tls = last_bool (lit ''tls'') (cfg_tls cfg) kvs,
      cfg_host = last_string (lit ''host'') (cfg_host cfg) kvs,
      cfg_path = last_string (lit ''path'') (cfg_path cfg) kvs,
      cfg_headers = cfg_headers cfg ++ map_of (rev (header_entries kvs)),
      cfg_skip_cert_verify = last_bool (lit ''skip-cert-verify'') (cfg_skip_cert_verify cfg) kvs,
      cfg_mux = last_bool (lit ''mux'') (cfg_mux cfg) kvs\<rparr>"

lemma last_value_Cons:
  "last_value k ((a, v) # kvs) =
     (case last_value k kvs of Some w \<Rightarrow> Some w | None \<Rightarrow> if a = k then Some v else None)"
  by (simp add: last_value_def map_add_def split: option.splits)

lemma last_bool_Cons:
  "last_bool k d ((a, v) # kvs) = last_bool k (if a = k then parse_bool v else d) kvs"
  by (simp add: last_bool_def last_value_Cons split: option.splits)

lemma last_string_Cons:
  "last_string k d ((a, v) # kvs) = last_string k (if a = k then v else d) kvs"
  by (simp add: last_string_def last_value_Cons split: option.splits)

lemma header_entries_Cons:
  "header_entries (kv # kvs) =
     (case header_entry kv of None \<Rightarrow> header_entries kvs | Some h \<Rightarrow> h # header_entries kvs)"
  by (simp add: header_entries_def map_filter_def split: option.splits)

lemmas last_simps = last_bool_Cons last_string_Cons header_entries_Cons

lemma last_Nil [simp]:
  "last_bool k d [] = d" "last_string k d' [] = d'" "header_entries [] = []"
  by (simp_all add: last_bool_def last_string_def last_value_def header_entries_def map_filter_def)

lemma config_of_Nil [simp]: "config_of cfg [] = cfg\<lparr>cfg_mode := Websocket\<rparr>"
  by (cases cfg) (simp add: config_of_def)

lemma config_of_Cons: "config_of cfg (kv # kvs) = config_of (config_of cfg [kv]) kvs"
  by (cases kv; cases "header_entry kv") (simp_all add: config_of_def last_simps)

lemma mode_single: "(m :: mode) = Websocket"
  by (cases m)

text \<open>The names of the options are different strings.\<close>

lemma keys_distinct:
  "distinct [lit ''mode'', lit ''tls'', lit ''host'', lit ''path'', lit ''mux'',
     lit ''skip-cert-verify'', lit ''header'']"
  by (simp add: lit_simps)

lemma mode_names:
  "eq_ignore_ascii_case v (lit ''websocket'') \<longleftrightarrow> to_ascii_lowercase v = lit ''websocket''"
  "eq_ignore_ascii_case v (lit ''ws'') \<longleftrightarrow> to_ascii_lowercase v = lit ''ws''"
  by (simp_all add: eq_ignore_ascii_case_def to_ascii_lowercase_def lit_simps to_ascii_lower_def)

lemma apply_opt_eq:
  "apply_opt kv cfg =
     (if bad_mode kv then Inl (unsupported_mode (snd kv)) else Inr (config_of cfg [kv]))"
proof -
  obtain key v where kv: "kv = (key, v)" by (cases kv)
  obtain a b c d e f g where abc: "cfg = \<lparr>cfg_mode = a, cfg_tls = b, cfg_host = c, cfg_path = d,
      cfg_headers = e, cfg_skip_cert_verify = f, cfg_mux = g\<rparr>"
    by (cases cfg)
  show ?thesis
    using keys_distinct
    by (auto simp: kv abc mode_single [of a] apply_opt_def bad_mode_def mode_names config_of_def
          last_simps header_entry_def split: option.splits)
qed

text \<open>
  The options are folded from left to right: the result is an error for the first mode that
  is not WebSocket, and otherwise the configuration of the last values.
\<close>

lemma apply_opts_eq:
  "apply_opts kvs cfg =
     (case find bad_mode kvs of
        Some kv \<Rightarrow> Inl (unsupported_mode (snd kv))
      | None \<Rightarrow> Inr (config_of cfg kvs))"
proof (induction kvs arbitrary: cfg)
  case Nil
  show ?case by (cases cfg) (auto intro: mode_single)
next
  case (Cons kv kvs)
  then show ?case
    by (simp add: apply_opt_eq config_of_Cons [of cfg kv kvs] split: option.split)
qed

section \<open>Rendering\<close>

text \<open>An options string, and the strings that survive it.\<close>

definition render_opts :: "(rstr \<times> rstr) list \<Rightarrow> rstr" where
  "render_opts kvs = join_str [semicolon] (map (\<lambda>(k, v). k @ [equals] @ v) kvs)"

definition plain :: "rstr \<Rightarrow> bool" where
  "plain s \<longleftrightarrow> trim_stable s \<and> semicolon \<notin> set s"

definition opt_ok :: "rstr \<times> rstr \<Rightarrow> bool" where
  "opt_ok kv \<longleftrightarrow> plain (fst kv) \<and> fst kv \<noteq> [] \<and> equals \<notin> set (fst kv) \<and> plain (snd kv)"

lemma opt_token:
  assumes "opt_ok (k, v)"
  shows "semicolon \<notin> set (k @ [equals] @ v)" and "trim (k @ [equals] @ v) = k @ [equals] @ v"
    and "key_value (k @ [equals] @ v) = (k, v)"
proof -
  have k: "trim_stable k" "k \<noteq> []" "equals \<notin> set k" "trim_stable v"
    using assms by (simp_all add: opt_ok_def plain_def)
  show "semicolon \<notin> set (k @ [equals] @ v)"
    using assms by (auto simp: opt_ok_def plain_def semicolon_def equals_def)
  have "trim_stable (k @ [equals] @ v)"
    using k by (cases "v = []") (auto simp: trim_stable_def equals_def)
  then show "trim (k @ [equals] @ v) = k @ [equals] @ v" by (rule trim_stable_id)
  show "key_value (k @ [equals] @ v) = (k, v)"
    using k split_once_append [of equals k v] by (simp add: key_value_def trim_stable_id)
qed

lemma tokens_render:
  assumes "list_all opt_ok kvs"
  shows "map key_value (tokens (render_opts kvs)) = kvs"
proof (cases "kvs = []")
  case True
  then show ?thesis by (simp add: tokens_def render_opts_def)
next
  case False
  let ?ts = "map (\<lambda>(k, v). k @ [equals] @ v) kvs"
  have ok: "opt_ok (k, v)" if "(k, v) \<in> set kvs" for k v
    using assms that by (auto simp: list_all_iff)
  have "split_on semicolon (render_opts kvs) = ?ts"
    unfolding render_opts_def
    by (rule split_on_join) (use False opt_token(1) [OF ok] in auto)
  moreover have "map trim ?ts = ?ts"
    using opt_token(2) [OF ok] by (auto intro!: map_idI)
  moreover have "filter (\<lambda>t. t \<noteq> []) ?ts = ?ts"
    by (auto simp: filter_id_conv)
  moreover have "map key_value ?ts = kvs"
    using opt_token(3) [OF ok] by (auto intro!: map_idI)
  ultimately show ?thesis by (simp only: tokens_def)
qed

section \<open>Properties\<close>


text \<open>Options that are rendered as \<open>key=value\<close> and joined by semicolons are parsed as exactly these
  options, in order.\<close>

lemma opts_round_trip:
  assumes "list_all opt_ok kvs"
  shows "parse_opts (render_opts kvs) = apply_opts kvs default_config"
  using tokens_render [OF assms] by (simp add: parse_opts_def)

lemma opts_round_trip_witness:
  "parse_opts (render_opts [(lit ''host'', lit ''example.com''), (lit ''path'', lit ''/ws'')]) =
   Inr (default_config\<lparr>cfg_host := lit ''example.com'', cfg_path := lit ''/ws''\<rparr>)"
  using opts_round_trip [of "[(lit ''host'', lit ''example.com''), (lit ''path'', lit ''/ws'')]"]
  by (simp add: opt_ok_def plain_def trim_stable_def semicolon_def equals_def lit_simps apply_opt_def)

end
