(* ===== verification/Ws_Stream.thy ===== *)
theory Ws_Stream
  imports Async_Io
begin

text \<open>
  \<open>WsStream\<close> of \<open>mihomo-proxy-patched/src/v2ray_plugin.rs\<close>: a byte stream over WebSocket
  messages.  The \<open>WebSocketStream\<close> below it is a dictionary of its operations, with the
  contract \<open>ws_peer\<close>; a connection driven by a script provides it.  The main result is that
  the wrapper is a \<open>duplex\<close> transport.
\<close>

section \<open>Messages\<close>

datatype ws_message =
    Text_Msg rstr
  | Binary_Msg "byte list"
  | Ping_Msg "byte list"
  | Pong_Msg "byte list"
  | Close_Msg
  | Frame_Msg "byte list"

text \<open>\<open>poll_next\<close> of the stream side, and the sink side.\<close>

record 'w ws_ops =
  poll_next :: "'w \<Rightarrow> ws_message io option poll \<times> 'w"
  poll_ready :: "'w \<Rightarrow> unit io poll \<times> 'w"
  start_send :: "'w \<Rightarrow> ws_message \<Rightarrow> unit io \<times> 'w"
  poll_flush_sink :: "'w \<Rightarrow> unit io poll \<times> 'w"
  poll_close_sink :: "'w \<Rightarrow> unit io poll \<times> 'w"

section \<open>Model\<close>

record 'w ws_stream =
  ws_inner :: 'w
  read_buf :: "byte list"
  read_pos :: nat

definition ws_stream_new :: "'w \<Rightarrow> 'w ws_stream" where
  "ws_stream_new inner = \<lparr>ws_inner = inner, read_buf = [], read_pos = 0\<rparr>"

definition unexpected_text :: io_error where
  "unexpected_text = IoError InvalidData (lit ''v2ray-plugin: unexpected text frame'')"

text \<open>
  The loop of \<open>poll_read\<close>: a turn empties the buffer into the caller's, or takes the next
  message.  Over a peer that sends pings without end it does not return (\<^term>\<open>None\<close>).
\<close>

partial_function (option) ws_poll_read ::
  "'w ws_ops \<Rightarrow> 'w ws_stream \<Rightarrow> nat \<Rightarrow> (byte list io poll \<times> 'w ws_stream) option" where
  "ws_poll_read W st room =
     (if read_pos st < length (read_buf st) then
        (let remaining = drop (read_pos st) (read_buf st);
             n = min (length remaining) room;
             st' = st\<lparr>read_pos := read_pos st + n\<rparr>;
             st' = (if read_pos st' = length (read_buf st')
                    then st'\<lparr>read_buf := [], read_pos := 0\<rparr> else st')
         in Some (Ready (Inr (take n remaining)), st'))
      else
        (case poll_next W (ws_inner st) of
           (r, inner) \<Rightarrow>
           (case r of
              Pending \<Rightarrow> Some (Pending, st\<lparr>ws_inner := inner\<rparr>)
            | Ready nx \<Rightarrow>
              (case nx of
                 None \<Rightarrow> Some (Ready (Inr []), st\<lparr>ws_inner := inner\<rparr>)
               | Some item \<Rightarrow>
                 (case item of
                    Inl e \<Rightarrow> Some (Ready (Inl e), st\<lparr>ws_inner := inner\<rparr>)
                  | Inr m \<Rightarrow>
                    (case m of
                       Binary_Msg data \<Rightarrow>
                         ws_poll_read W (st\<lparr>ws_inner := inner, read_buf := data, read_pos := 0\<rparr>) room
                     | Ping_Msg payload \<Rightarrow>
                         ws_poll_read W
                           (st\<lparr>ws_inner := snd (start_send W inner (Pong_Msg payload))\<rparr>) room
                     | Pong_Msg p \<Rightarrow> ws_poll_read W (st\<lparr>ws_inner := inner\<rparr>) room
                     | Close_Msg \<Rightarrow> Some (Ready (Inr []), st\<lparr>ws_inner := inner\<rparr>)
                     | Text_Msg t \<Rightarrow> Some (Ready (Inl unexpected_text), st\<lparr>ws_inner := inner\<rparr>)
                     | Frame_Msg f \<Rightarrow> ws_poll_read W (st\<lparr>ws_inner := inner\<rparr>) room))))))"

definition ws_poll_write ::
  "'w ws_ops \<Rightarrow> 'w ws_stream \<Rightarrow> byte list \<Rightarrow> nat io poll \<times> 'w ws_stream" where
  "ws_poll_write W st buf =
     (case poll_ready W (ws_inner st) of
        (Pending, inner) \<Rightarrow> (Pending, st\<lparr>ws_inner := inner\<rparr>)
      | (Ready (Inl e), inner) \<Rightarrow> (Ready (Inl e), st\<lparr>ws_inner := inner\<rparr>)
      | (Ready (Inr _), inner) \<Rightarrow>
          (case start_send W inner (Binary_Msg buf) of
             (Inl e, inner) \<Rightarrow> (Ready (Inl e), st\<lparr>ws_inner := inner\<rparr>)
           | (Inr _, inner) \<Rightarrow> (Ready (Inr (length buf)), st\<lparr>ws_inner := inner\<rparr>)))"

definition ws_poll_flush :: "'w ws_ops \<Rightarrow> 'w ws_stream \<Rightarrow> unit io poll \<times> 'w ws_stream" where
  "ws_poll_flush W st =
     (let (r, inner) = poll_flush_sink W (ws_inner st) in (r, st\<lparr>ws_inner := inner\<rparr>))"

definition ws_poll_shutdown :: "'w ws_ops \<Rightarrow> 'w ws_stream \<Rightarrow> unit io poll \<times> 'w ws_stream" where
  "ws_poll_shutdown W st =
     (let (r, inner) = poll_close_sink W (ws_inner st) in (r, st\<lparr>ws_inner := inner\<rparr>))"

definition ws_io :: "'w ws_ops \<Rightarrow> 'w ws_stream async_io" where
  "ws_io W = \<lparr>poll_read = ws_poll_read W, poll_write = ws_poll_write W,
              poll_flush = ws_poll_flush W, poll_shutdown = ws_poll_shutdown W\<rparr>"

lemma ws_io_sel [simp]:
  "poll_read (ws_io W) = ws_poll_read W" "poll_write (ws_io W) = ws_poll_write W"
  "poll_flush (ws_io W) = ws_poll_flush W" "poll_shutdown (ws_io W) = ws_poll_shutdown W"
  by (simp_all add: ws_io_def)

section \<open>The contract of the WebSocket\<close>

text \<open>The bytes a sequence of messages carries to a reader: up to a close or a text message.\<close>

fun ws_payload :: "ws_message list \<Rightarrow> byte list" where
  "ws_payload [] = []"
| "ws_payload (Binary_Msg d # ms) = d @ ws_payload ms"
| "ws_payload (Close_Msg # ms) = []"
| "ws_payload (Text_Msg t # ms) = []"
| "ws_payload (_ # ms) = ws_payload ms"

text \<open>The data among the messages handed to the sink.\<close>

fun data_of :: "ws_message \<Rightarrow> byte list" where
  "data_of (Binary_Msg d) = d"
| "data_of _ = []"

definition ws_data :: "ws_message list \<Rightarrow> byte list" where
  "ws_data ms = concat (map data_of ms)"

text \<open>
  What a reader of the stream still gets and what a writer has sent, in terms of the
  messages below.
\<close>

definition ws_avail :: "('w \<Rightarrow> ws_message list) \<Rightarrow> 'w ws_stream \<Rightarrow> byte list" where
  "ws_avail msgs st = drop (read_pos st) (read_buf st) @ ws_payload (msgs (ws_inner st))"

definition ws_sent :: "('w \<Rightarrow> ws_message list) \<Rightarrow> 'w ws_stream \<Rightarrow> byte list" where
  "ws_sent out st = ws_data (out (ws_inner st))"

definition ws_ok :: "('w \<Rightarrow> bool) \<Rightarrow> 'w ws_stream \<Rightarrow> bool" where
  "ws_ok ok st \<longleftrightarrow> ok (ws_inner st)"

definition ws_idle :: "('w \<Rightarrow> nat) \<Rightarrow> 'w ws_stream \<Rightarrow> nat" where
  "ws_idle idle st = idle (ws_inner st)"

definition ws_stalls :: "('w \<Rightarrow> nat) \<Rightarrow> 'w ws_stream \<Rightarrow> nat" where
  "ws_stalls stalls st = stalls (ws_inner st)"

lemmas ws_state_defs = ws_ok_def ws_avail_def ws_sent_def ws_idle_def ws_stalls_def

text \<open>
  \<open>msgs w\<close> are the messages the peer still delivers, finitely many, and none of them carries data
  after a close; \<open>out w\<close> are those handed over for sending.  \<open>idle\<close> bounds the waits of the
  receiving side and \<open>stalls\<close> those of the sink.  Only a \<open>faulty\<close> connection delivers errors or
  text messages, and only a \<open>broken\<close> one has a sink that fails or refuses data; the reply to a
  ping may be refused by any.
\<close>

locale ws_peer =
  fixes W :: "'w ws_ops" and msgs :: "'w \<Rightarrow> ws_message list" and out :: "'w \<Rightarrow> ws_message list"
    and idle :: "'w \<Rightarrow> nat" and stalls :: "'w \<Rightarrow> nat" and ok :: "'w \<Rightarrow> bool" and faulty broken :: bool
  assumes next_msg: "ok w \<Longrightarrow> poll_next W w = (Ready (Some (Inr m)), w') \<Longrightarrow>
      msgs w = m # msgs w' \<and> idle w' \<le> idle w \<and> (m = Close_Msg \<longrightarrow> ws_payload (msgs w') = [])"
    and next_end: "ok w \<Longrightarrow> poll_next W w = (Ready None, w') \<Longrightarrow>
      msgs w = [] \<and> msgs w' = [] \<and> idle w' \<le> idle w"
    and next_pending: "ok w \<Longrightarrow> poll_next W w = (Pending, w') \<Longrightarrow>
      msgs w' = msgs w \<and> idle w' < idle w"
    and next_frame: "ok w \<Longrightarrow> poll_next W w = (r, w') \<Longrightarrow> ok w' \<and> out w' = out w"
    and send_ok: "ok w \<Longrightarrow> start_send W w m = (Inr u, w') \<Longrightarrow> out w' = out w @ [m]"
    and send_err: "ok w \<Longrightarrow> start_send W w m = (Inl e, w') \<Longrightarrow> out w' = out w"
    and send_frame: "ok w \<Longrightarrow> start_send W w m = (q, w') \<Longrightarrow>
      ok w' \<and> msgs w' = msgs w \<and> idle w' \<le> idle w \<and> stalls w' \<le> stalls w"
    and ready_pending: "ok w \<Longrightarrow> poll_ready W w = (Pending, w') \<Longrightarrow> stalls w' < stalls w"
    and ready_frame: "ok w \<Longrightarrow> poll_ready W w = (p, w') \<Longrightarrow>
      ok w' \<and> msgs w' = msgs w \<and> out w' = out w \<and> stalls w' \<le> stalls w"
    and flush_frame: "ok w \<Longrightarrow> poll_flush_sink W w = (p, w') \<Longrightarrow>
      ok w' \<and> msgs w' = msgs w \<and> out w' = out w"
    and close_frame: "ok w \<Longrightarrow> poll_close_sink W w = (p, w') \<Longrightarrow>
      ok w' \<and> msgs w' = msgs w \<and> ws_data (out w') = ws_data (out w)"
    and next_fault: "ok w \<Longrightarrow> poll_next W w = (Ready (Some (Inl e)), w') \<Longrightarrow> faulty"
    and next_text: "ok w \<Longrightarrow> poll_next W w = (Ready (Some (Inr (Text_Msg t))), w') \<Longrightarrow> faulty"
    and ready_fault: "ok w \<Longrightarrow> poll_ready W w = (Ready (Inl e), w') \<Longrightarrow> broken"
    and send_fault: "ok w \<Longrightarrow> start_send W w (Binary_Msg d) = (Inl e, w') \<Longrightarrow> broken"
begin

abbreviation avail :: "'w ws_stream \<Rightarrow> byte list" where "avail \<equiv> ws_avail msgs"

abbreviation sent :: "'w ws_stream \<Rightarrow> byte list" where "sent \<equiv> ws_sent out"

abbreviation ok_stream :: "'w ws_stream \<Rightarrow> bool" where "ok_stream \<equiv> ws_ok ok"

text \<open>The law of one poll, together with what a read never touches: the data sent.\<close>

abbreviation good ::
  "'w ws_stream \<Rightarrow> nat \<Rightarrow> (byte list io poll \<times> 'w ws_stream) option \<Rightarrow> bool" where
  "good st \<equiv> read_good True faulty avail (ws_idle idle) (\<lambda>t. ok_stream t \<and> sent t = sent st) st"

lemma good_step:
  assumes "avail st1 = avail st" and "sent st1 = sent st" and "ws_idle idle st1 \<le> ws_idle idle st"
    and "good st1 room res"
  shows "good st room res"
  using read_good_step [OF assms(1,3)] assms(2,4) by auto

lemma ws_data_pong: "ws_data (ms @ [Pong_Msg p]) = ws_data ms"
  by (simp add: ws_data_def)

text \<open>A reply that cannot be sent is dropped; either way no data is sent.\<close>

lemma pong_sent:
  assumes "ok w"
  shows "ok (snd (start_send W w (Pong_Msg p)))"
    and "msgs (snd (start_send W w (Pong_Msg p))) = msgs w"
    and "ws_data (out (snd (start_send W w (Pong_Msg p)))) = ws_data (out w)"
    and "idle (snd (start_send W w (Pong_Msg p))) \<le> idle w"
proof -
  obtain r w' where s: "start_send W w (Pong_Msg p) = (r, w')" by fastforce
  show "ok (snd (start_send W w (Pong_Msg p)))" "msgs (snd (start_send W w (Pong_Msg p))) = msgs w"
    "idle (snd (start_send W w (Pong_Msg p))) \<le> idle w"
    using send_frame [OF assms s] s by simp_all
  show "ws_data (out (snd (start_send W w (Pong_Msg p)))) = ws_data (out w)"
    using s send_ok [OF assms] send_err [OF assms] by (cases r) (auto simp: ws_data_pong)
qed

lemma ws_read_buffered:
  assumes "read_pos st < length (read_buf st)" and "ok_stream st"
  shows "good st room (ws_poll_read W st room)"
  using assms
  by (subst ws_poll_read.simps)
    (auto simp: Let_def ws_state_defs min_def)

lemma ws_read_next:
  assumes "\<not> read_pos st < length (read_buf st)" and "ok_stream st"
    and ih: "\<And>st'. length (msgs (ws_inner st')) < length (msgs (ws_inner st)) \<Longrightarrow> ok_stream st' \<Longrightarrow>
      good st' room (ws_poll_read W st' room)"
  shows "good st room (ws_poll_read W st room)"
proof -
  obtain r w where n: "poll_next W (ws_inner st) = (r, w)" by fastforce
  have k: "ok (ws_inner st)" using assms(2) by (simp add: ws_ok_def)
  note f = next_frame [OF k n]
  have a: "avail st = ws_payload (msgs (ws_inner st))" using assms(1) by (simp add: ws_avail_def)
  have b: "drop (read_pos st) (read_buf st) = []" using assms(1) by simp
  note unf = ws_poll_read.simps [of W st]
  show ?thesis
  proof (cases r)
    case Pending
    then show ?thesis
      using assms(1) n f a b next_pending [OF k]
      by (simp add: unf ws_state_defs)
  next
    case (Ready x)
    show ?thesis
    proof (cases x)
      case None
      then show ?thesis
        using assms(1) n f a b Ready next_end [OF k, of w]
        by (simp add: unf ws_state_defs)
    next
      case (Some item)
      show ?thesis
      proof (cases item)
        case (Inl e)
        then have faulty using next_fault [OF k] n Ready Some by blast
        then show ?thesis
          using assms(1) n f Ready Some Inl
          by (simp add: unf ws_state_defs)
      next
        case (Inr m)
        have m: "msgs (ws_inner st) = m # msgs w" "m = Close_Msg \<longrightarrow> ws_payload (msgs w) = []"
          "idle w \<le> idle (ws_inner st)"
          using next_msg [OF k] n Ready Some Inr by auto
        have go: "good st room (ws_poll_read W st' room)"
          if "msgs (ws_inner st') = msgs w" "ok (ws_inner st')" "avail st' = avail st" "sent st' = sent st"
            "idle (ws_inner st') \<le> idle (ws_inner st)"
          for st'
          using that ih [of st'] m(1) good_step [of st' st] by (simp add: ws_ok_def ws_idle_def)
        have sim: "ws_poll_read W st room =
          (case m of
             Binary_Msg data \<Rightarrow>
               ws_poll_read W (st\<lparr>ws_inner := w, read_buf := data, read_pos := 0\<rparr>) room
           | Ping_Msg payload \<Rightarrow>
               ws_poll_read W (st\<lparr>ws_inner := snd (start_send W w (Pong_Msg payload))\<rparr>) room
           | Pong_Msg p \<Rightarrow> ws_poll_read W (st\<lparr>ws_inner := w\<rparr>) room
           | Close_Msg \<Rightarrow> Some (Ready (Inr []), st\<lparr>ws_inner := w\<rparr>)
           | Text_Msg t \<Rightarrow> Some (Ready (Inl unexpected_text), st\<lparr>ws_inner := w\<rparr>)
           | Frame_Msg f \<Rightarrow> ws_poll_read W (st\<lparr>ws_inner := w\<rparr>) room)"
          using assms(1) n Ready Some Inr by (simp add: unf)
        show ?thesis
        proof (cases m)
          case (Binary_Msg d)
          show ?thesis
            unfolding sim Binary_Msg ws_message.case
            by (rule go) (use f m a Binary_Msg in \<open>auto simp: ws_avail_def ws_sent_def\<close>)
        next
          case (Ping_Msg p)
          show ?thesis
            unfolding sim Ping_Msg ws_message.case
            by (rule go) (use f m a b pong_sent [of w p] Ping_Msg in \<open>auto simp: ws_avail_def ws_sent_def\<close>)
        next
          case (Pong_Msg p)
          show ?thesis
            unfolding sim Pong_Msg ws_message.case
            by (rule go) (use f m a b Pong_Msg in \<open>auto simp: ws_avail_def ws_sent_def\<close>)
        next
          case (Frame_Msg p)
          show ?thesis
            unfolding sim Frame_Msg ws_message.case
            by (rule go) (use f m a b Frame_Msg in \<open>auto simp: ws_avail_def ws_sent_def\<close>)
        next
          case Close_Msg
          then show ?thesis
            unfolding sim using f m a b
            by (simp add: ws_state_defs)
        next
          case (Text_Msg t)
          then have faulty using next_text [OF k] n Ready Some Inr by blast
          then show ?thesis
            unfolding sim using f Text_Msg by (simp add: ws_state_defs)
        qed
      qed
    qed
  qed
qed

lemma ws_read_good: "ok_stream st \<Longrightarrow> good st room (ws_poll_read W st room)"
proof (induction "length (msgs (ws_inner st))" arbitrary: st rule: less_induct)
  case less
  then show ?case using ws_read_buffered ws_read_next by blast
qed

lemma ws_write_cases:
  assumes "ws_poll_write W st buf = (r, st')" and "ok_stream st"
  shows "ok_stream st' \<and> avail st' = avail st \<and> ws_stalls stalls st' \<le> ws_stalls stalls st \<and>
    (r = Pending \<longrightarrow> ws_stalls stalls st' < ws_stalls stalls st) \<and>
    (case r of Ready (Inr n) \<Rightarrow> n = length buf \<and> sent st' = sent st @ buf | _ \<Rightarrow> sent st' = sent st)"
proof -
  have k: "ok (ws_inner st)" using assms(2) by (simp add: ws_ok_def)
  obtain p w where q: "poll_ready W (ws_inner st) = (p, w)" by fastforce
  note f = ready_frame [OF k q]
  consider "p = Pending" | e where "p = Ready (Inl e)" | u where "p = Ready (Inr u)"
    by (metis poll.exhaust sum.exhaust)
  then show ?thesis
  proof cases
    case (3 u)
    obtain s w' where t: "start_send W w (Binary_Msg buf) = (s, w')" by fastforce
    show ?thesis
    proof (cases s)
      case (Inl e)
      then show ?thesis
        using assms(1) 3 q f t send_frame [of w "Binary_Msg buf" s w'] send_err [of w]
        by (fastforce simp: ws_poll_write_def ws_state_defs)
    next
      case (Inr v)
      then have "out w' = out w @ [Binary_Msg buf]" using t f send_ok by auto
      then show ?thesis
        using assms(1) 3 q f t Inr send_frame [of w "Binary_Msg buf" s w']
        by (auto simp: ws_poll_write_def ws_state_defs ws_data_def)
    qed
  qed (use assms(1) q f ready_pending [OF k, of w] in \<open>auto simp: ws_poll_write_def ws_state_defs\<close>)
qed

text \<open>A byte stream over a WebSocket keeps the contract of a socket.\<close>

lemma ws_duplex: "duplex (ws_io W) avail (ws_idle idle) sent (ws_stalls stalls) ok_stream True faulty"
proof unfold_locales
  fix st room r st'
  assume ok: "ok_stream st"
  note g = ws_read_good [OF ok, of room]
  show "read_good True faulty avail (ws_idle idle) ok_stream st room (poll_read (ws_io W) st room)"
    using read_good_mono [OF _ g, of ok_stream] by simp
  show "poll_read (ws_io W) st room = Some (r, st') \<Longrightarrow> sent st' = sent st"
    using g by (simp add: read_good_def)
next
  fix st st' buf n e q
  assume ok: "ok_stream st"
  show "poll_write (ws_io W) st buf = (Ready (Inr n), st') \<Longrightarrow>
      n \<le> length buf \<and> sent st' = sent st @ take n buf"
    and "poll_write (ws_io W) st buf = (Pending, st') \<Longrightarrow> sent st' = sent st"
    and "poll_write (ws_io W) st buf = (Ready (Inl e), st') \<Longrightarrow> sent st' = sent st"
    and "poll_write (ws_io W) st buf = (Pending, st') \<Longrightarrow> ws_stalls stalls st' < ws_stalls stalls st"
    and "poll_write (ws_io W) st buf = (Ready q, st') \<Longrightarrow> ws_stalls stalls st' \<le> ws_stalls stalls st"
    using ws_write_cases [OF _ ok] by fastforce+
  obtain r s where "ws_poll_write W st buf = (r, s)" by fastforce
  with ws_write_cases [OF this ok]
  show "ok_stream (snd (poll_write (ws_io W) st buf))"
    and "avail (snd (poll_write (ws_io W) st buf)) = avail st"
    by simp_all
next
  fix st assume ok: "ok_stream st"
  obtain r w where f: "poll_flush_sink W (ws_inner st) = (r, w)" by fastforce
  obtain q v where c: "poll_close_sink W (ws_inner st) = (q, v)" by fastforce
  show "sent (snd (poll_flush (ws_io W) st)) = sent st"
    "ok_stream (snd (poll_flush (ws_io W) st))"
    "avail (snd (poll_flush (ws_io W) st)) = avail st"
    using flush_frame [OF _ f] ok f
    by (simp_all add: ws_poll_flush_def ws_ok_def ws_sent_def ws_avail_def)
  show "sent (snd (poll_shutdown (ws_io W) st)) = sent st"
    "ok_stream (snd (poll_shutdown (ws_io W) st))"
    "avail (snd (poll_shutdown (ws_io W) st)) = avail st"
    using close_frame [OF _ c] ok c
    by (simp_all add: ws_poll_shutdown_def ws_ok_def ws_sent_def ws_avail_def)
qed

text \<open>A write fails only when the sink does.\<close>

lemma ws_write_fault:
  assumes "ws_poll_write W st buf = (Ready (Inl e), st')" and "ok_stream st"
  shows broken
proof -
  have k: "ok (ws_inner st)" using assms(2) by (simp add: ws_ok_def)
  obtain p w where q: "poll_ready W (ws_inner st) = (p, w)" by fastforce
  obtain s w' where t: "start_send W w (Binary_Msg buf) = (s, w')" by fastforce
  have kw: "ok w" using ready_frame [OF k q] by simp
  from assms(1) q t consider x where "p = Ready (Inl x)" | x where "s = Inl x"
    by (auto simp: ws_poll_write_def split: poll.splits sum.splits)
  then show ?thesis
    using ready_fault [OF k] send_fault [OF kw] q t by cases blast+
qed

lemma ws_write_sound: "async_write_sound (ws_io W) (ws_stalls stalls) ok_stream broken"
proof (intro async_write_sound.intro async_write_sound_axioms.intro)
  show "async_write_live (ws_io W) (ws_stalls stalls) ok_stream"
    using duplex.axioms(2) [OF ws_duplex] by (rule async_write.axioms(1))
  fix st st' buf e assume k: "ok_stream st"
  show "poll_write (ws_io W) st buf = (Ready (Inl e), st') \<Longrightarrow> broken"
    using ws_write_fault [OF _ k] by auto
  show "buf \<noteq> [] \<Longrightarrow> poll_write (ws_io W) st buf = (Ready (Inr 0), st') \<Longrightarrow> broken"
    using ws_write_cases [OF _ k, of buf "Ready (Inr 0)" st'] by auto
qed

end

section \<open>A scripted WebSocket\<close>

datatype ws_event = Msg ws_message | WsPending | WsFail io_error

text \<open>\<open>full\<close> counts the polls for which the sink is not ready, \<open>refuse\<close> the sends that fail.\<close>

record wsock =
  script :: "ws_event list"
  full :: nat
  refuse :: nat
  outbox :: "ws_message list"

fun events_msgs :: "ws_event list \<Rightarrow> ws_message list" where
  "events_msgs [] = []"
| "events_msgs (Msg Close_Msg # es) = [Close_Msg]"
| "events_msgs (Msg m # es) = m # events_msgs es"
| "events_msgs (_ # es) = events_msgs es"

definition wsock_next :: "wsock \<Rightarrow> ws_message io option poll \<times> wsock" where
  "wsock_next w =
     (case script w of
        [] \<Rightarrow> (Ready None, w)
      | Msg m # es \<Rightarrow>
          (Ready (Some (Inr m)), w\<lparr>script := (if m = Close_Msg then [] else es)\<rparr>)
      | WsPending # es \<Rightarrow> (Pending, w\<lparr>script := es\<rparr>)
      | WsFail e # es \<Rightarrow> (Ready (Some (Inl e)), w\<lparr>script := es\<rparr>))"

definition wsock_ops :: "wsock ws_ops" where
  "wsock_ops =
     \<lparr>poll_next = wsock_next,
      poll_ready = (\<lambda>w. if 0 < full w then (Pending, w\<lparr>full := full w - 1\<rparr>) else (Ready (Inr ()), w)),
      start_send = (\<lambda>w m. if 0 < refuse w
                          then (Inl (IoError OtherKind (lit ''send queue full'')), w\<lparr>refuse := refuse w - 1\<rparr>)
                          else (Inr (), w\<lparr>outbox := outbox w @ [m]\<rparr>)),
      poll_flush_sink = (\<lambda>w. (Ready (Inr ()), w)),
      poll_close_sink = (\<lambda>w. (Ready (Inr ()), w\<lparr>outbox := outbox w @ [Close_Msg]\<rparr>))\<rparr>"

lemma events_msgs_Msg:
  "events_msgs (Msg m # es) = m # (if m = Close_Msg then [] else events_msgs es)"
  by (cases m) simp_all

text \<open>The receiving side waits once for each \<^term>\<open>WsPending\<close> of its script.\<close>

definition wsock_idle :: "wsock \<Rightarrow> nat" where
  "wsock_idle w = length (filter (\<lambda>ev. ev = WsPending) (script w))"

text \<open>Unless it is \<open>faulty\<close>, the script has no failure and no text message; unless \<open>broken\<close>, no send fails.\<close>

definition wsock_ok :: "bool \<Rightarrow> bool \<Rightarrow> wsock \<Rightarrow> bool" where
  "wsock_ok faulty broken w \<longleftrightarrow>
     (faulty \<or> list_all (\<lambda>ev. case ev of WsFail e \<Rightarrow> False | Msg (Text_Msg t) \<Rightarrow> False | _ \<Rightarrow> True) (script w)) \<and>
     (broken \<or> refuse w = 0)"

interpretation ws: ws_peer wsock_ops "\<lambda>w. events_msgs (script w)" outbox wsock_idle full
    "wsock_ok faulty broken" faulty broken for faulty broken
proof unfold_locales
  fix w w' m r e t
  show "poll_next wsock_ops w = (Ready (Some (Inr m)), w') \<Longrightarrow>
      events_msgs (script w) = m # events_msgs (script w') \<and> wsock_idle w' \<le> wsock_idle w \<and>
      (m = Close_Msg \<longrightarrow> ws_payload (events_msgs (script w')) = [])"
    by (auto simp: wsock_ops_def wsock_next_def events_msgs_Msg wsock_idle_def
          split: list.splits ws_event.splits if_splits)
  show "poll_next wsock_ops w = (Ready None, w') \<Longrightarrow>
      events_msgs (script w) = [] \<and> events_msgs (script w') = [] \<and> wsock_idle w' \<le> wsock_idle w"
    and "poll_next wsock_ops w = (Pending, w') \<Longrightarrow>
      events_msgs (script w') = events_msgs (script w) \<and> wsock_idle w' < wsock_idle w"
    by (auto simp: wsock_ops_def wsock_next_def wsock_idle_def split: list.splits ws_event.splits)
  assume k: "wsock_ok faulty broken w"
  show "poll_next wsock_ops w = (r, w') \<Longrightarrow> wsock_ok faulty broken w' \<and> outbox w' = outbox w"
    and "poll_next wsock_ops w = (Ready (Some (Inl e)), w') \<Longrightarrow> faulty"
    and "poll_next wsock_ops w = (Ready (Some (Inr (Text_Msg t))), w') \<Longrightarrow> faulty"
    using k by (auto simp: wsock_ops_def wsock_next_def wsock_ok_def split: list.splits ws_event.splits if_splits)
qed (auto simp: wsock_ops_def wsock_idle_def wsock_ok_def ws_data_def split: if_splits)

interpretation ws_stream: duplex "ws_io wsock_ops" "ws_avail (\<lambda>w. events_msgs (script w))"
    "ws_idle wsock_idle" "ws_sent outbox" "ws_stalls full" "ws_ok (wsock_ok faulty broken)" True faulty
    for faulty broken
  by (rule ws.ws_duplex)

lemma ws_payload_binary: "ws_payload (map Binary_Msg ds) = concat ds"
  by (induction ds) simp_all

section \<open>Properties\<close>

text \<open>C18: Reading through \<open>WsStream\<close>, over any WebSocket that delivers finitely many messages: every
  poll returns, and the bytes delivered are the beginning of the concatenated binary messages,
  in order, pings, pongs and empty messages in between notwithstanding.  It never ends early:
  \<open>read_to_end\<close> with enough polls gets all of them.  An error is reported only when the
  WebSocket reports one or delivers a text message; a refused reply to a ping is none.\<close>

theorem ws_read_concatenates:
  assumes "ws_peer W msgs out idle stalls ok faulty broken" and "ok w"
  defines "payload \<equiv> ws_payload (msgs w)"
  shows "(\<exists>bs e st'. read_seq (ws_io W) (ws_stream_new w) cs = Some (bs, e, st') \<and>
      (\<exists>rest. payload = bs @ rest) \<and> (e = None \<or> faulty)) \<and>
    (list_all (\<lambda>c. 0 < c) cs \<and> length payload + idle w < length cs \<longrightarrow>
      (\<exists>bs r st'. read_to_end (ws_io W) (ws_stream_new w) cs = Some (bs, Ready r, st') \<and>
         (\<exists>rest. payload = bs @ rest) \<and> (r = Inr () \<longrightarrow> bs = payload) \<and> (r = Inr () \<or> faulty)))"
proof -
  have d: "async_read (ws_io W) (ws_avail msgs) (ws_idle idle) (ws_ok ok) True faulty"
    using ws_peer.ws_duplex [OF assms(1)] by (rule duplex.axioms(1))
  have k: "ws_ok ok (ws_stream_new w)" using assms(2) by (simp add: ws_ok_def ws_stream_new_def)
  have "ws_idle idle (ws_stream_new w) = idle w" "ws_avail msgs (ws_stream_new w) = payload"
    by (simp_all add: ws_idle_def ws_avail_def ws_stream_new_def payload_def)
  with async_read.read_seq_good [OF d k, of cs] async_read.read_to_end_all [OF d TrueI k, of cs]
  show ?thesis by auto
qed

theorem ws_read_concatenates_witness:
  "\<exists>st'. read_to_end (ws_io wsock_ops)
      (ws_stream_new \<lparr>script = [Msg (Binary_Msg [1, 2, 3]), Msg (Ping_Msg []), WsPending, Msg (Binary_Msg [4]),
                              Msg Close_Msg], full = 0, refuse = 1, outbox = []\<rparr>) [2, 2, 2, 2, 2, 2] =
        Some ([1, 2, 3, 4], Ready (Inr ()), st')"
  using ws_read_concatenates [OF ws.ws_peer_axioms [of False True], of
      "\<lparr>script = [Msg (Binary_Msg [1, 2, 3]), Msg (Ping_Msg []), WsPending, Msg (Binary_Msg [4]),
                 Msg Close_Msg], full = 0, refuse = 1, outbox = []\<rparr>" "[2, 2, 2, 2, 2, 2]"]
  by (simp add: wsock_idle_def wsock_ok_def)

text \<open>C19: Writing a whole buffer through \<open>WsStream\<close> ends after boundedly many polls, and it succeeds
  unless the sink of the WebSocket reports an error.  After success the WebSocket was handed
  exactly the buffer, as binary messages, once and in order, however often the sink makes the
  writer wait.\<close>

theorem ws_write_sends:
  assumes "ws_peer W msgs out idle stalls ok faulty broken" and "ok w" and "stalls w + length buf \<le> k"
  shows "\<exists>r st'. write_all (ws_io W) (ws_stream_new w) buf k = (Ready r, st') \<and>
    (r = Inr () \<or> broken) \<and>
    (r = Inr () \<longrightarrow> ws_data (out (ws_inner st')) = ws_data (out w) @ buf)"
proof -
  have dw: "async_write (ws_io W) (ws_stalls stalls) (ws_ok ok) (ws_sent out)"
    using ws_peer.ws_duplex [OF assms(1)] by (rule duplex.axioms(2))
  then have d: "async_write_live (ws_io W) (ws_stalls stalls) (ws_ok ok)" by (rule async_write.axioms(1))
  have k: "ws_ok ok (ws_stream_new w)" "ws_stalls stalls (ws_stream_new w) = stalls w"
    using assms(2) by (simp_all add: ws_ok_def ws_stalls_def ws_stream_new_def)
  obtain r st' where w: "write_all (ws_io W) (ws_stream_new w) buf k = (Ready r, st')"
    using async_write_live.write_all_returns [OF d k(1), of buf k] assms(3) k(2) by auto
  then show ?thesis
    using async_write.write_all_conserves [OF dw k(1) w]
      async_write_sound.write_all_sound [OF ws_peer.ws_write_sound [OF assms(1)] k(1) w]
    by (auto simp: ws_sent_def ws_stream_new_def)
qed

theorem ws_write_sends_witness:
  "\<exists>st'. write_all (ws_io wsock_ops) (ws_stream_new \<lparr>script = [], full = 3, refuse = 0, outbox = []\<rparr>)
       [1, 2] 5 = (Ready (Inr ()), st') \<and> ws_data (outbox (ws_inner st')) = [1, 2]"
  using ws_write_sends [OF ws.ws_peer_axioms [of True False], where k = 5 and buf = "[1, 2]"
      and w = "\<lparr>script = [], full = 3, refuse = 0, outbox = []\<rparr>"]
  by (auto simp: wsock_ok_def ws_data_def)

end
