(* ===== verification/V2ray_Dial.thy ===== *)
theory V2ray_Dial
  imports V2ray_Opts Ws_Stream
begin

text \<open>
  \<open>dial\<close> of \<open>mihomo-proxy-patched/src/v2ray_plugin.rs\<close> with \<open>build_tls_connector\<close> and
  \<open>InsecureCertVerifier\<close>: the TCP connection, the TLS handshake, the WebSocket upgrade.  The
  libraries that perform them are the record \<open>dial_env\<close>; the model is what is asked of them,
  in which order, and how their errors are reported.  A header map iterates in an order of
  its own, which is part of that record.
\<close>

section \<open>Model\<close>

text \<open>The verifier that accepts everything, and the two configurations.\<close>

datatype verifier = Insecure_Cert_Verifier | Web_Pki_Roots

definition verify_server_cert :: "'cert \<Rightarrow> rstr + unit" where
  "verify_server_cert end_entity = Inr ()"

definition verify_tls12_signature :: "'msg \<Rightarrow> 'cert \<Rightarrow> 'sig \<Rightarrow> rstr + unit" where
  "verify_tls12_signature msg cert dss = Inr ()"

definition verify_tls13_signature :: "'msg \<Rightarrow> 'cert \<Rightarrow> 'sig \<Rightarrow> rstr + unit" where
  "verify_tls13_signature msg cert dss = Inr ()"

text \<open>It offers the schemes of the default provider of the crypto library, the argument.\<close>

definition supported_verify_schemes :: "'scheme list \<Rightarrow> 'scheme list" where
  "supported_verify_schemes provider_schemes = provider_schemes"

definition build_tls_connector :: "bool \<Rightarrow> verifier" where
  "build_tls_connector skip_cert_verify =
     (if skip_cert_verify then Insecure_Cert_Verifier else Web_Pki_Roots)"

text \<open>\<open>Box<dyn IoStream>\<close>.\<close>

datatype ('tcp, 'tls) io_stream = Tls_Stream 'tls | Tcp_Stream 'tcp

record http_request =
  up_method :: rstr
  up_uri :: rstr
  up_headers :: "(rstr \<times> rstr) list"

record ('tcp, 'name, 'tls, 'ws) dial_env =
  tcp_connect :: "rstr \<Rightarrow> rstr + 'tcp"
  server_name :: "rstr \<Rightarrow> rstr + 'name"
  tls_connect :: "verifier \<Rightarrow> 'name \<Rightarrow> 'tcp \<Rightarrow> rstr + 'tls"
  generate_key :: rstr
  iter_headers :: "(rstr \<rightharpoonup> rstr) \<Rightarrow> (rstr \<times> rstr) list"  \<comment> \<open>the order in which a header map iterates\<close>
  build_request :: "http_request \<Rightarrow> rstr option"  \<comment> \<open>the error of the request builder\<close>
  client_async :: "http_request \<Rightarrow> ('tcp, 'tls) io_stream \<Rightarrow> rstr + 'ws"

definition host_header :: "v2ray_plugin_config \<Rightarrow> rstr \<Rightarrow> rstr" where
  "host_header cfg server_host = (if cfg_host cfg = [] then server_host else cfg_host cfg)"

definition dial_uri :: "v2ray_plugin_config \<Rightarrow> rstr \<Rightarrow> rstr" where
  "dial_uri cfg host =
     (if cfg_tls cfg then lit ''wss'' else lit ''ws'') @ lit ''://'' @ host @ cfg_path cfg"

definition upgrade_request ::
  "('tcp, 'name, 'tls, 'ws) dial_env \<Rightarrow> v2ray_plugin_config \<Rightarrow> rstr \<Rightarrow> http_request" where
  "upgrade_request env cfg host =
     \<lparr>up_method = lit ''GET'', up_uri = dial_uri cfg host,
      up_headers =
        [(lit ''Host'', host), (lit ''Connection'', lit ''Upgrade''),
         (lit ''Upgrade'', lit ''websocket''), (lit ''Sec-WebSocket-Version'', lit ''13''),
         (lit ''Sec-WebSocket-Key'', generate_key env)] @ iter_headers env (cfg_headers cfg)\<rparr>"

definition wrap_stream ::
  "('tcp, 'name, 'tls, 'ws) dial_env \<Rightarrow> v2ray_plugin_config \<Rightarrow> rstr \<Rightarrow> 'tcp \<Rightarrow>
   mihomo_error + ('tcp, 'tls) io_stream" where
  "wrap_stream env cfg host tcp =
     (if cfg_tls cfg then
        (case server_name env host of
           Inl e \<Rightarrow> Inl (Proxy (lit ''v2ray-plugin tls sni: '' @ e))
         | Inr name \<Rightarrow>
             (case tls_connect env (build_tls_connector (cfg_skip_cert_verify cfg)) name tcp of
                Inl e \<Rightarrow> Inl (Proxy (lit ''v2ray-plugin tls: '' @ e))
              | Inr tls \<Rightarrow> Inr (Tls_Stream tls)))
      else Inr (Tcp_Stream tcp))"

definition dial ::
  "('tcp, 'name, 'tls, 'ws) dial_env \<Rightarrow> v2ray_plugin_config \<Rightarrow> rstr \<Rightarrow> u16 \<Rightarrow>
   mihomo_error + 'ws ws_stream" where
  "dial env cfg server_host server_port =
     (let host = host_header cfg server_host in
      case tcp_connect env (server_host @ lit '':'' @ dec (unat server_port)) of
        Inl e \<Rightarrow> Inl (Io e)
      | Inr tcp \<Rightarrow>
          (case wrap_stream env cfg host tcp of
             Inl e \<Rightarrow> Inl e
           | Inr io \<Rightarrow>
               (let request = upgrade_request env cfg host in
                case build_request env request of
                  Some e \<Rightarrow> Inl (Proxy (lit ''v2ray-plugin ws request: '' @ e))
                | None \<Rightarrow>
                    (case client_async env request io of
                       Inl e \<Rightarrow> Inl (Proxy (lit ''v2ray-plugin ws handshake: '' @ e))
                     | Inr ws \<Rightarrow> Inr (ws_stream_new ws)))))"

section \<open>The URI\<close>

text \<open>
  The authority of a URI (RFC 3986): what stands between the two slashes after the scheme and
  the next slash, question mark or number sign, or the end.
\<close>

definition slash :: byte where "slash = 47"

definition ends_authority :: "byte \<Rightarrow> bool" where
  "ends_authority b \<longleftrightarrow> b = slash \<or> b = 63 \<or> b = 35"

fun after_scheme :: "rstr \<Rightarrow> rstr" where
  "after_scheme [] = []"
| "after_scheme (b # r) = (if b = slash then (case r of [] \<Rightarrow> [] | c # s \<Rightarrow> if c = slash then s else after_scheme r)
                           else after_scheme r)"

definition uri_authority :: "rstr \<Rightarrow> rstr" where
  "uri_authority u = takeWhile (\<lambda>b. \<not> ends_authority b) (after_scheme u)"

lemma after_scheme_dial: "after_scheme (dial_uri cfg host) = host @ cfg_path cfg"
  by (simp add: dial_uri_def lit_simps slash_def)

lemma uri_authority_dial:
  assumes "list_all (\<lambda>b. \<not> ends_authority b) host"
  shows "uri_authority (dial_uri cfg host) = host @ takeWhile (\<lambda>b. \<not> ends_authority b) (cfg_path cfg)"
proof -
  have "\<forall>b \<in> set host. \<not> ends_authority b" using assms by (simp add: list_all_iff)
  then show ?thesis by (simp add: uri_authority_def after_scheme_dial takeWhile_append2)
qed

section \<open>Properties\<close>

text \<open>C26: A dial that succeeds has connected to the server's host and port, and has sent this request:
  a GET of the scheme that TLS asks for, the host and the configured path, where the host is the
  configured one or, when that is empty, the server's, with the five headers of the upgrade and
  after them every configured header once and no others.  It went over the TLS stream when TLS
  is on, made for that host with the certificate checked against the public roots unless told to
  skip that, and over the plain one when it is not; the stream returned is fresh.\<close>

theorem dial_effect:
  assumes "dial env cfg server_host port = Inr st"
    and "map_of (iter_headers env (cfg_headers cfg)) = cfg_headers cfg"
    and "distinct (map fst (iter_headers env (cfg_headers cfg)))"
  defines "host \<equiv> if cfg_host cfg = [] then server_host else cfg_host cfg"
  shows "\<exists>tcp io ws extra. tcp_connect env (server_host @ lit '':'' @ dec (unat port)) = Inr tcp \<and>
    (if cfg_tls cfg
     then \<exists>name tls. server_name env host = Inr name \<and>
       tls_connect env (if cfg_skip_cert_verify cfg then Insecure_Cert_Verifier else Web_Pki_Roots)
         name tcp = Inr tls \<and> io = Tls_Stream tls
     else io = Tcp_Stream tcp) \<and>
    map_of extra = cfg_headers cfg \<and> distinct (map fst extra) \<and>
    client_async env
      \<lparr>up_method = lit ''GET'',
       up_uri = (if cfg_tls cfg then lit ''wss://'' else lit ''ws://'') @ host @ cfg_path cfg,
       up_headers =
         (lit ''Host'', host) # (lit ''Connection'', lit ''Upgrade'') #
         (lit ''Upgrade'', lit ''websocket'') # (lit ''Sec-WebSocket-Version'', lit ''13'') #
         (lit ''Sec-WebSocket-Key'', generate_key env) # extra\<rparr> io = Inr ws \<and>
    ws_inner st = ws \<and> read_buf st = [] \<and> read_pos st = 0"
proof -
  have uri: "dial_uri cfg host = (if cfg_tls cfg then lit ''wss://'' else lit ''ws://'') @ host @ cfg_path cfg"
    by (simp add: dial_uri_def lit_simps)
  have h: "host_header cfg server_host = host" by (simp add: host_header_def host_def)
  obtain tcp io ws where d: "tcp_connect env (server_host @ lit '':'' @ dec (unat port)) = Inr tcp"
    "wrap_stream env cfg host tcp = Inr io"
    "client_async env (upgrade_request env cfg host) io = Inr ws" "st = ws_stream_new ws"
    using assms(1) by (auto simp: dial_def h Let_def split: sum.splits option.splits)
  have "if cfg_tls cfg
     then \<exists>name tls. server_name env host = Inr name \<and>
       tls_connect env (if cfg_skip_cert_verify cfg then Insecure_Cert_Verifier else Web_Pki_Roots)
         name tcp = Inr tls \<and> io = Tls_Stream tls
     else io = Tcp_Stream tcp"
    using d(2) by (auto simp: wrap_stream_def build_tls_connector_def split: sum.splits if_splits)
  with d assms(2,3) show ?thesis
    unfolding upgrade_request_def uri
    by (intro exI [of _ tcp] exI [of _ io] exI [of _ ws] exI [of _ "iter_headers env (cfg_headers cfg)"])
      (simp add: ws_stream_new_def)
qed

definition sample_env :: "(nat, rstr, nat, nat) dial_env" where
  "sample_env = \<lparr>tcp_connect = (\<lambda>a. Inr 1), server_name = Inr,
                 tls_connect = (\<lambda>v n t. if v = Web_Pki_Roots then Inr 2 else Inr 3),
                 generate_key = [],
                 iter_headers = (\<lambda>m. case m (lit ''X'') of None \<Rightarrow> [] | Some v \<Rightarrow> [(lit ''X'', v)]),
                 build_request = (\<lambda>_. None),
                 client_async = (\<lambda>r io. case io of Tls_Stream t \<Rightarrow> Inr (10 + t) | Tcp_Stream t \<Rightarrow> Inr t)\<rparr>"

definition sample_config :: v2ray_plugin_config where
  "sample_config = default_config\<lparr>cfg_tls := True, cfg_host := lit ''h'', cfg_headers := [lit ''X'' \<mapsto> lit ''y'']\<rparr>"

theorem dial_effect_witness:
  "dial sample_env sample_config (lit ''s'') 443 = Inr (ws_stream_new 12) \<and>
   (\<exists>io extra. map_of extra = [lit ''X'' \<mapsto> lit ''y''] \<and> client_async sample_env
      \<lparr>up_method = lit ''GET'', up_uri = lit ''wss://h/'',
       up_headers = (lit ''Host'', lit ''h'') # (lit ''Connection'', lit ''Upgrade'') #
         (lit ''Upgrade'', lit ''websocket'') # (lit ''Sec-WebSocket-Version'', lit ''13'') #
         (lit ''Sec-WebSocket-Key'', []) # extra\<rparr> io = Inr 12)"
proof -
  have d: "dial sample_env sample_config (lit ''s'') 443 = Inr (ws_stream_new 12)"
    by (simp add: dial_def wrap_stream_def sample_env_def sample_config_def default_config_def
        host_header_def build_tls_connector_def Let_def lit_simps)
  have h: "iter_headers sample_env (cfg_headers sample_config) = [(lit ''X'', lit ''y'')]"
    by (simp add: sample_env_def sample_config_def)
  have c: "cfg_host sample_config = lit ''h''" "cfg_tls sample_config" "cfg_path sample_config = lit ''/''"
    "cfg_headers sample_config = [lit ''X'' \<mapsto> lit ''y'']" "generate_key sample_env = []"
    by (simp_all add: sample_config_def default_config_def sample_env_def)
  from dial_effect [OF d] d show ?thesis
    unfolding h by (auto simp: c lit_simps ws_stream_new_def)
qed

text \<open>C27: The URI of the upgrade names the host as its authority exactly when the path is empty or starts
  with a slash (or a question mark or number sign): a path option without one, like \<open>path=ws\<close>,
  is glued to the host.\<close>

theorem uri_names_host:
  assumes "list_all (\<lambda>b. \<not> ends_authority b) host"
  shows "uri_authority (up_uri (upgrade_request env cfg host)) = host \<longleftrightarrow>
    cfg_path cfg = [] \<or> hd (cfg_path cfg) \<in> {slash, 63, 35}"
  using uri_authority_dial [OF assms, of cfg]
  by (cases "cfg_path cfg") (auto simp: upgrade_request_def ends_authority_def)

theorem uri_names_host_witness:
  "uri_authority (up_uri (upgrade_request sample_env (default_config\<lparr>cfg_path := lit ''ws''\<rparr>)
      (lit ''example.com''))) \<noteq> lit ''example.com'' \<and>
   uri_authority (up_uri (upgrade_request sample_env (default_config\<lparr>cfg_path := lit ''/ws''\<rparr>)
      (lit ''example.com''))) = lit ''example.com''"
  using uri_names_host [of "lit ''example.com''" sample_env "default_config\<lparr>cfg_path := lit ''ws''\<rparr>"]
    uri_names_host [of "lit ''example.com''" sample_env "default_config\<lparr>cfg_path := lit ''/ws''\<rparr>"]
  by (simp add: lit_simps slash_def ends_authority_def)

end
