(* ===== verification/V2ray_Tests.thy ===== *)
theory V2ray_Tests
  imports V2ray_Opts
begin

text \<open>
  The unit tests of \<open>mihomo-proxy-patched/src/v2ray_plugin.rs\<close> (its module \<open>tests\<close>) on the
  model.  A test is the conjunction of its assertions; an \<open>expect\<close> on an error is a failed
  test.
\<close>

section \<open>The tests\<close>

definition parse_websocket_mux :: bool where
  "parse_websocket_mux \<longleftrightarrow>
     (case parse_opts (lit ''mode=websocket;mux=1;host=example.com;path=/ws'') of
        Inl e \<Rightarrow> False
      | Inr cfg \<Rightarrow> cfg_mode cfg = Websocket \<and> \<not> cfg_tls cfg \<and> cfg_mux cfg \<and>
          cfg_host cfg = lit ''example.com'' \<and> cfg_path cfg = lit ''/ws'' \<and> \<not> cfg_skip_cert_verify cfg)"

definition parse_tls_websocket_mux_skip_verify :: bool where
  "parse_tls_websocket_mux_skip_verify \<longleftrightarrow>
     (case parse_opts (lit ''mode=websocket;tls;mux=1;host=example.com;path=/ws;skip-cert-verify=true'') of
        Inl e \<Rightarrow> False
      | Inr cfg \<Rightarrow> cfg_tls cfg \<and> cfg_mux cfg \<and> cfg_skip_cert_verify cfg \<and>
          cfg_host cfg = lit ''example.com'' \<and> cfg_path cfg = lit ''/ws'')"

definition parse_defaults_on_empty :: bool where
  "parse_defaults_on_empty \<longleftrightarrow>
     (case parse_opts (lit '''') of
        Inl e \<Rightarrow> False
      | Inr cfg \<Rightarrow> cfg_mode cfg = Websocket \<and> \<not> cfg_tls cfg \<and> cfg_path cfg = lit ''/'' \<and>
          \<not> cfg_mux cfg \<and> cfg_host cfg = [])"

definition parse_bare_tls_and_mux :: bool where
  "parse_bare_tls_and_mux \<longleftrightarrow>
     (case parse_opts (lit ''tls;mux'') of Inl e \<Rightarrow> False | Inr cfg \<Rightarrow> cfg_tls cfg \<and> cfg_mux cfg)"

definition parse_unknown_key_ignored :: bool where
  "parse_unknown_key_ignored \<longleftrightarrow>
     (case parse_opts (lit ''mode=websocket;foo=bar;path=/ws'') of
        Inl e \<Rightarrow> False | Inr cfg \<Rightarrow> cfg_path cfg = lit ''/ws'')"

definition parse_bad_mode_errors :: bool where
  "parse_bad_mode_errors \<longleftrightarrow>
     (case parse_opts (lit ''mode=quic'') of Inl e \<Rightarrow> True | Inr cfg \<Rightarrow> False)"

definition parse_header_opt :: bool where
  "parse_header_opt \<longleftrightarrow>
     (case parse_opts (lit ''mode=websocket;header=X-Foo:bar;host=example.com'') of
        Inl e \<Rightarrow> False | Inr cfg \<Rightarrow> cfg_headers cfg (lit ''X-Foo'') = Some (lit ''bar''))"

section \<open>Evaluation\<close>

text \<open>An options string of plain options is its options (\<open>Rust_Str.trim\<close> is the identity on them).\<close>

lemmas parse_eval = parse_opts_def tokens_def key_value_def apply_opt_def default_config_def
  parse_bool_def eq_ignore_ascii_case_def to_ascii_lowercase_def to_ascii_lower_def semicolon_def
  equals_def colon_def lit_simps trim_stable_id trim_stable_def

lemma passes_parse_websocket_mux: parse_websocket_mux
  by (simp add: parse_websocket_mux_def parse_eval)

lemma passes_parse_tls_websocket_mux_skip_verify: parse_tls_websocket_mux_skip_verify
  by (simp add: parse_tls_websocket_mux_skip_verify_def parse_eval)

lemma passes_parse_defaults_on_empty: parse_defaults_on_empty
  by (simp add: parse_defaults_on_empty_def parse_eval)

lemma passes_parse_bare_tls_and_mux: parse_bare_tls_and_mux
  by (simp add: parse_bare_tls_and_mux_def parse_eval)

lemma passes_parse_unknown_key_ignored: parse_unknown_key_ignored
  by (simp add: parse_unknown_key_ignored_def parse_eval)

lemma passes_parse_bad_mode_errors: parse_bad_mode_errors
  by (simp add: parse_bad_mode_errors_def parse_eval)

lemma passes_parse_header_opt: parse_header_opt
  by (simp add: parse_header_opt_def parse_eval)

section \<open>Properties\<close>

text \<open>The unit tests of the options parser pass on the model.\<close>

lemma v2ray_tests_pass:
  "list_all id [parse_websocket_mux, parse_tls_websocket_mux_skip_verify, parse_defaults_on_empty,
     parse_bare_tls_and_mux, parse_unknown_key_ignored, parse_bad_mode_errors, parse_header_opt]"
  by (simp add: passes_parse_websocket_mux passes_parse_tls_websocket_mux_skip_verify
      passes_parse_defaults_on_empty passes_parse_bare_tls_and_mux passes_parse_unknown_key_ignored
      passes_parse_bad_mode_errors passes_parse_header_opt)

end
