(* ===== verification/Http_Obfs.thy ===== *)
theory Http_Obfs
  imports Async_Io
begin

text \<open>
  The HTTP mode of \<open>mihomo-proxy-patched/src/simple_obfs.rs\<close>: \<open>HttpObfs\<close>, its
  \<open>AsyncRead\<close> and \<open>AsyncWrite\<close>, \<open>build_http_request\<close> and \<open>find_double_crlf\<close>.  The random
  draws and the base64 encoder of the request's key, which come from other crates, are the
  record \<open>http_env\<close>.
\<close>

section \<open>Model\<close>

definition MAX_HEADER :: nat where "MAX_HEADER = 16 * 1024"

definition crlf :: rstr where "crlf = [13, 10]"

definition double_crlf :: rstr where "double_crlf = [13, 10, 13, 10]"

record http_env =
  rand_bytes :: "byte list"
  rand_maj :: u32
  rand_min :: u32
  b64_url_safe :: "byte list \<Rightarrow> rstr"

definition build_http_request :: "http_env \<Rightarrow> rstr \<Rightarrow> u16 \<Rightarrow> byte list \<Rightarrow> byte list" where
  "build_http_request env host port body =
     (let key = b64_url_safe env (rand_bytes env);
          host_header = (if port = 80 then host else host @ lit '':'' @ dec (unat port));
          ua_maj = rand_maj env mod 54;
          ua_min = rand_min env mod 2
      in lit ''GET / HTTP/1.1'' @ crlf
         @ lit ''Host: '' @ host_header @ crlf
         @ lit ''User-Agent: curl/7.'' @ dec (unat ua_maj) @ lit ''.'' @ dec (unat ua_min) @ crlf
         @ lit ''Upgrade: websocket'' @ crlf
         @ lit ''Connection: Upgrade'' @ crlf
         @ lit ''Sec-WebSocket-Key: '' @ key @ crlf
         @ lit ''Content-Length: '' @ dec (length body) @ crlf
         @ crlf
         @ body)"

definition find_double_crlf :: "byte list \<Rightarrow> nat option" where
  "find_double_crlf data =
     (if length data < 4 then None
      else find (\<lambda>i. take 4 (drop i data) = double_crlf) [0..<Suc (length data - 4)])"

record 's http_obfs =
  h_inner :: 's
  h_host :: rstr
  h_port :: u16
  h_first_request :: bool
  h_write_buf :: "byte list"
  h_write_buf_off :: nat
  h_pending_input :: nat
  h_first_response :: bool
  h_response_scratch :: "byte list"
  h_leftover :: "byte list"
  h_leftover_off :: nat

definition http_obfs_new :: "'s \<Rightarrow> rstr \<Rightarrow> u16 \<Rightarrow> 's http_obfs" where
  "http_obfs_new inner host port =
     \<lparr>h_inner = inner, h_host = host, h_port = port,
      h_first_request = True, h_write_buf = [], h_write_buf_off = 0, h_pending_input = 0,
      h_first_response = True, h_response_scratch = [], h_leftover = [], h_leftover_off = 0\<rparr>"

definition http_drain :: "'s async_io \<Rightarrow> 's http_obfs \<Rightarrow> unit io poll \<times> 's http_obfs" where
  "http_drain S st =
     (let (r, inner, buf, off) = drain S (h_inner st) (h_write_buf st) (h_write_buf_off st)
      in (r, st\<lparr>h_inner := inner, h_write_buf := buf, h_write_buf_off := off\<rparr>))"

definition header_too_long :: io_error where
  "header_too_long = IoError InvalidData (lit ''obfs http: response header exceeds limit'')"

text \<open>
  The loop of the first response.  Every turn that continues has grown the scratch buffer,
  which is bounded: it stops for every inner reader.
\<close>

function http_header_loop ::
  "'s async_io \<Rightarrow> 's http_obfs \<Rightarrow> nat \<Rightarrow> (byte list io poll \<times> 's http_obfs) option" where
  "http_header_loop S st room =
     (case poll_read S (h_inner st) 1024 of
        None \<Rightarrow> None
      | Some (Pending, inner) \<Rightarrow> Some (Pending, st\<lparr>h_inner := inner\<rparr>)
      | Some (Ready (Inl e), inner) \<Rightarrow> Some (Ready (Inl e), st\<lparr>h_inner := inner\<rparr>)
      | Some (Ready (Inr tmp), inner) \<Rightarrow>
          if tmp = [] then Some (Ready (Inr []), st\<lparr>h_inner := inner\<rparr>)
          else (let scratch = h_response_scratch st @ tmp in
            case find_double_crlf scratch of
              Some idx \<Rightarrow>
                (let body = drop (idx + 4) scratch;
                     n = min (length body) room;
                     st = st\<lparr>h_inner := inner, h_first_response := False,
                             h_response_scratch := []\<rparr>;
                     st = (if n < length body
                           then st\<lparr>h_leftover := h_leftover st @ drop n body, h_leftover_off := 0\<rparr>
                           else st)
                 in Some (Ready (Inr (take n body)), st))
            | None \<Rightarrow>
                (let st = st\<lparr>h_inner := inner, h_response_scratch := scratch\<rparr> in
                 if MAX_HEADER < length scratch then Some (Ready (Inl header_too_long), st)
                 else http_header_loop S st room)))"
  by pat_completeness auto
termination
  by (relation "measure (\<lambda>(S, st, room). Suc MAX_HEADER - length (h_response_scratch st))")
    (auto simp flip: length_greater_0_conv)

declare http_header_loop.simps [simp del]

definition http_poll_read ::
  "'s async_io \<Rightarrow> 's http_obfs \<Rightarrow> nat \<Rightarrow> (byte list io poll \<times> 's http_obfs) option" where
  "http_poll_read S st room =
     (if h_leftover_off st < length (h_leftover st) then
        (let avail = drop (h_leftover_off st) (h_leftover st);
             n = min (length avail) room;
             st' = st\<lparr>h_leftover_off := h_leftover_off st + n\<rparr>;
             st' = (if length (h_leftover st') \<le> h_leftover_off st'
                    then st'\<lparr>h_leftover := [], h_leftover_off := 0\<rparr> else st')
         in Some (Ready (Inr (take n avail)), st'))
      else if h_first_response st then http_header_loop S st room
      else map_option (\<lambda>(r, inner). (r, st\<lparr>h_inner := inner\<rparr>)) (poll_read S (h_inner st) room))"

definition http_poll_write ::
  "http_env \<Rightarrow> 's async_io \<Rightarrow> 's http_obfs \<Rightarrow> byte list \<Rightarrow> nat io poll \<times> 's http_obfs" where
  "http_poll_write env S st buf =
     (if h_write_buf st \<noteq> [] then
        (case http_drain S st of
           (Ready (Inr _), st) \<Rightarrow> (Ready (Inr (h_pending_input st)), st\<lparr>h_pending_input := 0\<rparr>)
         | (Ready (Inl e), st) \<Rightarrow> (Ready (Inl e), st)
         | (Pending, st) \<Rightarrow> (Pending, st))
      else if h_first_request st then
        (let st = st\<lparr>h_first_request := False,
                     h_write_buf := build_http_request env (h_host st) (h_port st) buf,
                     h_write_buf_off := 0, h_pending_input := length buf\<rparr>
         in case http_drain S st of
           (Ready (Inr _), st) \<Rightarrow> (Ready (Inr (h_pending_input st)), st\<lparr>h_pending_input := 0\<rparr>)
         | (Ready (Inl e), st) \<Rightarrow> (Ready (Inl e), st)
         | (Pending, st) \<Rightarrow> (Pending, st))
      else (let (r, inner) = poll_write S (h_inner st) buf in (r, st\<lparr>h_inner := inner\<rparr>)))"

text \<open>\<open>poll_flush\<close> and \<open>poll_shutdown\<close> drain first and then call the inner method.\<close>

definition http_drain_then ::
  "'s async_io \<Rightarrow> ('s \<Rightarrow> unit io poll \<times> 's) \<Rightarrow> 's http_obfs \<Rightarrow> unit io poll \<times> 's http_obfs" where
  "http_drain_then S act st =
     (let (r, st) = (if h_write_buf st \<noteq> [] then http_drain S st else (Ready (Inr ()), st))
      in if r = Ready (Inr ())
         then (let (r, inner) = act (h_inner st) in (r, st\<lparr>h_inner := inner\<rparr>))
         else (r, st))"

definition http_poll_flush :: "'s async_io \<Rightarrow> 's http_obfs \<Rightarrow> unit io poll \<times> 's http_obfs" where
  "http_poll_flush S st = http_drain_then S (poll_flush S) st"

definition http_poll_shutdown :: "'s async_io \<Rightarrow> 's http_obfs \<Rightarrow> unit io poll \<times> 's http_obfs" where
  "http_poll_shutdown S st = http_drain_then S (poll_shutdown S) st"

definition http_obfs_io :: "http_env \<Rightarrow> 's async_io \<Rightarrow> 's http_obfs async_io" where
  "http_obfs_io env S =
     \<lparr>poll_read = http_poll_read S, poll_write = http_poll_write env S,
      poll_flush = http_poll_flush S, poll_shutdown = http_poll_shutdown S\<rparr>"

lemma http_obfs_io_sel [simp]:
  "poll_read (http_obfs_io env S) = http_poll_read S"
  "poll_write (http_obfs_io env S) = http_poll_write env S"
  "poll_flush (http_obfs_io env S) = http_poll_flush S"
  "poll_shutdown (http_obfs_io env S) = http_poll_shutdown S"
  by (simp_all add: http_obfs_io_def)

section \<open>Searching the terminator\<close>

lemma find_double_crlf_Some:
  "find_double_crlf data = Some i \<longleftrightarrow>
   i + 4 \<le> length data \<and> take 4 (drop i data) = double_crlf \<and>
   (\<forall>j < i. take 4 (drop j data) \<noteq> double_crlf)"
proof -
  have "find P [0..<n] = Some i \<longleftrightarrow> i < n \<and> P i \<and> (\<forall>j < i. \<not> P j)" for P n
    by (auto simp: find_Some_iff simp del: upt_Suc)
  then show ?thesis by (auto simp: find_double_crlf_def simp del: upt_Suc)
qed

lemma find_double_crlf_prefix:
  assumes "find_double_crlf a = Some i"
  shows "find_double_crlf (a @ b) = Some i"
proof -
  have same: "take 4 (drop j (a @ b)) = take 4 (drop j a)" if "j + 4 \<le> length a" for j
    using that by simp
  from assms have i: "i + 4 \<le> length a" "take 4 (drop i a) = double_crlf"
    "\<forall>j < i. take 4 (drop j a) \<noteq> double_crlf"
    by (auto simp: find_double_crlf_Some)
  show ?thesis
    unfolding find_double_crlf_Some
  proof (intro conjI allI impI)
    show "take 4 (drop i (a @ b)) = double_crlf" using i same by metis
    fix j assume "j < i"
    then show "take 4 (drop j (a @ b)) \<noteq> double_crlf"
      using i same [of j] by simp
  qed (use i in simp)
qed

text \<open>What is left of a response when its header is cut off.\<close>

definition strip_header :: "byte list \<Rightarrow> byte list" where
  "strip_header w = (case find_double_crlf w of None \<Rightarrow> [] | Some i \<Rightarrow> drop (i + 4) w)"

lemma strip_header_prefix:
  "find_double_crlf a = Some i \<Longrightarrow> strip_header (a @ b) = drop (i + 4) a @ b"
  by (auto simp: strip_header_def find_double_crlf_prefix find_double_crlf_Some)

section \<open>Reading\<close>

text \<open>
  What a reader of the wrapper gets, as a function of what a reader of the socket gets: the
  kept body bytes, then the rest of the stream, without its header as long as that has not
  been read.
\<close>

definition http_avail :: "('s \<Rightarrow> byte list) \<Rightarrow> 's http_obfs \<Rightarrow> byte list" where
  "http_avail avail st =
     drop (h_leftover_off st) (h_leftover st)
     @ (if h_first_response st then strip_header (h_response_scratch st @ avail (h_inner st))
        else avail (h_inner st))"

definition http_ok :: "('s \<Rightarrow> bool) \<Rightarrow> 's http_obfs \<Rightarrow> bool" where
  "http_ok ok st \<longleftrightarrow> ok (h_inner st) \<and>
     (h_leftover st \<noteq> [] \<longrightarrow> \<not> h_first_response st \<and> h_leftover_off st < length (h_leftover st)) \<and>
     (h_first_response st \<longrightarrow> find_double_crlf (h_response_scratch st) = None)"

text \<open>
  The header is short enough: its terminator ends within the limit.  \<open>http_inv\<close> asks for it
  where \<open>fitting\<close> is set; then the wrapper itself raises no error.
\<close>

definition http_fits :: "('s \<Rightarrow> byte list) \<Rightarrow> 's http_obfs \<Rightarrow> bool" where
  "http_fits avail st \<longleftrightarrow>
     (h_first_response st \<longrightarrow>
        (\<exists>i. find_double_crlf (h_response_scratch st @ avail (h_inner st)) = Some i \<and> i + 4 \<le> MAX_HEADER))"

definition http_inv ::
  "('s \<Rightarrow> byte list) \<Rightarrow> ('s \<Rightarrow> bool) \<Rightarrow> bool \<Rightarrow> 's http_obfs \<Rightarrow> bool" where
  "http_inv avail ok fitting st \<longleftrightarrow> http_ok ok st \<and> (fitting \<longrightarrow> http_fits avail st)"

lemma find_double_crlf_within:
  assumes "find_double_crlf (a @ b) = Some i" and "i + 4 \<le> length a"
  shows "find_double_crlf a = Some i"
proof -
  have "take 4 (drop j (a @ b)) = take 4 (drop j a)" if "j \<le> i" for j
    using that assms(2) by simp
  then show ?thesis
    using assms by (simp add: find_double_crlf_Some)
qed

text \<open>The header itself may cost one poll that delivers nothing.\<close>

definition http_idle :: "('s \<Rightarrow> nat) \<Rightarrow> 's http_obfs \<Rightarrow> nat" where
  "http_idle idle st = idle (h_inner st) + (if h_first_response st then 1 else 0)"

lemmas http_read_defs = http_ok_def http_avail_def http_idle_def

text \<open>The outcomes of one turn of the header loop.\<close>

lemma header_loop_cases:
  assumes "http_header_loop S st room = Some (r, st')"
  obtains (waits) inner where "poll_read S (h_inner st) 1024 = Some (Pending, inner)"
      "r = Pending" "st' = st\<lparr>h_inner := inner\<rparr>"
  | (fails) e inner where "poll_read S (h_inner st) 1024 = Some (Ready (Inl e), inner)"
      "r = Ready (Inl e)" "st' = st\<lparr>h_inner := inner\<rparr>"
  | (eof) inner where "poll_read S (h_inner st) 1024 = Some (Ready (Inr []), inner)"
      "r = Ready (Inr [])" "st' = st\<lparr>h_inner := inner\<rparr>"
  | (found) tmp inner idx body where
      "poll_read S (h_inner st) 1024 = Some (Ready (Inr tmp), inner)"
      "find_double_crlf (h_response_scratch st @ tmp) = Some idx"
      "body = drop (idx + 4) (h_response_scratch st @ tmp)" "r = Ready (Inr (take room body))"
      "h_inner st' = inner" "\<not> h_first_response st'" "h_response_scratch st' = []"
      "if room < length body
       then h_leftover st' = h_leftover st @ drop room body \<and> h_leftover_off st' = 0
       else h_leftover st' = h_leftover st \<and> h_leftover_off st' = h_leftover_off st"
  | (long) tmp inner where "poll_read S (h_inner st) 1024 = Some (Ready (Inr tmp), inner)"
      "r = Ready (Inl header_too_long)"
      "st' = st\<lparr>h_inner := inner, h_response_scratch := h_response_scratch st @ tmp\<rparr>"
      "MAX_HEADER < length (h_response_scratch st @ tmp)"
  | (more) tmp inner where "poll_read S (h_inner st) 1024 = Some (Ready (Inr tmp), inner)"
      "tmp \<noteq> []" "length (h_response_scratch st @ tmp) \<le> MAX_HEADER"
      "find_double_crlf (h_response_scratch st @ tmp) = None"
      "http_header_loop S (st\<lparr>h_inner := inner, h_response_scratch := h_response_scratch st @ tmp\<rparr>) room
         = Some (r, st')"
proof -
  obtain p inner where q: "poll_read S (h_inner st) 1024 = Some (p, inner)"
    using assms by (subst (asm) http_header_loop.simps) (auto split: option.splits)
  show ?thesis
  proof (cases p)
    case Pending
    with assms q show ?thesis
      by (intro waits [of inner]) (simp_all add: http_header_loop.simps [of S st])
  next
    case (Ready x)
    show ?thesis
    proof (cases x)
      case (Inl e)
      with assms q Ready show ?thesis
        by (intro fails [of e inner]) (simp_all add: http_header_loop.simps [of S st])
    next
      case (Inr tmp)
      note unfold = assms [unfolded http_header_loop.simps [of S st], simplified q Ready Inr]
      show ?thesis
      proof (cases "tmp = []")
        case True
        with unfold q Ready Inr show ?thesis by (intro eof [of inner]) simp_all
      next
        case False
        show ?thesis
        proof (cases "find_double_crlf (h_response_scratch st @ tmp)")
          case None
          with unfold False q Ready Inr show ?thesis
            by (cases "MAX_HEADER < length (h_response_scratch st @ tmp)")
              (auto intro: long [of tmp inner] more [of tmp inner])
        next
          case (Some idx)
          define body where "body = drop (idx + 4) (h_response_scratch st @ tmp)"
          have rs: "r = Ready (Inr (take (min (length body) room) body))"
            "st' = (if min (length body) room < length body
               then st\<lparr>h_inner := inner, h_first_response := False, h_response_scratch := [],
                       h_leftover := h_leftover st @ drop (min (length body) room) body,
                       h_leftover_off := 0\<rparr>
               else st\<lparr>h_inner := inner, h_first_response := False, h_response_scratch := []\<rparr>)"
            using unfold False Some unfolding body_def
            by (auto simp: Let_def simp del: length_append drop_append length_drop drop_drop)
          have q': "poll_read S (h_inner st) 1024 = Some (Ready (Inr tmp), inner)"
            using q Ready Inr by simp
          show ?thesis
            by (rule found [OF q' Some body_def]) (simp_all add: rs min_def)
        qed
      qed
    qed
  qed
qed

context async_read
begin

lemma header_loop_good:
  assumes "fitting \<Longrightarrow> \<not> faulty" and "http_header_loop S st room = Some (r, st')"
    and "http_inv avail ok fitting st" and "h_first_response st"
  shows "read_good False (\<not> fitting) (http_avail avail) (http_idle idle) (http_inv avail ok fitting) st room
    (Some (r, st'))"
  using assms(2-4)
proof (induction "Suc MAX_HEADER - length (h_response_scratch st)" arbitrary: st rule: less_induct)
  case less
  have k: "ok (h_inner st)" and l: "h_leftover st = []"
    and n: "find_double_crlf (h_response_scratch st) = None" and fit: "fitting \<longrightarrow> http_fits avail st"
    using less.prems(2,3) by (auto simp: http_inv_def http_ok_def)
  note law = read_law [OF k, of 1024]
  from less.prems(1) show ?case
  proof (cases rule: header_loop_cases)
    case (waits inner)
    then show ?thesis
      using law l n fit less.prems(3) by (simp add: http_read_defs http_inv_def http_fits_def)
  next
    case (fails e inner)
    then show ?thesis using law l n assms(1) by (auto simp: http_ok_def http_inv_def)
  next
    case (eof inner)
    then show ?thesis
      using law l n fit less.prems(3)
      by (auto simp: http_read_defs strip_header_def http_inv_def http_fits_def)
  next
    case (found tmp inner idx body)
    have i: "ok inner" "avail (h_inner st) = tmp @ avail inner" "idle inner \<le> idle (h_inner st)"
      using law found(1) by simp_all
    have "http_avail avail st = strip_header ((h_response_scratch st @ tmp) @ avail inner)"
      using less.prems(3) i(2) l by (simp add: http_avail_def)
    also have "\<dots> = body @ avail inner"
      using found(2,3) by (simp only: strip_header_prefix)
    finally have a: "http_avail avail st = body @ avail inner" .
    have b: "http_avail avail st' = drop room body @ avail inner"
      using found(5-8) l by (cases "room < length body") (simp_all add: http_avail_def)
    have c: "http_inv avail ok fitting st'"
      using found(5-8) l i(1)
      by (cases "room < length body") (simp_all add: http_inv_def http_ok_def http_fits_def)
    have d: "http_idle idle st' < http_idle idle st"
      using found(5,6) i(3) less.prems(3) by (simp add: http_idle_def)
    show ?thesis using a b c d found(4) by simp
  next
    case (long tmp inner)
    have i: "ok inner" "avail (h_inner st) = tmp @ avail inner"
      using law long(1) by simp_all
    show ?thesis
    proof (cases "find_double_crlf (h_response_scratch st @ tmp)")
      case None
      have "\<not> fitting"
      proof
        assume fitting
        with fit less.prems(3) i(2) obtain j where
          "find_double_crlf ((h_response_scratch st @ tmp) @ avail inner) = Some j" "j + 4 \<le> MAX_HEADER"
          by (auto simp: http_fits_def)
        with long(4) None show False
          using find_double_crlf_within [of "h_response_scratch st @ tmp" "avail inner" j] by simp
      qed
      then show ?thesis using None long i(1) l by (simp add: http_inv_def http_ok_def)
    next
      case (Some i)
      with long less.prems(1) show ?thesis
        by (cases "tmp = []") (auto simp: http_header_loop.simps [of S st] n Let_def)
    qed
  next
    case (more tmp inner)
    let ?st = "st\<lparr>h_inner := inner, h_response_scratch := h_response_scratch st @ tmp\<rparr>"
    have i: "ok inner" "avail (h_inner st) = tmp @ avail inner" "idle inner \<le> idle (h_inner st)"
      using law more(1) by simp_all
    have "Suc MAX_HEADER - length (h_response_scratch ?st) < Suc MAX_HEADER - length (h_response_scratch st)"
      using more(2,3) by (auto simp flip: length_greater_0_conv)
    from less.hyps [OF this more(5)]
    have "read_good False (\<not> fitting) (http_avail avail) (http_idle idle) (http_inv avail ok fitting) ?st
        room (Some (r, st'))"
      using less.prems(3) l more(4) i(1,2) fit by (simp add: http_inv_def http_ok_def http_fits_def)
    then show ?thesis
      by (rule read_good_step [rotated 2])
        (use i less.prems(3) in \<open>simp_all add: http_avail_def http_idle_def\<close>)
  qed
qed

lemma header_loop_returns:
  "ok (h_inner st) \<Longrightarrow> \<exists>r. http_header_loop S st room = Some r"
proof (induction "Suc MAX_HEADER - length (h_response_scratch st)" arbitrary: st rule: less_induct)
  case less
  obtain p inner where q: "poll_read S (h_inner st) 1024 = Some (p, inner)"
    using read_returns [OF less.prems, of 1024] by auto
  have k: "ok inner" using read_ok [OF less.prems q] .
  show ?case
  proof (cases "\<exists>tmp. p = Ready (Inr tmp) \<and> tmp \<noteq> [] \<and>
      find_double_crlf (h_response_scratch st @ tmp) = None \<and>
      length (h_response_scratch st @ tmp) \<le> MAX_HEADER")
    case True
    then obtain tmp where t: "p = Ready (Inr tmp)" "tmp \<noteq> []"
      "find_double_crlf (h_response_scratch st @ tmp) = None"
      "length (h_response_scratch st @ tmp) \<le> MAX_HEADER" by blast
    let ?st = "st\<lparr>h_inner := inner, h_response_scratch := h_response_scratch st @ tmp\<rparr>"
    have "\<exists>r. http_header_loop S ?st room = Some r"
      using less.hyps [of ?st] t k by (simp flip: length_greater_0_conv)
    with q t show ?thesis by (simp add: http_header_loop.simps [of S st] Let_def)
  next
    case False
    with q show ?thesis
      by (auto simp: http_header_loop.simps [of S st] Let_def not_le
            split: poll.splits sum.splits option.splits)
  qed
qed

text \<open>The wrapper is a reader of the stripped stream.\<close>

lemma http_read_good:
  assumes "fitting \<Longrightarrow> \<not> faulty" and k: "http_inv avail ok fitting st"
  shows "read_good False (\<not> fitting) (http_avail avail) (http_idle idle) (http_inv avail ok fitting) st room
    (http_poll_read S st room)"
proof (cases "h_leftover_off st < length (h_leftover st)")
  case True
  then show ?thesis
    using k by (auto simp: http_poll_read_def Let_def http_read_defs http_inv_def http_fits_def min_def)
next
  case False
  then have l: "h_leftover st = []" using k by (auto simp: http_inv_def http_ok_def)
  have i: "ok (h_inner st)" using k by (simp add: http_inv_def http_ok_def)
  show ?thesis
  proof (cases "h_first_response st")
    case True
    obtain r st' where h: "http_header_loop S st room = Some (r, st')"
      using header_loop_returns [OF i, of room] by auto
    from header_loop_good [OF assms(1) h k True] show ?thesis
      using l True h by (simp add: http_poll_read_def)
  next
    case nf: False
    from i show ?thesis
      by (cases rule: read_cases [where c = room])
        (use l nf assms(1) in \<open>auto simp: http_poll_read_def http_read_defs http_inv_def http_fits_def\<close>)
  qed
qed

lemma http_read_contract:
  assumes "fitting \<Longrightarrow> \<not> faulty"
  shows "async_read (http_obfs_io env S) (http_avail avail) (http_idle idle) (http_inv avail ok fitting)
    False (\<not> fitting)"
  by unfold_locales (simp add: http_read_good assms)

text \<open>Once the header is gone, the wrapper is as strict and as faulty as the transport.\<close>

lemma http_read_body_contract:
  "async_read (http_obfs_io env S) (http_avail avail) (http_idle idle)
     (\<lambda>st. http_ok ok st \<and> \<not> h_first_response st) strict faulty"
proof unfold_locales
  fix st room assume k: "http_ok ok st \<and> \<not> h_first_response st"
  show "read_good strict faulty (http_avail avail) (http_idle idle)
      (\<lambda>st. http_ok ok st \<and> \<not> h_first_response st) st room (poll_read (http_obfs_io env S) st room)"
  proof (cases "h_leftover_off st < length (h_leftover st)")
    case True
    then show ?thesis
      using k by (auto simp: http_poll_read_def Let_def http_read_defs min_def)
  next
    case False
    then have l: "h_leftover st = []" using k by (auto simp: http_ok_def)
    have "ok (h_inner st)" using k by (simp add: http_ok_def)
    then show ?thesis
      by (cases rule: read_cases [where c = room])
        (use l k in \<open>auto simp: http_poll_read_def http_read_defs\<close>)
  qed
qed

end

interpretation http: async_read "http_obfs_io env sock_io" "http_avail sock_avail"
    "http_idle sock_idle" "http_inv sock_avail sock_solid True" False "\<not> True" for env
  by (rule sock_end.http_read_contract) simp

lemma http_obfs_new_ok: "http_ok (\<lambda>_. True) (http_obfs_new s host port)"
  by (simp add: http_ok_def http_obfs_new_def find_double_crlf_def)

lemma http_obfs_new_avail:
  "http_avail avail (http_obfs_new s host port) = strip_header (avail s)"
  by (simp add: http_avail_def http_obfs_new_def)

section \<open>Writing\<close>

text \<open>
  The bytes the wrapper has committed to the wire: those the transport took over and those
  its buffer still holds.
\<close>

definition http_wire :: "('s \<Rightarrow> byte list) \<Rightarrow> 's http_obfs \<Rightarrow> byte list" where
  "http_wire sent st = sent (h_inner st) @ drop (h_write_buf_off st) (h_write_buf st)"

definition http_write_ok :: "('s \<Rightarrow> bool) \<Rightarrow> 's http_obfs \<Rightarrow> bool" where
  "http_write_ok ok st \<longleftrightarrow> ok (h_inner st) \<and> h_write_buf_off st \<le> length (h_write_buf st)"

lemma build_http_request_nonempty [simp]: "build_http_request env host port body \<noteq> []"
  by (simp add: build_http_request_def Let_def crlf_def)

lemma http_obfs_new_write:
  "http_write_ok ok (http_obfs_new s host port) = ok s"
  "http_wire sent (http_obfs_new s host port) = sent s"
  by (simp_all add: http_write_ok_def http_wire_def http_obfs_new_def)

text \<open>A drain keeps the wire and every field but the inner stream and the buffer.\<close>

context async_write
begin

lemma http_drain_contract:
  assumes "http_drain S st = (r, st')" and "http_write_ok ok st"
  shows "http_write_ok ok st'" and "http_wire sent st' = http_wire sent st"
    and "h_pending_input st' = h_pending_input st" and "h_first_request st' = h_first_request st"
    and "h_host st' = h_host st" and "h_port st' = h_port st"
    and "r = Ready (Inr ()) \<longleftrightarrow> h_write_buf st' = []"
proof -
  obtain p inner buf off where d:
      "drain S (h_inner st) (h_write_buf st) (h_write_buf_off st) = (p, inner, buf, off)"
    by (metis prod_cases4)
  then have st': "r = p" "st' = st\<lparr>h_inner := inner, h_write_buf := buf, h_write_buf_off := off\<rparr>"
    using assms(1) by (auto simp: http_drain_def)
  have "ok (h_inner st)" "h_write_buf_off st \<le> length (h_write_buf st)"
    using assms(2) by (auto simp: http_write_ok_def)
  from drain_conserves [OF d this] show
    "http_write_ok ok st'" "http_wire sent st' = http_wire sent st"
    "h_pending_input st' = h_pending_input st" "h_first_request st' = h_first_request st"
    "h_host st' = h_host st" "h_port st' = h_port st"
    "r = Ready (Inr ()) \<longleftrightarrow> h_write_buf st' = []"
    by (auto simp: st' http_write_ok_def http_wire_def split: if_splits)
qed

text \<open>
  A call that finds framed bytes in the buffer drains them and reports the length of the
  input it accepted when it framed them.
\<close>

lemma http_write_drains:
  assumes "http_poll_write env S st buf = (r, st')" and "http_write_ok ok st"
    and "h_write_buf st \<noteq> []"
  shows "http_write_ok ok st' \<and> http_wire sent st' = http_wire sent st \<and>
    h_first_request st' = h_first_request st \<and>
    (\<forall>n. r = Ready (Inr n) \<longrightarrow> n = h_pending_input st \<and> h_write_buf st' = []) \<and>
    (r = Pending \<longrightarrow> h_write_buf st' \<noteq> [] \<and> h_pending_input st' = h_pending_input st)"
proof -
  obtain p st1 where d: "http_drain S st = (p, st1)" by fastforce
  note c = http_drain_contract [OF d assms(2)]
  consider "p = Pending" "r = Pending" "st' = st1"
    | e where "p = Ready (Inl e)" "r = Ready (Inl e)" "st' = st1"
    | "p = Ready (Inr ())" "r = Ready (Inr (h_pending_input st1))" "st' = st1\<lparr>h_pending_input := 0\<rparr>"
  proof (cases p)
    case Pending
    then show ?thesis using assms(1,3) d that(1) by (simp add: http_poll_write_def)
  next
    case (Ready x)
    show ?thesis
    proof (cases x)
      case (Inl e)
      then show ?thesis using assms(1,3) d that(2) Ready by (simp add: http_poll_write_def)
    next
      case (Inr u)
      then show ?thesis using assms(1,3) d that(3) Ready by (simp add: http_poll_write_def)
    qed
  qed
  then show ?thesis
  proof cases
    case 3
    have "http_write_ok ok st' = http_write_ok ok st1" "http_wire sent st' = http_wire sent st1"
      by (simp_all add: 3 http_write_ok_def http_wire_def)
    then show ?thesis using 3 c by simp
  qed (use c in simp_all)
qed

text \<open>The first write frames the whole input in the request, whatever the outcome.\<close>

lemma http_write_first:
  assumes "http_poll_write env S st buf = (r, st')" and "http_write_ok ok st"
    and "h_write_buf st = []" and "h_first_request st"
  shows "http_write_ok ok st' \<and> \<not> h_first_request st' \<and>
    http_wire sent st' = sent (h_inner st) @ build_http_request env (h_host st) (h_port st) buf \<and>
    (\<forall>n. r = Ready (Inr n) \<longrightarrow> n = length buf \<and> h_write_buf st' = []) \<and>
    (r = Pending \<longrightarrow> h_write_buf st' \<noteq> [] \<and> h_pending_input st' = length buf)"
proof -
  let ?st = "st\<lparr>h_first_request := False,
                h_write_buf := build_http_request env (h_host st) (h_port st) buf,
                h_write_buf_off := 0, h_pending_input := length buf\<rparr>"
  have same: "http_poll_write env S st buf = http_poll_write env S ?st buf"
    using assms(3,4) by (simp add: http_poll_write_def Let_def)
  have k: "http_write_ok ok ?st" using assms(2) by (simp add: http_write_ok_def)
  have "http_wire sent ?st = sent (h_inner st) @ build_http_request env (h_host st) (h_port st) buf"
    by (simp add: http_wire_def)
  with http_write_drains [OF assms(1) [unfolded same] k] show ?thesis
    by simp
qed

text \<open>The wrapper waits only when the transport does.\<close>

lemma http_write_live:
  "async_write_live (http_obfs_io env S) (\<lambda>st. stalls (h_inner st)) (\<lambda>st. ok (h_inner st))"
proof -
  have drains: "ok (h_inner st') \<and> stalls (h_inner st') \<le> stalls (h_inner st) \<and>
      (r = Pending \<longrightarrow> stalls (h_inner st') < stalls (h_inner st))"
    if "http_drain S st = (r, st')" "ok (h_inner st)" for st r st'
  proof -
    obtain p inner buf off where d:
        "drain S (h_inner st) (h_write_buf st) (h_write_buf_off st) = (p, inner, buf, off)"
      by (metis prod_cases4)
    with drain_stalls [OF d that(2)] that(1) show ?thesis by (auto simp: http_drain_def)
  qed
  have main: "ok (h_inner st') \<and> stalls (h_inner st') \<le> stalls (h_inner st) \<and>
      (r = Pending \<longrightarrow> stalls (h_inner st') < stalls (h_inner st))"
    if w: "http_poll_write env S st buf = (r, st')" and k: "ok (h_inner st)" for st buf r st'
  proof -
    obtain p inner where i: "poll_write S (h_inner st) buf = (p, inner)" by fastforce
    have "ok inner \<and> stalls inner \<le> stalls (h_inner st) \<and> (p = Pending \<longrightarrow> stalls inner < stalls (h_inner st))"
      using write_ok [OF k, of buf] write_stall [OF k, of buf inner] write_moves [OF k, of buf _ inner] i
      by (cases p) auto
    moreover have "ok (h_inner (st\<lparr>h_first_request := a, h_write_buf := b, h_write_buf_off := c,
        h_pending_input := d\<rparr>))" for a b c d using k by simp
    ultimately show ?thesis
      using w k i drains [of st] drains [of "st\<lparr>h_first_request := False,
          h_write_buf := build_http_request env (h_host st) (h_port st) buf,
          h_write_buf_off := 0, h_pending_input := length buf\<rparr>"]
      by (auto simp: http_poll_write_def Let_def split: if_splits poll.splits sum.splits prod.splits)
  qed
  show ?thesis
  proof unfold_locales
    fix st :: "'s http_obfs" and buf st' r assume k: "ok (h_inner st)"
    show "poll_write (http_obfs_io env S) st buf = (Pending, st') \<Longrightarrow>
        stalls (h_inner st') < stalls (h_inner st)"
      and "poll_write (http_obfs_io env S) st buf = (Ready r, st') \<Longrightarrow>
        stalls (h_inner st') \<le> stalls (h_inner st)"
      using main [OF _ k, of buf] by auto
    obtain q t where "http_poll_write env S st buf = (q, t)" by fastforce
    with main [OF this k] show "ok (h_inner (snd (poll_write (http_obfs_io env S) st buf)))" by simp
  qed
qed

end

text \<open>
  The wrapper fails, and takes nothing, only when the transport is broken, as long as the
  framed bytes stand for input, which a first write of no bytes would not give.
\<close>

definition http_sound_ok :: "('s \<Rightarrow> bool) \<Rightarrow> 's http_obfs \<Rightarrow> bool" where
  "http_sound_ok ok st \<longleftrightarrow> ok (h_inner st) \<and> (h_write_buf st \<noteq> [] \<longrightarrow> 0 < h_pending_input st)"

context async_write_sound
begin

lemma http_drain_answer:
  assumes "(case http_drain S st of
        (Ready (Inr _), st) \<Rightarrow> (Ready (Inr (h_pending_input st)), st\<lparr>h_pending_input := 0\<rparr>)
      | (Ready (Inl e), st) \<Rightarrow> (Ready (Inl e), st)
      | (Pending, st) \<Rightarrow> (Pending, st)) = (r, st')"
    and "ok (h_inner st)" and "0 < h_pending_input st"
  shows "http_sound_ok ok st' \<and> (\<forall>e. r = Ready (Inl e) \<longrightarrow> broken) \<and> r \<noteq> Ready (Inr 0)"
proof -
  obtain p inner buf off where d:
      "drain S (h_inner st) (h_write_buf st) (h_write_buf_off st) = (p, inner, buf, off)"
    by (metis prod_cases4)
  then have h: "http_drain S st =
      (p, st\<lparr>h_inner := inner, h_write_buf := buf, h_write_buf_off := off\<rparr>)"
    by (simp add: http_drain_def)
  consider "p = Pending" | x where "p = Ready (Inl x)" | "p = Ready (Inr ())"
    by (metis poll.exhaust sum.exhaust old.unit.exhaust)
  then show ?thesis
    using assms h drain_stalls [OF d assms(2)] drain_buf [OF d] drain_sound [OF _ assms(2)] d
    by cases (auto simp: http_sound_ok_def)
qed

lemma http_poll_write_sound:
  assumes w: "http_poll_write env S st buf = (r, st')" and k: "http_sound_ok ok st" and b: "buf \<noteq> []"
  shows "http_sound_ok ok st' \<and> (\<forall>e. r = Ready (Inl e) \<longrightarrow> broken) \<and> r \<noteq> Ready (Inr 0) \<or> broken"
proof -
  have i: "ok (h_inner st)" using k by (simp add: http_sound_ok_def)
  consider "h_write_buf st \<noteq> []" | "h_write_buf st = []" "h_first_request st"
    | "h_write_buf st = []" "\<not> h_first_request st" by blast
  then show ?thesis
  proof cases
    case 1
    then show ?thesis
      using http_drain_answer [of st r st'] w k i by (simp add: http_poll_write_def http_sound_ok_def)
  next
    case 2
    then show ?thesis
      using w i b http_drain_answer [of "st\<lparr>h_first_request := False,
          h_write_buf := build_http_request env (h_host st) (h_port st) buf,
          h_write_buf_off := 0, h_pending_input := length buf\<rparr>" r st']
      by (simp add: http_poll_write_def Let_def)
  next
    case 3
    obtain p inner where p: "poll_write S (h_inner st) buf = (p, inner)" by fastforce
    then have e: "r = p" "st' = st\<lparr>h_inner := inner\<rparr>"
      using w 3 by (auto simp: http_poll_write_def)
    have "ok inner" using write_ok [OF i, of buf] p by simp
    moreover have "p = Ready (Inl x) \<Longrightarrow> broken" for x using write_fault [OF i] p by blast
    moreover have "p = Ready (Inr 0) \<Longrightarrow> broken" using write_takes [OF i b] p by blast
    ultimately show ?thesis using e 3 by (auto simp: http_sound_ok_def)
  qed
qed

lemma http_write_all_sound:
  "write_all (http_obfs_io env S) st buf k = (Ready r, st') \<Longrightarrow> http_sound_ok ok st \<Longrightarrow>
   http_sound_ok ok st' \<and> r = Inr () \<or> broken"
proof (induction k arbitrary: st buf)
  case 0
  then show ?case by (simp split: if_splits)
next
  case (Suc k)
  show ?case
  proof (cases "buf = []")
    case False
    obtain p st1 where w: "http_poll_write env S st buf = (p, st1)" by fastforce
    note s = http_poll_write_sound [OF w Suc.prems(2) False]
    consider "p = Pending" | e where "p = Ready (Inl e)" | "p = Ready (Inr 0)"
      | n where "p = Ready (Inr n)" "0 < n"
      by (metis poll.exhaust sum.exhaust gr0I)
    then show ?thesis
    proof cases
      case 1
      then show ?thesis using Suc.IH [of st1 buf] Suc.prems(1) s False w by auto
    next
      case (4 n)
      then show ?thesis using Suc.IH [of st1 "drop n buf"] Suc.prems(1) s False w by auto
    qed (use s in auto)
  qed (use Suc.prems in simp)
qed

end

context async_write
begin

text \<open>Later writes go straight to the socket.\<close>

lemma http_write_passthrough:
  assumes "http_poll_write env S st buf = (r, st')" and "http_write_ok ok st"
    and "h_write_buf st = []" and "\<not> h_first_request st"
  shows "poll_write S (h_inner st) buf = (r, h_inner st') \<and> st' = st\<lparr>h_inner := h_inner st'\<rparr>"
  using assms by (auto simp: http_poll_write_def split: prod.splits)

text \<open>
  A caller that retries the same input until it is accepted: the request is on the wire
  exactly once, complete, and the input is accepted in full.
\<close>

lemma http_write_retry_draining:
  assumes "write_retry (http_obfs_io env S) st buf k = (Ready (Inr n), st')"
    and "http_write_ok ok st" and "h_write_buf st \<noteq> []"
  shows "n = h_pending_input st \<and> h_write_buf st' = [] \<and> http_wire sent st' = http_wire sent st \<and>
    h_first_request st' = h_first_request st"
  using assms
proof (induction k arbitrary: st)
  case (Suc k)
  obtain r st1 where w: "http_poll_write env S st buf = (r, st1)" by fastforce
  note d = http_write_drains [OF w Suc.prems(2,3)]
  show ?case
  proof (cases "r = Pending")
    case True
    then have "write_retry (http_obfs_io env S) st1 buf k = (Ready (Inr n), st')"
      using Suc.prems(1) w by simp
    from Suc.IH [OF this] show ?thesis using True d by simp
  next
    case False
    then have "r = Ready (Inr n)" "st' = st1"
      using Suc.prems(1) w by (auto split: poll.splits)
    with d show ?thesis by simp
  qed
qed simp

lemma http_write_retry_first:
  assumes "write_retry (http_obfs_io env S) st buf k = (Ready (Inr n), st')"
    and "http_write_ok ok st" and "h_write_buf st = []" and "h_first_request st"
  shows "n = length buf \<and> h_write_buf st' = [] \<and> \<not> h_first_request st' \<and>
    sent (h_inner st') = sent (h_inner st) @ build_http_request env (h_host st) (h_port st) buf"
proof (cases k)
  case (Suc k')
  obtain r st1 where w: "http_poll_write env S st buf = (r, st1)" by fastforce
  note d = http_write_first [OF w assms(2-4)]
  show ?thesis
  proof (cases "r = Pending")
    case True
    then have "write_retry (http_obfs_io env S) st1 buf k' = (Ready (Inr n), st')"
      using assms(1) w Suc by simp
    from http_write_retry_draining [OF this] show ?thesis
      using True d by (auto simp: http_wire_def)
  next
    case False
    then have "r = Ready (Inr n)" "st' = st1"
      using assms(1) w Suc by (auto split: poll.splits)
    with d show ?thesis by (auto simp: http_wire_def)
  qed
qed (use assms in simp)

text \<open>A flush between a write that waits and its retry empties the buffer, and the retry
  then sends the input a second time.\<close>

lemma http_flush_then_retry:
  assumes "http_poll_flush S st = (Ready (Inr ()), st')" and "http_write_ok ok st"
    and "h_write_buf st \<noteq> []" and "\<not> h_first_request st"
    and "http_poll_write env S st' buf = (Ready (Inr n), st'')"
  shows "sent (h_inner st'') = http_wire sent st @ take n buf"
proof -
  obtain p st1 where d: "http_drain S st = (p, st1)" by fastforce
  note c = http_drain_contract [OF d assms(2)]
  obtain q inner where f: "poll_flush S (h_inner st1) = (q, inner)" by fastforce
  from assms(1,3) d f have p: "p = Ready (Inr ())" and st': "st' = st1\<lparr>h_inner := inner\<rparr>"
    by (auto simp: http_poll_flush_def http_drain_then_def split: if_splits)
  have k: "ok (h_inner st1)" using c(1) by (simp add: http_write_ok_def)
  have i: "ok inner" "sent inner = sent (h_inner st1)"
    using flush_ok [OF k] flush_sent [OF k] f by simp_all
  have e: "h_write_buf st1 = []" using c(7) p by simp
  have w: "http_write_ok ok st'" "h_write_buf st' = []" "\<not> h_first_request st'" "h_inner st' = inner"
    using st' i e c(1,4) assms(4) by (simp_all add: http_write_ok_def)
  have "poll_write S inner buf = (Ready (Inr n), h_inner st'')"
    using http_write_passthrough [OF assms(5) w(1-3)] w(4) by simp
  from write_ready [OF i(1) this] show ?thesis
    using i(2) c(2) e by (simp add: http_wire_def)
qed

end

section \<open>Properties\<close>

definition sample_http_env :: http_env where
  "sample_http_env = \<lparr>rand_bytes = replicate 16 0, rand_maj = 60, rand_min = 3, b64_url_safe = id\<rparr>"

text \<open>C7: Reading through \<open>HttpObfs\<close>, over any transport and with buffers of any sizes: every poll
  returns, and the bytes delivered are the beginning of the stream after the response header,
  in order, wherever the transport cuts the header and the body.  A caller that goes on
  polling with room in its buffers gets all of it, unless an error comes; over a transport
  that does not fail, with a header that ends within 16 KiB, none does.\<close>

theorem http_read_strips_header:
  assumes "async_read S avail idle ok strict faulty" and "ok s"
  shows "\<exists>bs e st'. read_seq (http_obfs_io env S) (http_obfs_new s host port) cs = Some (bs, e, st') \<and>
    (\<exists>rest. strip_header (avail s) = bs @ rest) \<and>
    (e = None \<and> list_all (\<lambda>c. 0 < c) cs \<and> length (strip_header (avail s)) + idle s + 1 \<le> length cs \<longrightarrow>
       bs = strip_header (avail s)) \<and>
    (\<not> faulty \<and> (\<exists>i. find_double_crlf (avail s) = Some i \<and> i + 4 \<le> MAX_HEADER) \<longrightarrow> e = None)"
proof -
  let ?fit = "\<not> faulty \<and> (\<exists>i. find_double_crlf (avail s) = Some i \<and> i + 4 \<le> MAX_HEADER)"
  have k: "http_inv avail ok ?fit (http_obfs_new s host port)"
    using assms(2)
    by (simp add: http_inv_def http_ok_def http_fits_def http_obfs_new_def find_double_crlf_def)
  have c: "async_read (http_obfs_io env S) (http_avail avail) (http_idle idle) (http_inv avail ok ?fit)
      False (\<not> ?fit)"
    by (rule async_read.http_read_contract [OF assms(1)]) simp
  have "http_idle idle (http_obfs_new s host port) = idle s + 1"
    by (simp add: http_idle_def http_obfs_new_def)
  with async_read.read_seq_good [OF c k, of cs] show ?thesis
    by (simp add: http_obfs_new_avail del: not_ex) blast
qed

theorem http_read_strips_header_witness:
  "\<exists>bs e st'. read_seq (http_obfs_io sample_http_env sock_io)
      (http_obfs_new \<lparr>rx = [Recv [72, 13, 10], RPending, Recv [13, 10, 7], Recv [8]],
                     wscript = [], tx = [], closed = False\<rparr> (lit ''h'') 80) [4, 4, 4, 4] = Some (bs, e, st') \<and>
    e = None \<and> bs = [7, 8]"
proof -
  have f: "find_double_crlf [72, 13, 10, 13, 10, 7, 8] = Some 1"
    by (simp add: find_double_crlf_def double_crlf_def upt_rec)
  then have "strip_header [72, 13, 10, 13, 10, 7, 8] = [7, 8]" by (simp add: strip_header_def)
  with f show ?thesis
    using http_read_strips_header [OF sock_end.async_read_axioms, where env = sample_http_env and s =
        "\<lparr>rx = [Recv [72, 13, 10], RPending, Recv [13, 10, 7], Recv [8]],
          wscript = [], tx = [], closed = False\<rparr>" and host = "lit ''h''" and port = 80 and cs = "[4, 4, 4, 4]"]
    by (simp add: sock_avail_def sock_idle_def sock_solid_def MAX_HEADER_def)
qed

text \<open>The first write through \<open>HttpObfs\<close>, retried until the transport takes it, ends after boundedly
  many polls; unless the transport fails, the whole input is accepted and the wire has exactly
  one complete request with the input as its body, however often and however short the
  transport writes.\<close>

lemma http_first_write:
  assumes "async_write S stalls ok sent" and "ok s" and "stalls s < k"
  shows "\<exists>r st'. write_retry (http_obfs_io env S) (http_obfs_new s host port) buf k = (Ready r, st') \<and>
    (\<forall>n. r = Inr n \<longrightarrow> n = length buf \<and> h_write_buf st' = [] \<and> \<not> h_first_request st' \<and>
       sent (h_inner st') = sent s @ build_http_request env host port buf)"
proof -
  have i: "h_inner (http_obfs_new s host port) = s" by (simp add: http_obfs_new_def)
  obtain r st' where w:
    "write_retry (http_obfs_io env S) (http_obfs_new s host port) buf k = (Ready r, st')"
    using async_write_live.write_retry_returns [OF async_write.http_write_live [OF assms(1), of env],
        of "http_obfs_new s host port" k buf] assms(2,3) i by auto
  have "http_write_ok ok (http_obfs_new s host port)" "h_write_buf (http_obfs_new s host port) = []"
    "h_first_request (http_obfs_new s host port)" "h_host (http_obfs_new s host port) = host"
    "h_port (http_obfs_new s host port) = port"
    using assms(2) by (simp_all add: http_write_ok_def http_obfs_new_def)
  then show ?thesis
    using async_write.http_write_retry_first [OF assms(1), of env "http_obfs_new s host port" buf k _ st'] w i
    by fastforce
qed

lemma http_first_write_witness:
  "\<exists>st'. write_retry (http_obfs_io sample_http_env sock_io)
       (http_obfs_new \<lparr>rx = [], wscript = [WPending], tx = [], closed = False\<rparr> (lit ''h'') 80)
       [1, 2] 2 = (Ready (Inr 2), st') \<and>
     tx (h_inner st') = build_http_request sample_http_env (lit ''h'') 80 [1, 2]"
proof -
  let ?s = "\<lparr>rx = [], wscript = [WPending], tx = [], closed = False\<rparr>"
  have "\<exists>st'. write_retry (http_obfs_io sample_http_env sock_io) (http_obfs_new ?s (lit ''h'') 80)
       [1, 2] 2 = (Ready (Inr 2), st')"
    by (simp add: numeral_2_eq_2 http_obfs_new_def http_poll_write_def http_drain_def drain.simps
        sock_io_def)
  then show ?thesis
    using http_first_write [OF sock.async_write_axioms, where s = ?s and k = 2
        and env = sample_http_env and host = "lit ''h''" and port = 80 and buf = "[1, 2]"]
    by (auto simp: sock_stalls_def)
qed

text \<open>C20: A flush between a first write that has to wait and its retry sends the input twice: the
  write has put the request with the input into the buffer and reports that it waits, the flush
  drains the request, and the retry with the same input, which finds the buffer empty, sends the
  bytes it accepts a second time, after the request.\<close>

theorem http_flush_resends:
  assumes "async_write S stalls ok sent" and "http_write_ok ok st"
    and "h_write_buf st = []" and "h_first_request st"
    and "http_poll_write env S st buf = (Pending, st1)"
    and "http_poll_flush S st1 = (Ready (Inr ()), st2)"
    and "http_poll_write env S st2 buf = (Ready (Inr n), st3)"
  shows "sent (h_inner st3) =
    sent (h_inner st) @ build_http_request env (h_host st) (h_port st) buf @ take n buf"
proof -
  note w = async_write.http_write_first [OF assms(1) assms(5) assms(2-4)]
  show ?thesis
    using async_write.http_flush_then_retry [OF assms(1,6) _ _ _ assms(7)] w by simp
qed

theorem http_flush_resends_witness:
  "\<exists>st1 st2 st3.
     http_poll_write sample_http_env sock_io
       (http_obfs_new \<lparr>rx = [], wscript = [Accept 7, WPending], tx = [], closed = False\<rparr> (lit ''h'') 80) [1] =
       (Pending, st1) \<and>
     http_poll_flush sock_io st1 = (Ready (Inr ()), st2) \<and>
     http_poll_write sample_http_env sock_io st2 [1] = (Ready (Inr 1), st3) \<and>
     tx (h_inner st3) = build_http_request sample_http_env (lit ''h'') 80 [1] @ [1]"
proof -
  let ?s = "\<lparr>rx = [], wscript = [Accept 7, WPending], tx = [], closed = False\<rparr>"
  let ?st = "http_obfs_new ?s (lit ''h'') 80"
  define req where "req = build_http_request sample_http_env (lit ''h'') 80 [1]"
  have len: "7 < length req" by (simp add: req_def build_http_request_def Let_def crlf_def)
  let ?s1 = "\<lparr>rx = [], wscript = [WPending], tx = take 7 req, closed = False\<rparr>"
  let ?s2 = "\<lparr>rx = [], wscript = [], tx = take 7 req, closed = False\<rparr>"
  let ?s3 = "\<lparr>rx = [], wscript = [], tx = req, closed = False\<rparr>"
  have r: "req \<noteq> []" using len by auto
  have p1: "poll_write sock_io ?s (drop 0 req) = (Ready (Inr 7), ?s1)"
    and p2: "poll_write sock_io ?s1 (drop 7 req) = (Pending, ?s2)"
    and p3: "poll_write sock_io ?s2 (drop 7 req) = (Ready (Inr (length req - 7)), ?s3)"
    using len by (simp_all add: sock_io_def)
  have d1: "drain sock_io ?s req 0 = (Pending, ?s2, req, 7)"
    using drain_more [OF _ p1] drain_pending [OF _ p2] len r by simp
  have d2: "drain sock_io ?s2 req 7 = (Ready (Inr ()), ?s3, [], 0)"
    using drain_more [OF _ p3] drain_done [of "length req" req sock_io ?s3] len by simp
  obtain st1 where w1: "http_poll_write sample_http_env sock_io ?st [1] = (Pending, st1)"
    "h_write_buf st1 = req" "h_write_buf_off st1 = 7" "\<not> h_first_request st1" "h_inner st1 = ?s2"
    using d1 by (simp add: http_obfs_new_def http_poll_write_def http_drain_def Let_def flip: req_def)
  obtain st2 where f: "http_poll_flush sock_io st1 = (Ready (Inr ()), st2)"
    "h_write_buf st2 = []" "\<not> h_first_request st2" "wscript (h_inner st2) = []"
    using w1 d2 r by (simp add: http_poll_flush_def http_drain_then_def http_drain_def)
      (simp add: sock_io_def)
  obtain st3 where w3: "http_poll_write sample_http_env sock_io st2 [1] = (Ready (Inr 1), st3)"
    using f by (simp add: http_poll_write_def sock_io_def)
  have k: "http_write_ok (\<lambda>_. True) ?st" by (simp add: http_write_ok_def http_obfs_new_def)
  show ?thesis
    using http_flush_resends [OF sock.async_write_axioms k _ _ w1(1) f(1) w3] w1(1) f(1) w3
    by (simp add: http_obfs_new_def)
qed

text \<open>C21: When a read of the transport ends exactly with the response header, \<open>poll_read\<close> returns
  success without a byte, which its callers take for the end of the stream, although the
  body is still to come.\<close>

theorem http_false_end:
  assumes "h_leftover st = []" and "h_first_response st"
    and "poll_read S (h_inner st) 1024 = Some (Ready (Inr tmp), inner)" and "tmp \<noteq> []"
    and "find_double_crlf (h_response_scratch st @ tmp) = Some idx"
    and "length (h_response_scratch st @ tmp) = idx + 4"
  shows "\<exists>st'. http_poll_read S st room = Some (Ready (Inr []), st') \<and>
    http_avail avail st' = avail inner"
  using assms by (simp add: http_poll_read_def http_header_loop.simps [of S st] http_avail_def Let_def)

theorem http_false_end_witness:
  "\<exists>st'. http_poll_read sock_io
       (http_obfs_new \<lparr>rx = [Recv double_crlf, Recv [7, 8]], wscript = [], tx = [], closed = False\<rparr> [] 80)
       100 = Some (Ready (Inr []), st') \<and> http_avail sock_avail st' = [7, 8]"
proof -
  let ?st = "http_obfs_new \<lparr>rx = [Recv double_crlf, Recv [7, 8]], wscript = [], tx = [], closed = False\<rparr> [] 80"
  have p: "poll_read sock_io (h_inner ?st) 1024 =
      Some (Ready (Inr double_crlf), \<lparr>rx = [Recv [7, 8]], wscript = [], tx = [], closed = False\<rparr>)"
    by (simp add: http_obfs_new_def sock_io_def double_crlf_def)
  have f: "find_double_crlf (h_response_scratch ?st @ double_crlf) = Some 0"
    by (simp add: http_obfs_new_def find_double_crlf_def double_crlf_def)
  show ?thesis
    using http_false_end [OF _ _ p _ f, of 100 sock_avail]
    by (simp add: http_obfs_new_def double_crlf_def sock_avail_def)
qed

end
