(* ===== verification/Http_Request.thy ===== *)
theory Http_Request
  imports Http_Obfs
begin

text \<open>
  The request of the HTTP mode (\<open>build_http_request\<close> of
  \<open>mihomo-proxy-patched/src/simple_obfs.rs\<close>) read by a strict server: the first empty line ends
  the head, every line of the head but the first is a header field, and the body has the
  length the request announces.
\<close>

section \<open>A server\<close>

fun split_crlf :: "byte list \<Rightarrow> byte list list" where
  "split_crlf [] = [[]]"
| "split_crlf [b] = [[b]]"
| "split_crlf (a # b # r) =
     (if a = 13 \<and> b = 10 then [] # split_crlf r
      else (case split_crlf (b # r) of [] \<Rightarrow> [[a]] | l # ls \<Rightarrow> (a # l) # ls))"

definition header_field :: "byte list \<Rightarrow> (rstr \<times> rstr) option" where
  "header_field line =
     (case split_once 58 line of
        Some (k, b # v) \<Rightarrow> if b = 32 then Some (k, v) else None
      | _ \<Rightarrow> None)"

definition parse_dec :: "rstr \<Rightarrow> nat option" where
  "parse_dec s =
     (if s \<noteq> [] \<and> list_all (\<lambda>b. 48 \<le> unat b \<and> unat b < 58) s
      then Some (foldl (\<lambda>n b. n * 10 + (unat b - 48)) 0 s) else None)"

text \<open>The header fields, the body and what follows it.\<close>

definition http_server ::
  "byte list \<Rightarrow> ((rstr \<times> rstr) list \<times> byte list \<times> byte list) option" where
  "http_server w = do {
     i \<leftarrow> find_double_crlf w;
     let rest = drop (i + 4) w;
     (case split_crlf (take i w) of
        [] \<Rightarrow> None
      | request # lines \<Rightarrow>
          if request \<noteq> lit ''GET / HTTP/1.1'' then None
          else do {
            fields \<leftarrow> those (map header_field lines);
            v \<leftarrow> map_of fields (lit ''Content-Length'');
            n \<leftarrow> parse_dec v;
            if length rest < n then None else Some (fields, take n rest, drop n rest)
          })
   }"

section \<open>Decimals\<close>

lemma foldl_dec: "foldl (\<lambda>n b. n * 10 + (unat (b :: byte) - 48)) 0 (dec n) = n"
proof (induction n rule: dec.induct)
  case (1 n)
  have "n mod 10 < 10" by simp
  then have "48 + n mod 10 < 256" by linarith
  then have "unat (as_u8 (48 + n mod 10)) = 48 + n mod 10" by (simp add: unat_as_u8)
  then show ?case using 1 by (cases "n < 10") (simp_all add: dec.simps [of n] unat_as_u8)
qed

lemma parse_dec_dec [simp]: "parse_dec (dec n) = Some n"
  using dec_digits [of _ n] by (simp add: parse_dec_def foldl_dec list_all_iff)

lemma dec_no_cr: "13 \<notin> set (dec n)"
  using dec_digits [of 13 n] by auto

lemma dec_no_colon: "58 \<notin> set (dec n)"
  using dec_digits [of 58 n] by auto

section \<open>Lines\<close>

text \<open>A line: not empty and without a carriage return.\<close>

definition line_ok :: "byte list \<Rightarrow> bool" where
  "line_ok l \<longleftrightarrow> l \<noteq> [] \<and> 13 \<notin> set l"

definition with_crlf :: "byte list list \<Rightarrow> byte list" where
  "with_crlf ls = concat (map (\<lambda>l. l @ crlf) ls)"

lemma length_crlf [simp]: "length crlf = 2"
  by (simp add: crlf_def)

lemma with_crlf_simps [simp]:
  "with_crlf [] = []" "with_crlf (l # ls) = l @ crlf @ with_crlf ls"
  "length (with_crlf ls) = length (concat ls) + 2 * length ls"
  by (simp_all add: with_crlf_def) (induction ls; simp)

lemma split_crlf_nonempty [simp]: "split_crlf s \<noteq> []"
  by (induction s rule: split_crlf.induct) (auto split: list.splits)

lemma split_crlf_line: "13 \<notin> set l \<Longrightarrow> split_crlf (l @ 13 # 10 # r) = l # split_crlf r"
proof (induction l)
  case (Cons a l)
  obtain b t where "l @ 13 # 10 # r = b # t" by (cases "l @ 13 # 10 # r") auto
  with Cons show ?case by auto
qed simp

lemma split_crlf_last: "13 \<notin> set l \<Longrightarrow> split_crlf l = [l]"
  by (induction l rule: split_crlf.induct) auto

text \<open>The head of a message without its last line end is split into its lines.\<close>

lemma split_crlf_lines:
  "list_all line_ok ls \<Longrightarrow> ls \<noteq> [] \<Longrightarrow>
   split_crlf (take (length (with_crlf ls) - 2) (with_crlf ls @ r)) = ls"
proof (induction ls)
  case (Cons l ls)
  show ?case
  proof (cases "ls = []")
    case True
    then show ?thesis using Cons.prems by (simp add: crlf_def line_ok_def split_crlf_last)
  next
    case False
    have "2 \<le> length (with_crlf ls)" using False by (cases ls) simp_all
    then obtain k where "length (with_crlf ls) = Suc (Suc k)" by (metis add_2_eq_Suc le_Suc_ex)
    then have "take (length (with_crlf (l # ls)) - 2) (with_crlf (l # ls) @ r) =
        l @ 13 # 10 # take (length (with_crlf ls) - 2) (with_crlf ls @ r)"
      by (simp add: crlf_def del: with_crlf_simps(3))
    then show ?thesis
      using Cons False by (simp add: split_crlf_line line_ok_def del: with_crlf_simps(3))
  qed
qed simp

text \<open>The first empty line of a message is the one that ends its head.\<close>

lemma no_early_end:
  "list_all line_ok ls \<Longrightarrow> j + 2 < length (with_crlf ls) \<Longrightarrow>
   take 4 (drop j (with_crlf ls @ r)) \<noteq> double_crlf"
proof (induction ls arbitrary: j)
  case (Cons l ls)
  have l: "13 \<notin> set l" using Cons.prems(1) by (simp add: line_ok_def)
  have head: "take 4 (drop j s) \<noteq> double_crlf" if "j < length s" "s ! j \<noteq> 13" for s
  proof
    assume "take 4 (drop j s) = double_crlf"
    moreover have "hd (take 4 (drop j s)) = s ! j" using that(1) by (simp add: hd_drop_conv_nth)
    ultimately show False using that(2) by (simp add: double_crlf_def)
  qed
  consider "j < length l" | "j = length l" | "j = length l + 1" | "length l + 2 \<le> j" by linarith
  then show ?case
  proof cases
    case 1
    then have "(with_crlf (l # ls) @ r) ! j = l ! j" by (simp add: nth_append)
    then have "(with_crlf (l # ls) @ r) ! j \<noteq> 13" using l 1 by (metis nth_mem)
    with 1 show ?thesis by (intro head) simp_all
  next
    case 2
    then obtain m ms where ls: "ls = m # ms" using Cons.prems(2) by (cases ls) (simp_all add: crlf_def)
    then obtain b t where m: "m = b # t" "b \<noteq> 13"
      using Cons.prems(1) by (cases m) (auto simp: line_ok_def)
    have "drop j (with_crlf (l # ls) @ r) = 13 # 10 # b # t @ crlf @ with_crlf ms @ r"
      using 2 by (simp add: ls m crlf_def)
    then show ?thesis using m(2) by (simp add: double_crlf_def)
  next
    case 3
    then have "(with_crlf (l # ls) @ r) ! j = 10" by (simp add: nth_append crlf_def)
    with 3 show ?thesis by (intro head) (simp_all add: crlf_def)
  next
    case 4
    then obtain k where k: "j = length l + 2 + k" by (metis le_Suc_ex)
    have "drop j (with_crlf (l # ls) @ r) = drop k (with_crlf ls @ r)"
      by (simp add: k crlf_def)
    moreover have "k + 2 < length (with_crlf ls)" using Cons.prems(2) k by simp
    ultimately show ?thesis using Cons by (simp del: with_crlf_simps)
  qed
qed simp

lemma find_end_of_head:
  assumes "list_all line_ok ls" and "ls \<noteq> []"
  shows "find_double_crlf (with_crlf ls @ crlf @ body) = Some (length (with_crlf ls) - 2)"
proof -
  have n: "2 \<le> length (with_crlf ls)" using assms(2) by (cases ls) simp_all
  obtain init l where ls: "ls = init @ [l]" using assms(2) by (metis rev_exhaust)
  have "with_crlf ls = (with_crlf init @ l) @ crlf" by (simp add: ls with_crlf_def)
  then have "take 4 (drop (length (with_crlf ls) - 2) (with_crlf ls @ crlf @ body)) = double_crlf"
    by (simp add: crlf_def double_crlf_def)
  then show ?thesis
    using n no_early_end [OF assms(1)]
    by (auto simp: find_double_crlf_Some crlf_def)
qed

section \<open>The request as lines\<close>

definition request_host :: "rstr \<Rightarrow> u16 \<Rightarrow> rstr" where
  "request_host host port = (if port = 80 then host else host @ lit '':'' @ dec (unat port))"

definition request_key :: "http_env \<Rightarrow> rstr" where
  "request_key env = b64_url_safe env (rand_bytes env)"

definition request_lines :: "http_env \<Rightarrow> rstr \<Rightarrow> u16 \<Rightarrow> byte list \<Rightarrow> byte list list" where
  "request_lines env host port body =
     [lit ''GET / HTTP/1.1'',
      lit ''Host: '' @ request_host host port,
      lit ''User-Agent: curl/7.'' @ dec (unat (rand_maj env mod 54)) @ lit ''.''
        @ dec (unat (rand_min env mod 2)),
      lit ''Upgrade: websocket'', lit ''Connection: Upgrade'',
      lit ''Sec-WebSocket-Key: '' @ request_key env,
      lit ''Content-Length: '' @ dec (length body)]"

definition request_fields :: "http_env \<Rightarrow> rstr \<Rightarrow> u16 \<Rightarrow> byte list \<Rightarrow> (rstr \<times> rstr) list" where
  "request_fields env host port body =
     [(lit ''Host'', request_host host port),
      (lit ''User-Agent'', lit ''curl/7.'' @ dec (unat (rand_maj env mod 54)) @ lit ''.''
        @ dec (unat (rand_min env mod 2))),
      (lit ''Upgrade'', lit ''websocket''), (lit ''Connection'', lit ''Upgrade''),
      (lit ''Sec-WebSocket-Key'', request_key env),
      (lit ''Content-Length'', dec (length body))]"

lemma build_http_request_lines:
  "build_http_request env host port body = with_crlf (request_lines env host port body) @ crlf @ body"
  by (simp add: build_http_request_def request_lines_def request_host_def request_key_def Let_def)

text \<open>No part of the request line and the fields can end a line early.\<close>

definition request_ok :: "http_env \<Rightarrow> rstr \<Rightarrow> bool" where
  "request_ok env host \<longleftrightarrow> 13 \<notin> set host \<and> 13 \<notin> set (request_key env)"

lemma request_lines_ok:
  "request_ok env host \<Longrightarrow> list_all line_ok (request_lines env host port body)"
  by (simp add: request_lines_def request_ok_def line_ok_def request_host_def dec_no_cr lit_simps)

lemma request_fields_of:
  "those (map header_field (tl (request_lines env host port body))) =
     Some (request_fields env host port body)"
  by (simp add: request_lines_def request_fields_def header_field_def lit_simps)

lemma http_server_request:
  assumes "request_ok env host"
  shows "http_server (build_http_request env host port body @ later) =
    Some (request_fields env host port body, body, later)"
proof -
  let ?ls = "request_lines env host port body"
  note ok = request_lines_ok [OF assms, of port body]
  have ne: "?ls \<noteq> []" by (simp add: request_lines_def)
  have n: "2 \<le> length (with_crlf ?ls)" by (simp add: request_lines_def)
  have w: "build_http_request env host port body @ later = with_crlf ?ls @ crlf @ body @ later"
    by (simp add: build_http_request_lines)
  have f: "find_double_crlf (with_crlf ?ls @ crlf @ body @ later) = Some (length (with_crlf ?ls) - 2)"
    using find_end_of_head [OF ok ne] .
  have s: "split_crlf (take (length (with_crlf ?ls) - 2) (with_crlf ?ls @ crlf @ body @ later)) = ?ls"
    using split_crlf_lines [OF ok ne] .
  have d: "drop (length (with_crlf ?ls) - 2 + 4) (with_crlf ?ls @ crlf @ body @ later) = body @ later"
    using n by (simp add: drop_append_exact del: with_crlf_simps)
  have l: "?ls = lit ''GET / HTTP/1.1'' # tl ?ls" by (simp add: request_lines_def)
  have c: "map_of (request_fields env host port body) (lit ''Content-Length'') = Some (dec (length body))"
    by (simp add: request_fields_def lit_simps)
  show ?thesis
    unfolding w http_server_def f
    by (simp only: Option.bind.bind_lunit Let_def s d)
      (subst l, simp add: request_fields_of c)
qed

section \<open>Whole buffers\<close>

text \<open>After the first request, the wrapper writes what the socket writes.\<close>

lemma http_write_all_passthrough:
  "h_write_buf st = [] \<Longrightarrow> \<not> h_first_request st \<Longrightarrow>
   write_all (http_obfs_io env S) st buf k =
     (let (r, s) = write_all S (h_inner st) buf k in (r, st\<lparr>h_inner := s\<rparr>))"
proof (induction k arbitrary: st buf)
  case (Suc k)
  obtain p s1 where "poll_write S (h_inner st) buf = (p, s1)" by fastforce
  with Suc show ?case
    by (auto simp: http_poll_write_def Let_def split: poll.splits sum.splits prod.splits)
qed simp

context async_write
begin

lemma http_write_all_draining:
  "write_all (http_obfs_io env S) st buf k = (Ready (Inr ()), st') \<Longrightarrow> http_write_ok ok st \<Longrightarrow>
   h_write_buf st \<noteq> [] \<Longrightarrow> h_pending_input st = length buf \<Longrightarrow> buf \<noteq> [] \<Longrightarrow>
   http_write_ok ok st' \<and> h_write_buf st' = [] \<and> h_first_request st' = h_first_request st \<and>
   http_wire sent st' = http_wire sent st"
proof (induction k arbitrary: st)
  case (Suc k)
  obtain r st1 where w: "http_poll_write env S st buf = (r, st1)" by fastforce
  note d = http_write_drains [OF w Suc.prems(2,3)]
  consider "r = Pending" | e where "r = Ready (Inl e)" | n where "r = Ready (Inr n)"
    by (metis poll.exhaust sum.exhaust)
  then show ?case
  proof cases
    case 1
    then show ?thesis using Suc.IH [of st1] Suc.prems w d by simp
  next
    case (3 n)
    then have "n = length buf" "h_write_buf st1 = []" using d Suc.prems(4) by auto
    then show ?thesis using Suc.prems w d 3 by (cases k) simp_all
  qed (use Suc.prems w in simp)
qed simp

lemma http_write_all_first:
  assumes "write_all (http_obfs_io env S) st buf k = (Ready (Inr ()), st')" and "http_write_ok ok st"
    and "h_write_buf st = []" and "h_first_request st" and "buf \<noteq> []"
  shows "http_write_ok ok st' \<and> h_write_buf st' = [] \<and> \<not> h_first_request st' \<and>
    sent (h_inner st') = sent (h_inner st) @ build_http_request env (h_host st) (h_port st) buf"
proof (cases k)
  case (Suc k')
  obtain r st1 where w: "http_poll_write env S st buf = (r, st1)" by fastforce
  note d = http_write_first [OF w assms(2-4)]
  consider "r = Pending" | e where "r = Ready (Inl e)" | n where "r = Ready (Inr n)"
    by (metis poll.exhaust sum.exhaust)
  then show ?thesis
  proof cases
    case 1
    then have "write_all (http_obfs_io env S) st1 buf k' = (Ready (Inr ()), st')"
      using assms(1,5) w Suc by simp
    from http_write_all_draining [OF this] show ?thesis
      using 1 d assms(5) by (auto simp: http_wire_def)
  next
    case (3 n)
    then have "n = length buf" "h_write_buf st1 = []" using d by auto
    then show ?thesis
      using assms(1,5) w d 3 Suc by (cases k') (auto simp: http_wire_def)
  qed (use assms w Suc in simp)
qed (use assms in simp)

end

section \<open>Properties\<close>

text \<open>C37: What is written through \<open>HttpObfs\<close> is recovered by a server that reads the request strictly,
  every line and the announced length.  For a host and a key without a carriage return and a
  first input that is not empty, over any transport that has sent nothing: two whole-buffer
  writes end after boundedly many polls, they succeed unless the transport is broken (returns
  an error or takes no byte of a buffer), and after them the server has the header fields, the
  first input as the body and the second right after it.\<close>

theorem http_stream_recovered:
  assumes "async_write S stalls ok sent" and "async_write_sound S stalls ok broken"
    and "ok s" and "sent s = []" and "request_ok env host"
    and "buf \<noteq> []" and "stalls s + length buf \<le> k" and "stalls s + length buf' \<le> k"
  shows "\<exists>r st. write_all (http_obfs_io env S) (http_obfs_new s host port) buf k = (Ready r, st) \<and>
    (r = Inr () \<or> broken) \<and>
    (r = Inr () \<longrightarrow> (\<exists>r' st'. write_all (http_obfs_io env S) st buf' k = (Ready r', st') \<and>
       (r' = Inr () \<or> broken) \<and>
       (r' = Inr () \<longrightarrow>
          http_server (sent (h_inner st')) = Some (request_fields env host port buf, buf, buf'))))"
proof -
  note live = async_write.http_write_live [OF assms(1), of env]
  have new: "http_write_ok ok (http_obfs_new s host port)" "h_write_buf (http_obfs_new s host port) = []"
    "h_first_request (http_obfs_new s host port)" "h_host (http_obfs_new s host port) = host"
    "h_port (http_obfs_new s host port) = port" "h_inner (http_obfs_new s host port) = s"
    "http_sound_ok ok (http_obfs_new s host port)"
    using assms(3) by (simp_all add: http_write_ok_def http_obfs_new_def http_sound_ok_def)
  obtain r st where w: "write_all (http_obfs_io env S) (http_obfs_new s host port) buf k = (Ready r, st)"
    "ok (h_inner st)" "stalls (h_inner st) \<le> stalls s"
    using async_write_live.write_all_returns [OF live, of "http_obfs_new s host port" buf k] new(6)
      assms(3,7) by auto
  note s = async_write_sound.http_write_all_sound [OF assms(2) w(1) new(7)]
  obtain r' st' where w': "write_all (http_obfs_io env S) st buf' k = (Ready r', st')"
    using async_write_live.write_all_returns [OF live, of st buf' k] w(2,3) assms(8) by auto
  have s': "r' = Inr () \<or> broken"
    using s async_write_sound.http_write_all_sound [OF assms(2) w'] by blast
  have "http_server (sent (h_inner st')) = Some (request_fields env host port buf, buf, buf')"
    if r: "r = Inr ()" "r' = Inr ()"
  proof -
    have f: "h_write_buf st = []" "\<not> h_first_request st" "http_write_ok ok st"
      "sent (h_inner st) = build_http_request env host port buf"
      using async_write.http_write_all_first [OF assms(1) w(1) [unfolded r(1)] new(1-3) assms(6)]
        new(4-6) assms(4) by simp_all
    obtain q s' where i: "write_all S (h_inner st) buf' k = (q, s')" by fastforce
    with w' f(1,2) r(2) have "q = Ready (Inr ())" "h_inner st' = s'"
      by (auto simp: http_write_all_passthrough)
    with i async_write.write_all_conserves [OF assms(1) w(2), of buf' k q s']
    have "sent (h_inner st') = build_http_request env host port buf @ buf'" by (simp add: f(4))
    with http_server_request [OF assms(5)] show ?thesis by simp
  qed
  with w(1) w' s s' show ?thesis by blast
qed

theorem http_stream_recovered_witness:
  "\<exists>st st'. write_all (http_obfs_io sample_http_env sock_io)
       (http_obfs_new \<lparr>rx = [], wscript = [Accept 3, WPending], tx = [], closed = False\<rparr> (lit ''h'') 80)
       [1, 13, 10] 4 = (Ready (Inr ()), st) \<and>
     write_all (http_obfs_io sample_http_env sock_io) st [7] 4 = (Ready (Inr ()), st') \<and>
     http_server (tx (h_inner st')) =
       Some (request_fields sample_http_env (lit ''h'') 80 [1, 13, 10], [1, 13, 10], [7])"
proof -
  let ?s = "\<lparr>rx = [], wscript = [Accept 3, WPending], tx = [], closed = False\<rparr>"
  have "request_ok sample_http_env (lit ''h'')"
    by (simp add: request_ok_def request_key_def sample_http_env_def lit_simps)
  then show ?thesis
    using http_stream_recovered [OF sock_steady.async_write_axioms sock_sound.async_write_sound_axioms,
        where s = ?s and k = 4 and env = sample_http_env and host = "lit ''h''" and port = 80
        and buf = "[1, 13, 10]" and buf' = "[7]"]
    by (auto simp: sock_stalls_def sock_steady_def)
qed

end
