(* ===== verification/Obfs_Tests.thy ===== *)
theory Obfs_Tests
  imports Http_Request
begin

text \<open>
  The unit tests of \<open>mihomo-proxy-patched/src/simple_obfs.rs\<close> (its module \<open>tests\<close>) on the model: the
  vocabulary of the assertions and the tests of the HTTP mode; \<open>Tls_Tests\<close> has those of the TLS
  mode.  A test is the conjunction of its assertions; an index out of range, an \<open>unwrap\<close> of an
  error and a read that never ends are \<^term>\<open>None\<close>.  The duplex of tokio is the scripted socket: it
  takes every write whole, since the tests write less than its buffer holds.  The random
  draws are arbitrary.
\<close>

section \<open>Vocabulary\<close>

text \<open>\<open>windows\<close>, \<open>contains\<close>, \<open>ends_with\<close>.\<close>

definition windows :: "nat \<Rightarrow> 'a list \<Rightarrow> 'a list list" where
  "windows n xs = map (\<lambda>i. take n (drop i xs)) [0..<Suc (length xs) - n]"

definition contains :: "byte list \<Rightarrow> byte list \<Rightarrow> bool" where
  "contains s p \<longleftrightarrow> list_ex (\<lambda>w. w = p) (windows (length p) s)"

definition ends_with :: "byte list \<Rightarrow> byte list \<Rightarrow> bool" where
  "ends_with s p \<longleftrightarrow> length p \<le> length s \<and> drop (length s - length p) s = p"

definition be16_at :: "byte list \<Rightarrow> nat \<Rightarrow> nat panics" where
  "be16_at xs i = do { a \<leftarrow> index_at xs i; b \<leftarrow> index_at xs (i + 1); Some (unat (from_be16 a b)) }"

definition unwrapped :: "unit io poll \<times> 's \<Rightarrow> 's panics" where
  "unwrapped q = (if fst q = Ready (Inr ()) then Some (snd q) else None)"

text \<open>
  One end of the in-memory duplex: \<open>written\<close> is what the other end has sent.  An end that is not
  \<open>dropped\<close> keeps a reader waiting after that, a dropped one ends the stream.
\<close>

definition duplex_end :: "byte list \<Rightarrow> bool \<Rightarrow> sock" where
  "duplex_end written dropped =
     \<lparr>rx = (if written = [] then [] else [Recv written]) @ (if dropped then [] else [RPending]),
      wscript = [], tx = [], closed = False\<rparr>"

text \<open>
  The reading loops of the tests: into a buffer of \<open>cap\<close> bytes until it holds \<open>want\<close> of them or the
  stream ends.  A read that keeps waiting is \<^term>\<open>None\<close>: the timeout of the test, or its hanging.
  Every read brings a byte, so \<open>want\<close> reads are enough.
\<close>

fun fill :: "nat \<Rightarrow> nat \<Rightarrow> sock \<Rightarrow> byte list \<Rightarrow> nat \<Rightarrow> byte list panics" where
  "fill cap want s got k =
     (if want \<le> length got then Some got
      else (case k of
          0 \<Rightarrow> None
        | Suc k' \<Rightarrow>
            (case sock_poll_read s (cap - length got) of
               Some (Ready (Inr bs), s') \<Rightarrow> if bs = [] then Some got else fill cap want s' (got @ bs) k'
             | _ \<Rightarrow> None)))"

declare fill.simps [simp del]

lemma fill_once:
  assumes "want \<le> min cap (length w)" and "0 < want"
  shows "fill cap want (duplex_end w dropped) [] want = Some (take cap w)"
proof -
  obtain k where "want = Suc k" using assms(2) by (cases want) simp_all
  moreover have "w \<noteq> []" "take cap w \<noteq> []" using assms by auto
  ultimately show ?thesis
    using assms(1) by (simp add: fill.simps duplex_end_def)
qed

lemma contains_iff: "contains s p \<longleftrightarrow> (\<exists>x y. s = x @ p @ y)"
proof
  assume "contains s p"
  then have "p \<in> set (windows (length p) s)" by (simp add: contains_def list_ex_iff)
  then obtain i where "p = take (length p) (drop i s)" unfolding windows_def set_map by blast
  then have "drop i s = p @ drop (length p) (drop i s)"
    using append_take_drop_id [of "length p" "drop i s"] by simp
  then have "s = take i s @ p @ drop (length p) (drop i s)"
    using append_take_drop_id [of i s] by simp
  then show "\<exists>x y. s = x @ p @ y" by blast
next
  assume "\<exists>x y. s = x @ p @ y"
  then obtain x y where s: "s = x @ p @ y" by blast
  then have "p = take (length p) (drop (length x) s)" "length x \<in> set [0..<Suc (length s) - length p]"
    by simp_all
  then have "p \<in> set (windows (length p) s)" unfolding windows_def set_map by (rule image_eqI)
  then show "contains s p" by (simp add: contains_def list_ex_iff)
qed

lemma contains_mid [intro]: "s = x @ p @ y \<Longrightarrow> contains s p"
  by (auto simp: contains_iff)

lemma starts_with_append [simp]: "starts_with (p @ r) p"
  by (simp add: starts_with_def is_prefix_def)

lemma ends_with_append [simp]: "ends_with (r @ p) p"
  by (simp add: ends_with_def)

section \<open>The HTTP request\<close>

text \<open>
  What base64 documents of \<open>URL_SAFE.encode\<close> for 16 bytes: 24 characters of its alphabet.
\<close>

definition url_safe_char :: "byte \<Rightarrow> bool" where
  "url_safe_char b \<longleftrightarrow> (48 \<le> unat b \<and> unat b \<le> 57) \<or> (65 \<le> unat b \<and> unat b \<le> 90) \<or>
     (97 \<le> unat b \<and> unat b \<le> 122) \<or> b = 45 \<or> b = 95 \<or> b = 61"

definition key_ok :: "http_env \<Rightarrow> bool" where
  "key_ok env \<longleftrightarrow> length (request_key env) = 24 \<and> list_all url_safe_char (request_key env)"

definition http_request_contains_body_and_headers :: "http_env \<Rightarrow> bool panics" where
  "http_request_contains_body_and_headers env =
     (let body = lit ''hello world'';
          req = build_http_request env (lit ''example.com'') 80 body
      in do {
        s \<leftarrow> slice_at req 0 (length req - length body);
        tail \<leftarrow> slice_at req (length req - length body) (length req);
        if \<not> utf8_valid s then None
        else Some (
          starts_with s (lit ''GET / HTTP/1.1'' @ crlf) \<and>
          contains s (lit ''Host: example.com'' @ crlf) \<and>
          \<not> contains s (lit ''Host: example.com:80'' @ crlf) \<and>
          contains s (lit ''Upgrade: websocket'' @ crlf) \<and>
          contains s (lit ''Connection: Upgrade'' @ crlf) \<and>
          contains s (lit ''Content-Length: '' @ dec (length body) @ crlf) \<and>
          contains s (lit ''Sec-WebSocket-Key: '') \<and>
          ends_with s double_crlf \<and>
          tail = body)
      })"

definition http_request_uses_host_port_when_not_80 :: "http_env \<Rightarrow> bool panics" where
  "http_request_uses_host_port_when_not_80 env =
     (let req = build_http_request env (lit ''example.com'') 8080 (lit ''x'') in
      if \<not> utf8_valid req then None
      else Some (contains req (lit ''Host: example.com:8080'' @ crlf)))"

lemma key_ok_sets:
  assumes "key_ok env"
  shows "13 \<notin> set (request_key env)" and "58 \<notin> set (request_key env)"
    and "\<forall>b \<in> set (request_key env). b \<le> 0x7F"
  using assms by (auto simp: key_ok_def list_all_iff url_safe_char_def word_le_nat_alt dest!: bspec)

lemma dec_ascii: "\<forall>b \<in> set (dec n). b \<le> 0x7F"
proof
  fix b assume "b \<in> set (dec n)"
  from dec_digits [OF this] show "b \<le> 0x7F" by (simp add: word_le_nat_alt)
qed

lemma request_ascii:
  assumes "key_ok env" and "\<forall>b \<in> set host. b \<le> 0x7F" and "\<forall>b \<in> set body. b \<le> 0x7F"
  shows "\<forall>b \<in> set (build_http_request env host port body). b \<le> 0x7F"
  using assms(2,3) key_ok_sets(3) [OF assms(1)] dec_ascii
  by (auto simp: build_http_request_def Let_def crlf_def lit_simps request_key_def
      split: if_splits)

lemma split_crlf_has:
  "13 \<notin> set q \<Longrightarrow> 10 \<notin> set q \<Longrightarrow> q \<noteq> [] \<Longrightarrow>
   \<exists>l \<in> set (split_crlf (x @ q @ 13 # 10 # y)). \<exists>z. l = z @ q"
proof (induction x rule: split_crlf.induct)
  case 1
  then show ?case by (simp add: split_crlf_line)
next
  case (2 b)
  then have "split_crlf ([b] @ q @ 13 # 10 # y) = (b # q) # split_crlf y"
    using split_crlf_line [of q y] by (cases q) auto
  then show ?case by auto
next
  case (3 a b r)
  show ?case
  proof (cases "a = 13 \<and> b = 10")
    case True
    with 3 show ?thesis by simp
  next
    case False
    from 3(2) [OF False 3(3-5)] obtain l z where
      l: "l \<in> set (split_crlf ((b # r) @ q @ 13 # 10 # y))" "l = z @ q" by blast
    show ?thesis
    proof (cases "split_crlf ((b # r) @ q @ 13 # 10 # y)")
      case (Cons m ms)
      then have "split_crlf ((a # b # r) @ q @ 13 # 10 # y) = (a # m) # ms" using False by simp
      moreover have "l = m \<or> l \<in> set ms" using l(1) Cons by simp
      ultimately show ?thesis using l(2) by (metis Cons_eq_appendI list.set_intros)
    qed (use l in simp)
  qed
qed

lemma split_crlf_with:
  "list_all line_ok ls \<Longrightarrow> split_crlf (with_crlf ls @ r) = ls @ split_crlf r"
  by (induction ls) (simp_all add: line_ok_def crlf_def split_crlf_line)

lemma no_port_80:
  assumes "key_ok env" and "l \<in> set (request_lines env (lit ''example.com'') 80 body)" and "length body = 11"
  shows "l \<noteq> z @ lit ''Host: example.com:80''"
proof
  let ?q = "lit ''Host: example.com:80''"
  assume "l = z @ ?q"
  then have e: "ends_with l ?q" and r: "rev l = rev ?q @ rev z" by simp_all
  have d: "dec (unat (rand_min env mod 2)) = [48] \<or> dec (unat (rand_min env mod 2)) = [49]"
  proof -
    have "unat (rand_min env mod 2) < 2" by (simp add: unat_mod)
    then consider "unat (rand_min env mod 2) = 0" | "unat (rand_min env mod 2) = 1" by linarith
    then show ?thesis by cases (simp_all add: dec.simps as_u8_def)
  qed
  have c: "dec 11 = [49, 49]" by (simp add: dec.simps as_u8_def)
  have k: "\<not> ends_with (lit ''Sec-WebSocket-Key: '' @ request_key env) ?q"
  proof
    assume "ends_with (lit ''Sec-WebSocket-Key: '' @ request_key env) ?q"
    then have "drop 4 (request_key env) = ?q"
      using assms(1) by (simp add: ends_with_def key_ok_def)
    moreover have "58 \<in> set ?q" by (simp add: lit_simps)
    ultimately show False using key_ok_sets(2) [OF assms(1)] by (metis in_set_dropD)
  qed
  have "l \<noteq> lit ''Sec-WebSocket-Key: '' @ request_key env" using e k by blast
  then show False
    using assms(2,3) r d
    by (auto simp: request_lines_def request_host_def lit_simps c)
qed

lemma contains_line: "l \<in> set ls \<Longrightarrow> contains (with_crlf ls @ r) (l @ crlf)"
proof -
  assume "l \<in> set ls"
  then obtain as bs where "ls = as @ l # bs" by (meson split_list)
  then have "with_crlf ls @ r = with_crlf as @ (l @ crlf) @ with_crlf bs @ r" by (simp add: with_crlf_def)
  then show ?thesis by (rule contains_mid)
qed

lemma contains_append_left: "contains s (p @ q) \<Longrightarrow> contains s p"
  by (force simp: contains_iff)

text \<open>The head of the request of the first test.\<close>

definition head_80 :: "http_env \<Rightarrow> byte list" where
  "head_80 env = with_crlf (request_lines env (lit ''example.com'') 80 (lit ''hello world'')) @ crlf"

lemma head_80_request:
  "build_http_request env (lit ''example.com'') 80 (lit ''hello world'') = head_80 env @ lit ''hello world''"
  by (simp add: head_80_def build_http_request_lines)

lemma head_80_contains:
  assumes "l \<in> set (request_lines env (lit ''example.com'') 80 (lit ''hello world''))"
  shows "contains (head_80 env) (l @ crlf)"
  using contains_line [OF assms] by (simp add: head_80_def)

lemma dec_body: "dec (length (lit ''hello world'')) = lit ''11''"
proof -
  have "length (lit ''hello world'') = 11" by simp
  moreover have "dec 11 = lit ''11''" by (simp add: dec.simps lit_simps as_u8_def)
  ultimately show ?thesis by (simp only:)
qed

lemma head_80_lines:
  "request_lines env (lit ''example.com'') 80 (lit ''hello world'') =
     [lit ''GET / HTTP/1.1'', lit ''Host: example.com'',
      lit ''User-Agent: curl/7.'' @ dec (unat (rand_maj env mod 54)) @ lit ''.''
        @ dec (unat (rand_min env mod 2)),
      lit ''Upgrade: websocket'', lit ''Connection: Upgrade'',
      lit ''Sec-WebSocket-Key: '' @ request_key env, lit ''Content-Length: 11'']"
  unfolding request_lines_def dec_body by (simp add: request_host_def lit_simps)

lemma head_80_no_port:
  assumes "key_ok env"
  shows "\<not> contains (head_80 env) (lit ''Host: example.com:80'' @ crlf)"
proof
  let ?ls = "request_lines env (lit ''example.com'') 80 (lit ''hello world'')"
  assume "contains (head_80 env) (lit ''Host: example.com:80'' @ crlf)"
  then obtain x y where "head_80 env = x @ lit ''Host: example.com:80'' @ 13 # 10 # y"
    by (auto simp: contains_iff crlf_def)
  then obtain l z where l: "l \<in> set (split_crlf (head_80 env))" "l = z @ lit ''Host: example.com:80''"
    using split_crlf_has [of "lit ''Host: example.com:80''" x y] by (auto simp: lit_simps)
  have "list_all line_ok ?ls"
    using key_ok_sets(1) [OF assms]
    by (intro request_lines_ok) (simp add: request_ok_def lit_simps)
  then have "split_crlf (head_80 env) = ?ls @ [[], []]"
    using split_crlf_with [of ?ls crlf] by (simp add: head_80_def crlf_def)
  then have "l \<in> set ?ls" using l by (auto simp: lit_simps)
  then show False using no_port_80 [OF assms, of l "lit ''hello world''" z] l(2) by simp
qed

lemma head_80_ends: "ends_with (head_80 env) double_crlf"
proof -
  have "double_crlf = crlf @ crlf" by (simp add: double_crlf_def crlf_def)
  then have "head_80 env = (with_crlf (butlast (request_lines env (lit ''example.com'') 80 (lit ''hello world'')))
      @ lit ''Content-Length: 11'') @ double_crlf"
    by (simp add: head_80_def head_80_lines)
  then show ?thesis by (metis ends_with_append)
qed

lemma head_80_starts: "starts_with (head_80 env) (lit ''GET / HTTP/1.1'' @ crlf)"
proof -
  have "head_80 env = (lit ''GET / HTTP/1.1'' @ crlf) @
      with_crlf (tl (request_lines env (lit ''example.com'') 80 (lit ''hello world''))) @ crlf"
    by (simp add: head_80_def head_80_lines)
  then show ?thesis by (metis starts_with_append)
qed

lemma head_80_ascii: "key_ok env \<Longrightarrow> \<forall>b \<in> set (head_80 env). b \<le> 0x7F"
proof -
  assume k: "key_ok env"
  have "\<forall>b \<in> set (head_80 env @ lit ''hello world''). b \<le> 0x7F"
    unfolding head_80_request [symmetric]
    by (rule request_ascii [OF k]) (simp_all add: lit_simps)
  then show ?thesis by simp
qed

lemma passes_request_body:
  assumes "key_ok env"
  shows "http_request_contains_body_and_headers env = Some True"
proof -
  let ?s = "head_80 env" and ?b = "lit ''hello world''"
  have slices: "slice_at (?s @ ?b) 0 (length (?s @ ?b) - length ?b) = Some ?s"
    "slice_at (?s @ ?b) (length (?s @ ?b) - length ?b) (length (?s @ ?b)) = Some ?b"
    by (simp_all add: slice_at_def del: length_lit)
  have m: "contains ?s (lit ''Host: example.com'' @ crlf)" "contains ?s (lit ''Upgrade: websocket'' @ crlf)"
    "contains ?s (lit ''Connection: Upgrade'' @ crlf)"
    "contains ?s (lit ''Content-Length: 11'' @ crlf)"
    "contains ?s ((lit ''Sec-WebSocket-Key: '' @ request_key env) @ crlf)"
    by (rule head_80_contains; simp add: head_80_lines)+
  have c: "lit ''Content-Length: 11'' = lit ''Content-Length: '' @ lit ''11''"
    by (simp add: lit_simps)
  show ?thesis
    unfolding http_request_contains_body_and_headers_def Let_def head_80_request slices dec_body
    using m contains_append_left [of ?s "lit ''Sec-WebSocket-Key: ''" "request_key env @ crlf"]
      utf8_valid_ascii [OF head_80_ascii [OF assms]] head_80_no_port [OF assms]
    by (simp add: head_80_ends head_80_starts c)
qed

lemma passes_request_port: "key_ok env \<Longrightarrow> http_request_uses_host_port_when_not_80 env = Some True"
proof -
  assume ok: "key_ok env"
  define ls where "ls = request_lines env (lit ''example.com'') 8080 (lit ''x'')"
  have "\<forall>b \<in> set (build_http_request env (lit ''example.com'') 8080 (lit ''x'')). b \<le> 0x7F"
    by (rule request_ascii [OF ok]) (simp_all add: lit_simps)
  then have u: "utf8_valid (build_http_request env (lit ''example.com'') 8080 (lit ''x''))"
    by (rule utf8_valid_ascii)
  have "lit ''Host: example.com:8080'' \<in> set ls"
    by (simp add: ls_def request_lines_def request_host_def lit_simps dec.simps as_u8_def)
  from contains_line [OF this, of "crlf @ lit ''x''"] show ?thesis
    using u by (simp add: http_request_uses_host_port_when_not_80_def build_http_request_lines ls_def)
qed

section \<open>The HTTP wrapper over a duplex\<close>

definition http_obfs_first_write_then_passthrough :: "http_env \<Rightarrow> bool panics" where
  "http_obfs_first_write_then_passthrough env =
     (let io = http_obfs_io env sock_io;
          obfs = http_obfs_new (duplex_end [] False) (lit ''example.com'') 80
      in do {
        obfs \<leftarrow> unwrapped (write_all io obfs (lit ''PAYLOAD1'') 8);
        obfs \<leftarrow> unwrapped (write_all io obfs (lit ''PAYLOAD2'') 8);
        obfs \<leftarrow> unwrapped (poll_flush io obfs);
        received \<leftarrow> fill 4096 16 (duplex_end (tx (h_inner obfs)) False) [] 16;
        let s = (if utf8_valid received then received else []);
        idx \<leftarrow> find_double_crlf received;
        after \<leftarrow> slice_at received (idx + 4) (length received);
        Some (starts_with s (lit ''GET / HTTP/1.1'' @ crlf) \<and>
              starts_with after (lit ''PAYLOAD1'') \<and>
              ends_with after (lit ''PAYLOAD2''))
      })"

text \<open>\<open>cs\<close> is the room of the polls of \<open>read_to_end\<close>.\<close>

definition fake_response :: "byte list" where
  "fake_response =
     lit ''HTTP/1.1 101 Switching Protocols'' @ crlf @ lit ''Server: nginx'' @ crlf
     @ lit ''Upgrade: websocket'' @ crlf @ lit ''Connection: Upgrade'' @ crlf
     @ crlf @ lit ''HELLO_BODY_BYTES''"

definition http_obfs_strips_first_response_headers :: "http_env \<Rightarrow> nat list \<Rightarrow> bool panics" where
  "http_obfs_strips_first_response_headers env cs =
     (let obfs = http_obfs_new (duplex_end (fake_response @ lit ''_AND_MORE'') True) (lit ''example.com'') 80 in
      (case read_to_end (http_obfs_io env sock_io) obfs cs of
         Some (got, Ready (Inr _), _) \<Rightarrow> Some (got = lit ''HELLO_BODY_BYTES_AND_MORE'')
       | _ \<Rightarrow> None))"

text \<open>A socket without a script takes a buffer at once.\<close>

lemma drain_at_once:
  "wscript s = [] \<Longrightarrow> buf \<noteq> [] \<Longrightarrow>
   drain sock_io s buf 0 = (Ready (Inr ()), s\<lparr>tx := tx s @ buf\<rparr>, [], 0)"
  by (simp add: drain.simps [of _ _ _ 0] drain_done sock_io_def)

lemma http_write_at_once:
  assumes "wscript (h_inner st) = []" and "h_write_buf st = []" and "buf \<noteq> []"
  shows "\<exists>st'. write_all (http_obfs_io env sock_io) st buf (Suc k) = (Ready (Inr ()), st') \<and>
    wscript (h_inner st') = [] \<and> h_write_buf st' = [] \<and> \<not> h_first_request st' \<and>
    tx (h_inner st') = tx (h_inner st) @
      (if h_first_request st then build_http_request env (h_host st) (h_port st) buf else buf)"
proof -
  have fin: "write_all S s [] k = (Ready (Inr ()), s)" for S :: "sock http_obfs async_io" and s
    by (cases k) simp_all
  have sock: "poll_write sock_io s buf = (Ready (Inr (length buf)), s\<lparr>tx := tx s @ buf\<rparr>)"
    if "wscript s = []" for s
    using that by (simp add: sock_io_def)
  show ?thesis
    using assms
    by (cases "h_first_request st")
      (simp_all add: http_poll_write_def http_drain_def drain_at_once fin Let_def sock)
qed

lemma length_dec: "length (dec n) \<le> Suc n"
proof (induction n rule: dec.induct)
  case (1 n)
  then show ?case by (cases "n < 10") (auto simp: dec.simps [of n] elim!: order_trans)
qed

lemma request_length:
  assumes "key_ok env"
  shows "length (with_crlf (request_lines env (lit ''example.com'') 80 (lit ''PAYLOAD1''))) \<le> 400"
proof -
  have "unat (rand_maj env mod 54) < 54" "unat (rand_min env mod 2) < 2" by (simp_all add: unat_mod)
  then have "length (dec (unat (rand_maj env mod 54))) \<le> 54" "length (dec (unat (rand_min env mod 2))) \<le> 2"
    using length_dec [of "unat (rand_maj env mod 54)"] length_dec [of "unat (rand_min env mod 2)"]
    by linarith+
  moreover have "length (dec (length (lit ''PAYLOAD1''))) \<le> 9"
    using length_dec [of "length (lit ''PAYLOAD1'')"] by simp
  ultimately show ?thesis
    using assms by (simp add: request_lines_def request_host_def key_ok_def)
qed

lemma passes_http_writes:
  assumes "key_ok env"
  shows "http_obfs_first_write_then_passthrough env = Some True"
proof -
  let ?io = "http_obfs_io env sock_io" and ?p1 = "lit ''PAYLOAD1''" and ?p2 = "lit ''PAYLOAD2''"
  let ?new = "http_obfs_new (duplex_end [] False) (lit ''example.com'') 80"
  let ?ls = "request_lines env (lit ''example.com'') 80 ?p1"
  define w where "w = with_crlf ?ls @ crlf @ ?p1 @ ?p2"
  have ne: "?p1 \<noteq> []" "?p2 \<noteq> []" by (simp_all add: lit_simps)
  have new: "wscript (h_inner ?new) = []" "h_write_buf ?new = []" "h_first_request ?new"
    "tx (h_inner ?new) = []" "h_host ?new = lit ''example.com''" "h_port ?new = 80"
    by (simp_all add: http_obfs_new_def duplex_end_def)
  obtain st1 where st1: "write_all ?io ?new ?p1 8 = (Ready (Inr ()), st1)"
      "wscript (h_inner st1) = []" "h_write_buf st1 = []" "\<not> h_first_request st1"
      "tx (h_inner st1) = build_http_request env (lit ''example.com'') 80 ?p1"
    using http_write_at_once [OF new(1,2) ne(1), of env 7] new by auto
  obtain st2 where st2: "write_all ?io st1 ?p2 8 = (Ready (Inr ()), st2)" "h_write_buf st2 = []"
      "tx (h_inner st2) = w"
    using http_write_at_once [OF st1(2,3) ne(2), of env 7] st1(4,5)
    by (auto simp: w_def build_http_request_lines)
  have flush: "http_poll_flush sock_io st2 = (Ready (Inr ()), st2)"
    using st2(2) by (simp add: http_poll_flush_def http_drain_then_def sock_io_def)
  have len: "16 \<le> length w" "length w \<le> 4096"
    using request_length [OF assms] by (simp_all add: w_def request_lines_def)
  have got: "fill 4096 16 (duplex_end w False) [] 16 = Some w"
    using fill_once [of 16 4096 w False] len by simp
  have ok: "list_all line_ok ?ls"
    using key_ok_sets(1) [OF assms]
    by (intro request_lines_ok) (simp add: request_ok_def lit_simps)
  have idx: "find_double_crlf w = Some (length (with_crlf ?ls) - 2)"
    unfolding w_def by (rule find_end_of_head [OF ok]) (simp add: request_lines_def)
  have n: "2 \<le> length (with_crlf ?ls)" by (simp add: request_lines_def)
  have after: "slice_at w (length (with_crlf ?ls) - 2 + 4) (length w) = Some (?p1 @ ?p2)"
    using n by (simp add: slice_at_def w_def drop_append_exact del: with_crlf_simps)
  have "\<forall>b \<in> set (build_http_request env (lit ''example.com'') 80 ?p1). b \<le> 0x7F"
    by (rule request_ascii [OF assms]) (simp_all add: lit_simps)
  moreover have "\<forall>b \<in> set ?p2. b \<le> (0x7F :: byte)" by (simp add: lit_simps)
  ultimately have u: "utf8_valid w"
    by (intro utf8_valid_ascii) (auto simp: w_def build_http_request_lines)
  have "w = (lit ''GET / HTTP/1.1'' @ crlf) @ with_crlf (tl ?ls) @ crlf @ ?p1 @ ?p2"
    by (simp add: w_def request_lines_def)
  then have st: "starts_with w (lit ''GET / HTTP/1.1'' @ crlf)" by (metis starts_with_append)
  show ?thesis
    unfolding http_obfs_first_write_then_passthrough_def
    by (simp add: Let_def st1(1) st2(1,3) flush unwrapped_def got idx after u st
        del: with_crlf_simps)
qed

text \<open>The response as lines and a body.\<close>

definition response_lines :: "byte list list" where
  "response_lines =
     [lit ''HTTP/1.1 101 Switching Protocols'', lit ''Server: nginx'', lit ''Upgrade: websocket'',
      lit ''Connection: Upgrade'']"

lemma response_find:
  "find_double_crlf (with_crlf response_lines @ crlf @ body) =
     Some (length (with_crlf response_lines) - 2)"
  by (rule find_end_of_head) (simp_all add: response_lines_def line_ok_def lit_simps)

lemma header_at_once:
  assumes "poll_read S (h_inner st) 1024 = Some (Ready (Inr w), inner)" and "w \<noteq> []"
    and "find_double_crlf w = Some i" and "drop (i + 4) w = body"
    and "h_response_scratch st = []" and "h_leftover st = []" and "h_leftover_off st = 0" and "h_first_response st"
  shows "http_poll_read S st c = Some (Ready (Inr (take c body)),
    st\<lparr>h_inner := inner, h_first_response := False, h_leftover := drop c body\<rparr>)"
proof -
  have "http_header_loop S st c = Some (Ready (Inr (take (min (length body) c) body)),
      (let st = st\<lparr>h_inner := inner, h_first_response := False, h_response_scratch := []\<rparr> in
       if min (length body) c < length body
       then st\<lparr>h_leftover := h_leftover st @ drop (min (length body) c) body, h_leftover_off := 0\<rparr>
       else st))"
    using assms(1-5) by (subst http_header_loop.simps) (simp add: Let_def del: drop_drop length_drop)
  moreover have "take (min (length body) c) body = take c body" by (simp add: min_def)
  ultimately show ?thesis
    using assms(5-8) by (auto simp: http_poll_read_def Let_def min_def)
qed

lemma passes_http_strips:
  assumes "list_all (\<lambda>c. 0 < c) cs" and "30 \<le> length cs"
  shows "http_obfs_strips_first_response_headers env cs = Some True"
proof -
  let ?io = "http_obfs_io env sock_io" and ?body = "lit ''HELLO_BODY_BYTES_AND_MORE''"
  define w where "w = with_crlf response_lines @ crlf @ ?body"
  let ?st = "http_obfs_new (duplex_end w True) (lit ''example.com'') 80"
  have w: "fake_response @ lit ''_AND_MORE'' = w"
    by (simp add: w_def fake_response_def response_lines_def lit_simps)
  have len: "w \<noteq> []" "length w \<le> 1024"
    by (simp add: w_def crlf_def, simp add: w_def response_lines_def)
  obtain c cs' where cs: "cs = c # cs'" "0 < c" using assms by (cases cs) auto
  let ?rest = "drop c ?body"
  define st1 where "st1 = ?st\<lparr>h_inner := duplex_end [] True, h_first_response := False,
      h_leftover := ?rest\<rparr>"
  have poll: "poll_read sock_io (duplex_end w True) 1024 = Some (Ready (Inr w), duplex_end [] True)"
    using len by (simp add: sock_io_def duplex_end_def)
  have n: "2 \<le> length (with_crlf response_lines)" by (simp add: response_lines_def)
  have find: "find_double_crlf w = Some (length (with_crlf response_lines) - 2)"
    unfolding w_def by (rule response_find)
  have body: "drop (length (with_crlf response_lines) - 2 + 4) w = ?body"
    using n by (simp add: w_def drop_append_exact del: with_crlf_simps)
  have sel: "h_inner ?st = duplex_end w True" "h_response_scratch ?st = []" "h_leftover ?st = []"
    "h_leftover_off ?st = 0" "h_first_response ?st"
    by (simp_all add: http_obfs_new_def)
  have first: "http_poll_read sock_io ?st c = Some (Ready (Inr (take c ?body)), st1)"
    unfolding st1_def using header_at_once [of sock_io ?st w, OF _ len(1) find body sel(2-5)] poll sel(1)
    by (simp only:)
  have ok: "http_ok sock_solid st1 \<and> \<not> h_first_response st1"
    by (simp add: st1_def http_ok_def sock_solid_def duplex_end_def http_obfs_new_def)
  have avail: "http_avail sock_avail st1 = ?rest" "http_idle sock_idle st1 = 0"
    by (simp_all add: st1_def http_avail_def http_idle_def sock_avail_def sock_idle_def duplex_end_def
        http_obfs_new_def)
  have "length ?rest + 0 < length cs'" using assms(2) cs by simp
  then obtain bs st2 where rest: "read_to_end ?io st1 cs' = Some (bs, Ready (Inr ()), st2)" "bs = ?rest"
    using async_read.read_to_end_all [OF sock_end.http_read_body_contract [of env] TrueI ok, of cs']
      assms(1) cs by (auto simp: avail)
  have ne: "take c ?body \<noteq> []" using cs(2) by (simp add: lit_simps)
  have "read_to_end ?io ?st cs = Some (take c ?body @ bs, Ready (Inr ()), st2)"
    using cs ne by (simp add: first rest(1))
  then show ?thesis
    by (simp add: http_obfs_strips_first_response_headers_def w rest(2))
qed

end
