(* ===== verification/Tls_Obfs.thy ===== *)
theory Tls_Obfs
  imports Async_Io
begin

text \<open>
  The TLS mode of \<open>mihomo-proxy-patched/src/simple_obfs.rs\<close>: \<open>TlsObfs\<close>, its \<open>AsyncRead\<close>
  and \<open>AsyncWrite\<close> and \<open>build_client_hello\<close>.  The random bytes and the clock are the record
  \<open>tls_env\<close>.  The 16-bit sums of \<open>build_client_hello\<close> wrap, as they do in the release build.
\<close>

section \<open>Model\<close>

definition TLS_CHUNK_SIZE :: nat where "TLS_CHUNK_SIZE = 16384"
definition TLS_FIRST_RESPONSE_DISCARD :: nat where "TLS_FIRST_RESPONSE_DISCARD = 105"
definition TLS_RECORD_HEADER_DISCARD :: nat where "TLS_RECORD_HEADER_DISCARD = 3"

record tls_env =
  random28 :: "byte list"
  session_id :: "byte list"
  unix_secs :: "nat option"  \<comment> \<open>\<^term>\<open>None\<close>: the clock is before 1970\<close>

definition cipher_suites :: "byte list" where
  "cipher_suites =
    [0xc0, 0x2c, 0xc0, 0x30, 0x00, 0x9f, 0xcc, 0xa9, 0xcc, 0xa8, 0xcc, 0xaa, 0xc0, 0x2b, 0xc0,
     0x2f, 0x00, 0x9e, 0xc0, 0x24, 0xc0, 0x28, 0x00, 0x6b, 0xc0, 0x23, 0xc0, 0x27, 0x00, 0x67,
     0xc0, 0x0a, 0xc0, 0x14, 0x00, 0x39, 0xc0, 0x09, 0xc0, 0x13, 0x00, 0x33, 0x00, 0x9d, 0x00,
     0x9c, 0x00, 0x3d, 0x00, 0x3c, 0x00, 0x35, 0x00, 0x2f, 0x00, 0xff]"

definition tail_extensions :: "byte list" where
  "tail_extensions =
    [0x00, 0x0b, 0x00, 0x04, 0x03, 0x01, 0x00, 0x02]
    @ [0x00, 0x0a, 0x00, 0x0a, 0x00, 0x08, 0x00, 0x1d, 0x00, 0x17, 0x00, 0x19, 0x00, 0x18]
    @ [0x00, 0x0d, 0x00, 0x20, 0x00, 0x1e, 0x06, 0x01, 0x06, 0x02, 0x06, 0x03, 0x05, 0x01, 0x05,
       0x02, 0x05, 0x03, 0x04, 0x01, 0x04, 0x02, 0x04, 0x03, 0x03, 0x01, 0x03, 0x02, 0x03, 0x03,
       0x02, 0x01, 0x02, 0x02, 0x02, 0x03]
    @ [0x00, 0x16, 0x00, 0x00]
    @ [0x00, 0x17, 0x00, 0x00]"

definition build_client_hello :: "tls_env \<Rightarrow> byte list \<Rightarrow> rstr \<Rightarrow> byte list" where
  "build_client_hello env data server =
     (let data_len = length data;
          server_len = length server;
          record_len = 212 + as_u16 data_len + as_u16 server_len;
          handshake_len = 208 + as_u16 data_len + as_u16 server_len;
          now = (case unix_secs env of None \<Rightarrow> 0 | Some s \<Rightarrow> as_u32 s);
          ext_len = 79 + as_u16 data_len + as_u16 server_len
      in [0x16] @ [0x03, 0x01] @ to_be16 record_len
         @ [0x01] @ [0x00] @ to_be16 handshake_len
         @ [0x03, 0x03]
         @ to_be32 now @ random28 env
         @ [32] @ session_id env
         @ [0x00, 0x38] @ cipher_suites
         @ [0x01, 0x00]
         @ to_be16 ext_len
         @ [0x00, 0x23] @ to_be16 (as_u16 data_len) @ data
         @ [0x00, 0x00] @ to_be16 (as_u16 server_len + 5) @ to_be16 (as_u16 server_len + 3)
         @ [0x00] @ to_be16 (as_u16 server_len) @ server
         @ tail_extensions)"

datatype tls_read_phase = Discard nat | Length | Payload nat

record 's tls_obfs =
  t_inner :: 's
  t_server :: rstr
  t_first_response :: bool
  t_read_phase :: tls_read_phase
  t_len_buf :: "byte list"
  t_len_progress :: nat
  t_first_request :: bool
  t_write_buf :: "byte list"
  t_write_buf_off :: nat
  t_pending_input :: nat

definition tls_obfs_new :: "'s \<Rightarrow> rstr \<Rightarrow> 's tls_obfs" where
  "tls_obfs_new inner server =
     \<lparr>t_inner = inner, t_server = server, t_first_response = True,
      t_read_phase = Discard TLS_FIRST_RESPONSE_DISCARD, t_len_buf = [0, 0], t_len_progress = 0,
      t_first_request = True, t_write_buf = [], t_write_buf_off = 0, t_pending_input = 0\<rparr>"

definition tls_drain :: "'s async_io \<Rightarrow> 's tls_obfs \<Rightarrow> unit io poll \<times> 's tls_obfs" where
  "tls_drain S st =
     (let (r, inner, buf, off) = drain S (t_inner st) (t_write_buf st) (t_write_buf_off st)
      in (r, st\<lparr>t_inner := inner, t_write_buf := buf, t_write_buf_off := off\<rparr>))"

text \<open>
  The loop of \<open>poll_read\<close>.  It consumes frame after frame until one has payload, so over
  a peer that sends empty frames without end it does not return (\<^term>\<open>None\<close>).
\<close>

partial_function (option) tls_poll_read ::
  "'s async_io \<Rightarrow> 's tls_obfs \<Rightarrow> nat \<Rightarrow> (byte list io poll \<times> 's tls_obfs) option" where
  "tls_poll_read S st room =
     (case t_read_phase st of
        Discard remaining \<Rightarrow>
          if remaining = 0
          then tls_poll_read S (st\<lparr>t_read_phase := Length, t_len_progress := 0\<rparr>) room
          else (case poll_read S (t_inner st) (min remaining 256) of
             None \<Rightarrow> None
           | Some (r, inner) \<Rightarrow>
               (case r of
                  Pending \<Rightarrow> Some (Pending, st\<lparr>t_inner := inner\<rparr>)
                | Ready x \<Rightarrow>
                    (case x of
                       Inl e \<Rightarrow> Some (Ready (Inl e), st\<lparr>t_inner := inner\<rparr>)
                     | Inr tmp \<Rightarrow>
                         if tmp = [] then Some (Ready (Inr []), st\<lparr>t_inner := inner\<rparr>)
                         else tls_poll_read S
                                (st\<lparr>t_inner := inner,
                                    t_read_phase := Discard (remaining - length tmp)\<rparr>) room)))
      | Length \<Rightarrow>
          if 2 \<le> t_len_progress st
          then tls_poll_read S
                 (st\<lparr>t_read_phase :=
                       Payload (unat (from_be16 (t_len_buf st ! 0) (t_len_buf st ! 1)))\<rparr>) room
          else (case poll_read S (t_inner st) (2 - t_len_progress st) of
             None \<Rightarrow> None
           | Some (r, inner) \<Rightarrow>
               (case r of
                  Pending \<Rightarrow> Some (Pending, st\<lparr>t_inner := inner\<rparr>)
                | Ready x \<Rightarrow>
                    (case x of
                       Inl e \<Rightarrow> Some (Ready (Inl e), st\<lparr>t_inner := inner\<rparr>)
                     | Inr tmp \<Rightarrow>
                         if tmp = [] then Some (Ready (Inr []), st\<lparr>t_inner := inner\<rparr>)
                         else tls_poll_read S
                                (st\<lparr>t_inner := inner,
                                    t_len_buf := take (t_len_progress st) (t_len_buf st) @ tmp
                                      @ drop (t_len_progress st + length tmp) (t_len_buf st),
                                    t_len_progress := t_len_progress st + length tmp\<rparr>) room)))
      | Payload remaining \<Rightarrow>
          if remaining = 0
          then tls_poll_read S
                 (st\<lparr>t_read_phase := Discard TLS_RECORD_HEADER_DISCARD,
                     t_first_response := False\<rparr>) room
          else if min room remaining = 0 then Some (Ready (Inr []), st)
          else (case poll_read S (t_inner st) (min room remaining) of
             None \<Rightarrow> None
           | Some (r, inner) \<Rightarrow>
               (case r of
                  Pending \<Rightarrow> Some (Pending, st\<lparr>t_inner := inner\<rparr>)
                | Ready x \<Rightarrow>
                    (case x of
                       Inl e \<Rightarrow> Some (Ready (Inl e), st\<lparr>t_inner := inner\<rparr>)
                     | Inr tmp \<Rightarrow>
                         if tmp = [] then Some (Ready (Inr []), st\<lparr>t_inner := inner\<rparr>)
                         else Some (Ready (Inr tmp),
                                st\<lparr>t_inner := inner,
                                   t_read_phase := Payload (remaining - length tmp)\<rparr>)))))"

text \<open>One application-data record.\<close>

definition tls_frame :: "byte list \<Rightarrow> byte list" where
  "tls_frame chunk = [0x17, 0x03, 0x03] @ to_be16 (as_u16 (length chunk)) @ chunk"

definition tls_poll_write ::
  "tls_env \<Rightarrow> 's async_io \<Rightarrow> 's tls_obfs \<Rightarrow> byte list \<Rightarrow> nat io poll \<times> 's tls_obfs" where
  "tls_poll_write env S st buf =
     (if t_write_buf st \<noteq> [] then
        (case tls_drain S st of
           (Ready (Inr _), st) \<Rightarrow> (Ready (Inr (t_pending_input st)), st\<lparr>t_pending_input := 0\<rparr>)
         | (Ready (Inl e), st) \<Rightarrow> (Ready (Inl e), st)
         | (Pending, st) \<Rightarrow> (Pending, st))
      else if buf = [] then (Ready (Inr 0), st)
      else
        (let n = min (length buf) TLS_CHUNK_SIZE;
             chunk = take n buf;
             st = (if t_first_request st
                   then st\<lparr>t_first_request := False,
                           t_write_buf := build_client_hello env chunk (t_server st)\<rparr>
                   else st\<lparr>t_write_buf := tls_frame chunk\<rparr>);
             st = st\<lparr>t_write_buf_off := 0, t_pending_input := n\<rparr>
         in case tls_drain S st of
           (Ready (Inr _), st) \<Rightarrow> (Ready (Inr (t_pending_input st)), st\<lparr>t_pending_input := 0\<rparr>)
         | (Ready (Inl e), st) \<Rightarrow> (Ready (Inl e), st)
         | (Pending, st) \<Rightarrow> (Pending, st)))"

definition tls_drain_then ::
  "'s async_io \<Rightarrow> ('s \<Rightarrow> unit io poll \<times> 's) \<Rightarrow> 's tls_obfs \<Rightarrow> unit io poll \<times> 's tls_obfs" where
  "tls_drain_then S act st =
     (let (r, st) = (if t_write_buf st \<noteq> [] then tls_drain S st else (Ready (Inr ()), st))
      in if r = Ready (Inr ())
         then (let (r, inner) = act (t_inner st) in (r, st\<lparr>t_inner := inner\<rparr>))
         else (r, st))"

definition tls_poll_flush :: "'s async_io \<Rightarrow> 's tls_obfs \<Rightarrow> unit io poll \<times> 's tls_obfs" where
  "tls_poll_flush S st = tls_drain_then S (poll_flush S) st"

definition tls_poll_shutdown :: "'s async_io \<Rightarrow> 's tls_obfs \<Rightarrow> unit io poll \<times> 's tls_obfs" where
  "tls_poll_shutdown S st = tls_drain_then S (poll_shutdown S) st"

definition tls_obfs_io :: "tls_env \<Rightarrow> 's async_io \<Rightarrow> 's tls_obfs async_io" where
  "tls_obfs_io env S =
     \<lparr>poll_read = tls_poll_read S, poll_write = tls_poll_write env S,
      poll_flush = tls_poll_flush S, poll_shutdown = tls_poll_shutdown S\<rparr>"

lemma tls_obfs_io_sel [simp]:
  "poll_read (tls_obfs_io env S) = tls_poll_read S"
  "poll_write (tls_obfs_io env S) = tls_poll_write env S"
  "poll_flush (tls_obfs_io env S) = tls_poll_flush S"
  "poll_shutdown (tls_obfs_io env S) = tls_poll_shutdown S"
  by (simp_all add: tls_obfs_io_def)

section \<open>Specification of the reading direction\<close>

text \<open>
  The payload of a wire, from any point of the framing: \<open>got\<close> are the bytes of the length
  field read so far.
\<close>

fun phase_rank :: "tls_read_phase \<Rightarrow> nat" where
  "phase_rank Length = 0"
| "phase_rank (Discard n) = 1"
| "phase_rank (Payload n) = 2"

function tls_decode :: "tls_read_phase \<Rightarrow> byte list \<Rightarrow> byte list \<Rightarrow> byte list" where
  "tls_decode (Discard n) got w =
     (if length w < n then [] else tls_decode Length [] (drop n w))"
| "tls_decode Length got w =
     (if length (got @ w) < 2 then []
      else tls_decode (Payload (unat (from_be16 ((got @ w) ! 0) ((got @ w) ! 1)))) []
             (drop 2 (got @ w)))"
| "tls_decode (Payload n) got w =
     take n w @ (if length w < n then []
                 else tls_decode (Discard TLS_RECORD_HEADER_DISCARD) [] (drop n w))"
  by pat_completeness auto
termination
  by (relation "measures [\<lambda>(ph, got, w). length got + length w, \<lambda>(ph, got, w). phase_rank ph]") auto

declare tls_decode.simps [simp del]

lemma tls_decode_discard:
  "length tmp \<le> n \<Longrightarrow> tls_decode (Discard n) g (tmp @ w) = tls_decode (Discard (n - length tmp)) g' w"
  by (simp add: tls_decode.simps less_diff_conv add.commute)

lemma tls_decode_discard_0: "tls_decode (Discard 0) g w = tls_decode Length [] w"
  by (simp add: tls_decode.simps)

lemma tls_decode_length: "tls_decode Length g (tmp @ w) = tls_decode Length (g @ tmp) w"
  by (simp add: tls_decode.simps)

lemma tls_decode_payload:
  "length tmp \<le> n \<Longrightarrow>
   tls_decode (Payload n) g (tmp @ w) = tmp @ tls_decode (Payload (n - length tmp)) g' w"
  by (simp add: tls_decode.simps less_diff_conv add.commute)

lemma tls_decode_payload_0:
  "tls_decode (Payload 0) g w = tls_decode (Discard TLS_RECORD_HEADER_DISCARD) g' w"
  by (simp add: tls_decode.simps)

lemma tls_decode_got: "ph \<noteq> Length \<Longrightarrow> tls_decode ph g w = tls_decode ph g' w"
  by (cases ph) (simp_all add: tls_decode.simps)

section \<open>Reading\<close>

definition tls_avail :: "('s \<Rightarrow> byte list) \<Rightarrow> 's tls_obfs \<Rightarrow> byte list" where
  "tls_avail avail st =
     tls_decode (t_read_phase st) (take (t_len_progress st) (t_len_buf st)) (avail (t_inner st))"

definition tls_ok :: "('s \<Rightarrow> bool) \<Rightarrow> 's tls_obfs \<Rightarrow> bool" where
  "tls_ok ok st \<longleftrightarrow> ok (t_inner st) \<and> length (t_len_buf st) = 2 \<and> t_len_progress st \<le> 2"

text \<open>The part of the measure that orders the turns that read nothing.\<close>

definition phase_weight :: "'s tls_obfs \<Rightarrow> nat" where
  "phase_weight st =
     (case t_read_phase st of
        Discard n \<Rightarrow> 1
      | Length \<Rightarrow> if 2 \<le> t_len_progress st then 3 else 0
      | Payload n \<Rightarrow> 2)"

definition tls_weight :: "('s \<Rightarrow> byte list) \<Rightarrow> 's tls_obfs \<Rightarrow> nat" where
  "tls_weight avail st = 4 * length (avail (t_inner st)) + phase_weight st"

definition tls_idle :: "('s \<Rightarrow> nat) \<Rightarrow> 's tls_obfs \<Rightarrow> nat" where
  "tls_idle idle st = idle (t_inner st)"

lemmas tls_read_defs = tls_ok_def tls_avail_def tls_idle_def

lemma tls_decode_end:
  "0 < n \<Longrightarrow> tls_decode (Discard n) got [] = []"
  "length got < 2 \<Longrightarrow> tls_decode Length got [] = []"
  "0 < n \<Longrightarrow> tls_decode (Payload n) got [] = []"
  by (simp_all add: tls_decode.simps)

context async_read
begin

text \<open>
  The three phases.  Each lemma may assume the contract for every state of smaller weight,
  which is what the recursive calls go to.
\<close>

lemma tls_discard_turn:
  assumes ok: "tls_ok ok st" and ph: "t_read_phase st = Discard n"
    and ih: "\<And>st'. tls_weight avail st' < tls_weight avail st \<Longrightarrow> tls_ok ok st' \<Longrightarrow>
      tls_avail avail st' = tls_avail avail st \<Longrightarrow> tls_idle idle st' \<le> tls_idle idle st \<Longrightarrow>
      read_good strict faulty (tls_avail avail) (tls_idle idle) (tls_ok ok) st room (tls_poll_read S st' room)"
  shows "read_good strict faulty (tls_avail avail) (tls_idle idle) (tls_ok ok) st room (tls_poll_read S st room)"
proof (cases "n = 0")
  case True
  let ?st = "st\<lparr>t_read_phase := Length, t_len_progress := 0\<rparr>"
  have "read_good strict faulty (tls_avail avail) (tls_idle idle) (tls_ok ok) st room (tls_poll_read S ?st room)"
    by (rule ih) (use ok ph True in \<open>simp_all add: phase_weight_def tls_weight_def tls_read_defs
          tls_decode_discard_0\<close>)
  then show ?thesis using ph True by (subst tls_poll_read.simps) simp
next
  case False
  have k: "ok (t_inner st)" using ok by (simp add: tls_ok_def)
  then show ?thesis
  proof (cases rule: read_cases [where c = "min n 256"])
    case (waits s')
    then show ?thesis using ph False ok
      by (subst tls_poll_read.simps) (simp add: tls_read_defs tls_decode_end)
  next
    case (fails e s')
    then show ?thesis using ph False ok
      by (subst tls_poll_read.simps) (simp add: tls_read_defs)
  next
    case (got tmp s')
    show ?thesis
    proof (cases "tmp = []")
      case True
      then show ?thesis using got ph False ok
        by (subst tls_poll_read.simps) (auto simp: tls_read_defs tls_decode_end)
    next
      case ne: False
      let ?st = "st\<lparr>t_inner := s', t_read_phase := Discard (n - length tmp)\<rparr>"
      have "tls_avail avail ?st = tls_avail avail st"
        using got ph by (simp add: tls_avail_def) (rule tls_decode_discard [symmetric], simp)
      moreover have "0 < length tmp" using ne by simp
      ultimately have "read_good strict faulty (tls_avail avail) (tls_idle idle) (tls_ok ok) st room (tls_poll_read S ?st room)"
        by (intro ih)
          (use ok got ph in \<open>simp_all add: tls_weight_def phase_weight_def tls_ok_def tls_idle_def\<close>)
      then show ?thesis using ph False ne got by (subst tls_poll_read.simps) simp
    qed
  qed
qed

lemma tls_length_turn:
  assumes ok: "tls_ok ok st" and ph: "t_read_phase st = Length"
    and ih: "\<And>st'. tls_weight avail st' < tls_weight avail st \<Longrightarrow> tls_ok ok st' \<Longrightarrow>
      tls_avail avail st' = tls_avail avail st \<Longrightarrow> tls_idle idle st' \<le> tls_idle idle st \<Longrightarrow>
      read_good strict faulty (tls_avail avail) (tls_idle idle) (tls_ok ok) st room (tls_poll_read S st' room)"
  shows "read_good strict faulty (tls_avail avail) (tls_idle idle) (tls_ok ok) st room (tls_poll_read S st room)"
proof (cases "2 \<le> t_len_progress st")
  case True
  let ?n = "unat (from_be16 (t_len_buf st ! 0) (t_len_buf st ! 1))"
  let ?st = "st\<lparr>t_read_phase := Payload ?n\<rparr>"
  have "tls_avail avail ?st = tls_avail avail st"
    using ok True ph
    by (simp add: tls_avail_def tls_ok_def tls_decode.simps(2) nth_append)
      (metis tls_decode_got tls_read_phase.distinct(5))
  then have "read_good strict faulty (tls_avail avail) (tls_idle idle) (tls_ok ok) st room (tls_poll_read S ?st room)"
    by (intro ih)
      (use ok True ph in \<open>simp_all add: tls_weight_def phase_weight_def tls_ok_def tls_idle_def\<close>)
  then show ?thesis using ph True by (subst tls_poll_read.simps) simp
next
  case False
  have k: "ok (t_inner st)" using ok by (simp add: tls_ok_def)
  then show ?thesis
  proof (cases rule: read_cases [where c = "2 - t_len_progress st"])
    case (waits s')
    then show ?thesis using ph False ok
      by (subst tls_poll_read.simps) (simp add: tls_read_defs tls_decode_end)
  next
    case (fails e s')
    then show ?thesis using ph False ok
      by (subst tls_poll_read.simps) (simp add: tls_read_defs)
  next
    case (got tmp s')
    show ?thesis
    proof (cases "tmp = []")
      case True
      then show ?thesis using got ph False ok
        by (subst tls_poll_read.simps) (auto simp: tls_read_defs tls_decode_end)
    next
      case ne: False
      let ?st = "st\<lparr>t_inner := s',
          t_len_buf := take (t_len_progress st) (t_len_buf st) @ tmp
            @ drop (t_len_progress st + length tmp) (t_len_buf st),
          t_len_progress := t_len_progress st + length tmp\<rparr>"
      have "tls_avail avail ?st = tls_avail avail st"
        using got ph False ok
          tls_decode_length [of "take (t_len_progress st) (t_len_buf st)" tmp "avail s'"]
        by (simp add: tls_avail_def tls_ok_def)
      moreover have "0 < length tmp" using ne by simp
      ultimately have "read_good strict faulty (tls_avail avail) (tls_idle idle) (tls_ok ok) st room (tls_poll_read S ?st room)"
        by (intro ih)
          (use ok got ph False in \<open>simp_all add: tls_weight_def phase_weight_def tls_ok_def tls_idle_def\<close>)
      then show ?thesis using ph False ne got by (subst tls_poll_read.simps) simp
    qed
  qed
qed

lemma tls_payload_turn:
  assumes ok: "tls_ok ok st" and ph: "t_read_phase st = Payload n"
    and ih: "\<And>st'. tls_weight avail st' < tls_weight avail st \<Longrightarrow> tls_ok ok st' \<Longrightarrow>
      tls_avail avail st' = tls_avail avail st \<Longrightarrow> tls_idle idle st' \<le> tls_idle idle st \<Longrightarrow>
      read_good strict faulty (tls_avail avail) (tls_idle idle) (tls_ok ok) st room (tls_poll_read S st' room)"
  shows "read_good strict faulty (tls_avail avail) (tls_idle idle) (tls_ok ok) st room (tls_poll_read S st room)"
proof -
  have k: "ok (t_inner st)" using ok by (simp add: tls_ok_def)
  consider "n = 0" | "n \<noteq> 0" "min room n = 0" | "n \<noteq> 0" "min room n \<noteq> 0" by blast
  then show ?thesis
  proof cases
    case 1
    let ?st = "st\<lparr>t_read_phase := Discard TLS_RECORD_HEADER_DISCARD, t_first_response := False\<rparr>"
    have "tls_avail avail ?st = tls_avail avail st"
      using ph 1 by (simp add: tls_avail_def) (metis tls_decode_payload_0)
    then have "read_good strict faulty (tls_avail avail) (tls_idle idle) (tls_ok ok) st room (tls_poll_read S ?st room)"
      by (intro ih)
        (use ok ph in \<open>simp_all add: tls_weight_def phase_weight_def tls_ok_def tls_idle_def\<close>)
    then show ?thesis using ph 1 by (subst tls_poll_read.simps) simp
  next
    case 2
    then show ?thesis using ph ok
      by (subst tls_poll_read.simps) (auto simp: tls_read_defs min_def split: if_splits)
  next
    case 3
    from k show ?thesis
    proof (cases rule: read_cases [where c = "min room n"])
      case (waits s')
      then show ?thesis using ph 3 ok
        by (subst tls_poll_read.simps) (auto simp: tls_read_defs tls_decode_end)
    next
      case (fails e s')
      then show ?thesis using ph 3 ok
        by (subst tls_poll_read.simps) (auto simp: tls_read_defs)
    next
      case (got tmp s')
      then show ?thesis using ph 3 ok tls_decode_payload [of tmp n]
        by (subst tls_poll_read.simps)
          (auto simp: tls_read_defs tls_decode_end)
    qed
  qed
qed

lemma tls_read_good:
  "tls_ok ok st \<Longrightarrow>
   read_good strict faulty (tls_avail avail) (tls_idle idle) (tls_ok ok) st room (tls_poll_read S st room)"
proof (induction "tls_weight avail st" arbitrary: st rule: less_induct)
  case less
  have ih: "read_good strict faulty (tls_avail avail) (tls_idle idle) (tls_ok ok) st room (tls_poll_read S st' room)"
    if "tls_weight avail st' < tls_weight avail st" "tls_ok ok st'"
      "tls_avail avail st' = tls_avail avail st" "tls_idle idle st' \<le> tls_idle idle st" for st'
    using read_good_step [OF that(3,4) less.hyps [OF that(1,2)]] .
  show ?case
    using less.prems ih
    by (cases "t_read_phase st")
      (auto intro: tls_discard_turn tls_length_turn tls_payload_turn)
qed

text \<open>The wrapper is a reader of the decoded stream, and its polls return.\<close>

lemma tls_read_contract:
  "async_read (tls_obfs_io env S) (tls_avail avail) (tls_idle idle) (tls_ok ok) strict faulty"
  by unfold_locales (simp add: tls_read_good)

end

interpretation tls: async_read "tls_obfs_io env sock_io" "tls_avail sock_avail"
    "tls_idle sock_idle" "tls_ok (\<lambda>_. True)" False True for env
  by (rule sock.tls_read_contract)

section \<open>Properties\<close>

definition sample_tls_env :: tls_env where
  "sample_tls_env = \<lparr>random28 = replicate 28 7, session_id = replicate 32 9, unix_secs = None\<rparr>"

text \<open>C8: Reading through \<open>TlsObfs\<close>, over any transport and with buffers of any sizes: every poll
  returns, and the bytes delivered are the beginning of the payload of the records after the
  105 bytes of the server's hello, in order, wherever the transport cuts them.  A caller that
  goes on polling with room in its buffers gets all of it, unless the transport fails.\<close>

theorem tls_read_decodes:
  assumes "async_read S avail idle ok strict faulty" and "ok s"
  defines "payload \<equiv> tls_decode (Discard TLS_FIRST_RESPONSE_DISCARD) [] (avail s)"
  shows "\<exists>bs e st'. read_seq (tls_obfs_io env S) (tls_obfs_new s server) cs = Some (bs, e, st') \<and>
    (\<exists>rest. payload = bs @ rest) \<and>
    (e = None \<or> faulty) \<and>
    (e = None \<and> list_all (\<lambda>c. 0 < c) cs \<and> length payload + idle s \<le> length cs \<longrightarrow> bs = payload)"
proof -
  have k: "tls_ok ok (tls_obfs_new s server)"
    using assms(2) by (simp add: tls_ok_def tls_obfs_new_def)
  have "tls_idle idle (tls_obfs_new s server) = idle s"
    "tls_avail avail (tls_obfs_new s server) = payload"
    by (simp_all add: tls_idle_def tls_avail_def tls_obfs_new_def payload_def)
  with async_read.read_seq_good [OF async_read.tls_read_contract [OF assms(1), of env] k, of cs]
  show ?thesis by simp
qed

theorem tls_read_decodes_witness:
  "\<exists>bs e st'. read_seq (tls_obfs_io sample_tls_env sock_io)
      (tls_obfs_new \<lparr>rx = [Recv (replicate 105 0), Recv [0], RPending, Recv [2, 7, 8]],
                     wscript = [], tx = [], closed = False\<rparr> (lit ''h'')) [1, 1, 1] = Some (bs, e, st') \<and>
    (e = None \<longrightarrow> bs = [7, 8])"
proof -
  have two: "unat (from_be16 0 2) = 2" by (simp add: unat_from_be16)
  have "tls_decode (Discard TLS_FIRST_RESPONSE_DISCARD) [] (replicate 105 0 @ [0, 2, 7, 8]) = [7, 8]"
    by (simp add: tls_decode.simps TLS_FIRST_RESPONSE_DISCARD_def TLS_RECORD_HEADER_DISCARD_def
        two)
  then show ?thesis
    using tls_read_decodes [OF sock.async_read_axioms, where env = sample_tls_env and s =
      "\<lparr>rx = [Recv (replicate 105 0), Recv [0], RPending, Recv [2, 7, 8]],
        wscript = [], tx = [], closed = False\<rparr>" and server = "lit ''h''" and cs = "[1, 1, 1]"]
    by (simp add: sock_avail_def sock_idle_def) blast
qed

text \<open>C38: Reading through \<open>TlsObfs\<close> never ends early: over a transport whose empty reads mean its end,
  \<open>read_to_end\<close> with enough polls stops, with an error of the transport or with exactly the
  payload of all records, empty records and cuts inside a record header notwithstanding.\<close>

theorem tls_read_to_end:
  assumes "async_read S avail idle ok True faulty" and "ok s" and "list_all (\<lambda>c. 0 < c) cs"
  defines "payload \<equiv> tls_decode (Discard TLS_FIRST_RESPONSE_DISCARD) [] (avail s)"
  assumes "length payload + idle s < length cs"
  shows "\<exists>bs r st'. read_to_end (tls_obfs_io env S) (tls_obfs_new s server) cs = Some (bs, Ready r, st') \<and>
    (\<exists>rest. payload = bs @ rest) \<and> (r = Inr () \<longrightarrow> bs = payload) \<and> (r = Inr () \<or> faulty)"
proof -
  have k: "tls_ok ok (tls_obfs_new s server)"
    using assms(2) by (simp add: tls_ok_def tls_obfs_new_def)
  have "tls_idle idle (tls_obfs_new s server) = idle s"
    "tls_avail avail (tls_obfs_new s server) = payload"
    by (simp_all add: tls_idle_def tls_avail_def tls_obfs_new_def payload_def)
  with async_read.read_to_end_all [OF async_read.tls_read_contract [OF assms(1), of env] TrueI k assms(3)]
  show ?thesis using assms(5) by simp
qed

theorem tls_read_to_end_witness:
  "\<exists>bs r st'. read_to_end (tls_obfs_io sample_tls_env sock_io)
      (tls_obfs_new \<lparr>rx = [Recv (replicate 105 0), Recv [0, 0, 1, 1, 1, 0], RPending, Recv [2, 7, 8]],
                     wscript = [], tx = [], closed = False\<rparr> (lit ''h'')) [1, 9, 9, 9] = Some (bs, Ready r, st') \<and>
    r = Inr () \<and> bs = [7, 8]"
proof -
  have two: "unat (from_be16 0 2) = 2" "unat (from_be16 0 0) = 0" by (simp_all add: unat_from_be16)
  have "tls_decode (Discard TLS_FIRST_RESPONSE_DISCARD) []
      (replicate 105 0 @ [0, 0, 1, 1, 1, 0, 2, 7, 8]) = [7, 8]"
    by (simp add: tls_decode.simps TLS_FIRST_RESPONSE_DISCARD_def TLS_RECORD_HEADER_DISCARD_def two)
  then show ?thesis
    using tls_read_to_end [OF sock_end.async_read_axioms, where env = sample_tls_env and s =
      "\<lparr>rx = [Recv (replicate 105 0), Recv [0, 0, 1, 1, 1, 0], RPending, Recv [2, 7, 8]],
        wscript = [], tx = [], closed = False\<rparr>" and server = "lit ''h''" and cs = "[1, 9, 9, 9]"]
    by (simp add: sock_avail_def sock_idle_def sock_solid_def)
qed

end
