(* ===== verification/Tls_Write.thy ===== *)
theory Tls_Write
  imports Tls_Obfs
begin

text \<open>
  The writing direction of the TLS mode: what \<open>write_all\<close> through \<open>TlsObfs\<close> puts on the
  wire, that the wrapper waits only when the transport does and fails only when it is broken,
  and the round trip with a peer that decodes the records.
\<close>

section \<open>Draining and framing\<close>

definition tls_wire :: "('s \<Rightarrow> byte list) \<Rightarrow> 's tls_obfs \<Rightarrow> byte list" where
  "tls_wire sent st = sent (t_inner st) @ drop (t_write_buf_off st) (t_write_buf st)"

definition tls_write_ok :: "('s \<Rightarrow> bool) \<Rightarrow> 's tls_obfs \<Rightarrow> bool" where
  "tls_write_ok ok st \<longleftrightarrow> ok (t_inner st) \<and> t_write_buf_off st \<le> length (t_write_buf st)"

text \<open>What one accepted chunk is framed as.\<close>

definition tls_framed :: "tls_env \<Rightarrow> bool \<Rightarrow> rstr \<Rightarrow> byte list \<Rightarrow> byte list" where
  "tls_framed env first server chunk =
     (if first then build_client_hello env chunk server else tls_frame chunk)"

lemma tls_framed_nonempty [simp]: "tls_framed env first server chunk \<noteq> []"
  by (simp add: tls_framed_def build_client_hello_def tls_frame_def Let_def)

context async_write
begin

lemma tls_drain_contract:
  assumes "tls_drain S st = (r, st')" and "tls_write_ok ok st"
  shows "tls_write_ok ok st'" and "tls_wire sent st' = tls_wire sent st"
    and "t_pending_input st' = t_pending_input st" and "t_first_request st' = t_first_request st"
    and "t_server st' = t_server st" and "r = Ready (Inr ()) \<longleftrightarrow> t_write_buf st' = []"
proof -
  obtain p inner buf off where d:
      "drain S (t_inner st) (t_write_buf st) (t_write_buf_off st) = (p, inner, buf, off)"
    by (metis prod_cases4)
  then have st': "r = p" "st' = st\<lparr>t_inner := inner, t_write_buf := buf, t_write_buf_off := off\<rparr>"
    using assms(1) by (auto simp: tls_drain_def)
  have "ok (t_inner st)" "t_write_buf_off st \<le> length (t_write_buf st)"
    using assms(2) by (auto simp: tls_write_ok_def)
  from drain_conserves [OF d this] show
    "tls_write_ok ok st'" "tls_wire sent st' = tls_wire sent st"
    "t_pending_input st' = t_pending_input st" "t_first_request st' = t_first_request st"
    "t_server st' = t_server st" "r = Ready (Inr ()) \<longleftrightarrow> t_write_buf st' = []"
    by (auto simp: st' tls_write_ok_def tls_wire_def split: if_splits)
qed

lemma tls_write_drains:
  assumes "tls_poll_write env S st buf = (r, st')" and "tls_write_ok ok st"
    and "t_write_buf st \<noteq> []"
  shows "tls_write_ok ok st' \<and> tls_wire sent st' = tls_wire sent st \<and>
    t_first_request st' = t_first_request st \<and> t_server st' = t_server st \<and>
    (\<forall>n. r = Ready (Inr n) \<longrightarrow> n = t_pending_input st \<and> t_write_buf st' = []) \<and>
    (r = Pending \<longrightarrow> t_write_buf st' \<noteq> [] \<and> t_pending_input st' = t_pending_input st)"
proof -
  obtain p st1 where d: "tls_drain S st = (p, st1)" by fastforce
  note c = tls_drain_contract [OF d assms(2)]
  show ?thesis
  proof (cases p)
    case Pending
    then have "r = Pending" "st' = st1" using assms(1,3) d by (simp_all add: tls_poll_write_def)
    then show ?thesis using c Pending by simp
  next
    case (Ready x)
    show ?thesis
    proof (cases x)
      case (Inl e)
      then have "r = Ready (Inl e)" "st' = st1"
        using assms(1,3) d Ready by (simp_all add: tls_poll_write_def)
      then show ?thesis using c by simp
    next
      case (Inr u)
      then have e: "r = Ready (Inr (t_pending_input st1))" "st' = st1\<lparr>t_pending_input := 0\<rparr>"
        using assms(1,3) d Ready by (simp_all add: tls_poll_write_def)
      then have "tls_write_ok ok st' = tls_write_ok ok st1" "tls_wire sent st' = tls_wire sent st1"
        by (simp_all add: tls_write_ok_def tls_wire_def)
      then show ?thesis using e c Ready Inr by simp
    qed
  qed
qed

text \<open>A write that finds the buffer empty frames the next chunk of the input.\<close>

lemma tls_write_frames:
  assumes "tls_poll_write env S st buf = (r, st')" and "tls_write_ok ok st"
    and "t_write_buf st = []" and "buf \<noteq> []"
  shows "tls_write_ok ok st' \<and> \<not> t_first_request st' \<and> t_server st' = t_server st \<and>
    tls_wire sent st' =
      sent (t_inner st)
      @ tls_framed env (t_first_request st) (t_server st) (take TLS_CHUNK_SIZE buf) \<and>
    (\<forall>n. r = Ready (Inr n) \<longrightarrow> n = min (length buf) TLS_CHUNK_SIZE \<and> t_write_buf st' = []) \<and>
    (r = Pending \<longrightarrow> t_write_buf st' \<noteq> [] \<and>
       t_pending_input st' = min (length buf) TLS_CHUNK_SIZE)"
proof -
  let ?fr = "tls_framed env (t_first_request st) (t_server st) (take TLS_CHUNK_SIZE buf)"
  let ?st = "(if t_first_request st
      then st\<lparr>t_first_request := False, t_write_buf := ?fr\<rparr>
      else st\<lparr>t_write_buf := ?fr\<rparr>)
    \<lparr>t_write_buf_off := 0, t_pending_input := min (length buf) TLS_CHUNK_SIZE\<rparr>"
  have t: "take (min (length buf) TLS_CHUNK_SIZE) buf = take TLS_CHUNK_SIZE buf"
    by (simp add: min_def)
  have same: "tls_poll_write env S st buf = tls_poll_write env S ?st buf"
    using assms(3,4) tls_framed_nonempty [of env "t_first_request st" "t_server st" "take TLS_CHUNK_SIZE buf"]
    by (cases "t_first_request st")
      (simp_all add: tls_poll_write_def Let_def t tls_framed_def del: tls_framed_nonempty)
  have k: "tls_write_ok ok ?st" using assms(2) by (simp add: tls_write_ok_def)
  have "tls_wire sent ?st = sent (t_inner st) @ ?fr" "\<not> t_first_request ?st"
    "t_server ?st = t_server st" "t_write_buf ?st \<noteq> []"
    "t_pending_input ?st = min (length buf) TLS_CHUNK_SIZE"
    by (simp_all add: tls_wire_def)
  with tls_write_drains [OF assms(1) [unfolded same] k] show ?thesis by simp
qed

end

text \<open>The wrapper waits only when the transport does.\<close>

context async_write_live
begin

lemma tls_drain_stalls:
  assumes "tls_drain S st = (r, st')" and "ok (t_inner st)"
  shows "ok (t_inner st') \<and> stalls (t_inner st') \<le> stalls (t_inner st) \<and>
    (r = Pending \<longrightarrow> stalls (t_inner st') < stalls (t_inner st))"
proof -
  obtain p inner buf off where d:
      "drain S (t_inner st) (t_write_buf st) (t_write_buf_off st) = (p, inner, buf, off)"
    by (metis prod_cases4)
  with drain_stalls [OF d assms(2)] assms(1) show ?thesis by (auto simp: tls_drain_def)
qed

lemma tls_poll_write_stalls:
  assumes w: "tls_poll_write env S st buf = (r, st')" and k: "ok (t_inner st)"
  shows "ok (t_inner st') \<and> stalls (t_inner st') \<le> stalls (t_inner st) \<and>
    (r = Pending \<longrightarrow> stalls (t_inner st') < stalls (t_inner st))"
proof (cases "t_write_buf st \<noteq> [] \<or> buf = []")
  case True
  then show ?thesis
    using w k tls_drain_stalls [of st]
    by (auto simp: tls_poll_write_def split: if_splits poll.splits sum.splits prod.splits)
next
  case False
  define n where "n = min (length buf) TLS_CHUNK_SIZE"
  define st1 where "st1 = (if t_first_request st
      then st\<lparr>t_first_request := False,
              t_write_buf := build_client_hello env (take n buf) (t_server st)\<rparr>
      else st\<lparr>t_write_buf := tls_frame (take n buf)\<rparr>)\<lparr>t_write_buf_off := 0, t_pending_input := n\<rparr>"
  obtain p st2 where d: "tls_drain S st1 = (p, st2)" by fastforce
  have i: "t_inner st1 = t_inner st" by (simp add: st1_def)
  have q: "(case (p, st2) of
        (Ready (Inr _), st) \<Rightarrow> (Ready (Inr (t_pending_input st)), st\<lparr>t_pending_input := 0\<rparr>)
      | (Ready (Inl e), st) \<Rightarrow> (Ready (Inl e), st)
      | (Pending, st) \<Rightarrow> (Pending, st)) = (r, st')"
    using w False d [unfolded st1_def n_def] by (simp add: tls_poll_write_def Let_def)
  show ?thesis
    using tls_drain_stalls [OF d] k i q by (auto split: poll.splits sum.splits)
qed

lemma tls_write_live:
  "async_write_live (tls_obfs_io env S) (\<lambda>st. stalls (t_inner st)) (\<lambda>st. ok (t_inner st))"
proof unfold_locales
  fix st :: "'s tls_obfs" and buf st' r assume k: "ok (t_inner st)"
  show "poll_write (tls_obfs_io env S) st buf = (Pending, st') \<Longrightarrow>
      stalls (t_inner st') < stalls (t_inner st)"
    and "poll_write (tls_obfs_io env S) st buf = (Ready r, st') \<Longrightarrow>
      stalls (t_inner st') \<le> stalls (t_inner st)"
    using tls_poll_write_stalls [OF _ k, of env buf] by auto
  obtain q t where "tls_poll_write env S st buf = (q, t)" by fastforce
  with tls_poll_write_stalls [OF this k]
  show "ok (t_inner (snd (poll_write (tls_obfs_io env S) st buf)))" by simp
qed

end

text \<open>
  The wrapper fails only when the transport is broken: a nonempty buffer of framed bytes
  stands for input, so no call accepts nothing.
\<close>

definition tls_sound_ok :: "('s \<Rightarrow> bool) \<Rightarrow> 's tls_obfs \<Rightarrow> bool" where
  "tls_sound_ok ok st \<longleftrightarrow> ok (t_inner st) \<and> (t_write_buf st \<noteq> [] \<longrightarrow> 0 < t_pending_input st)"

context async_write_sound
begin

lemma tls_drain_sound:
  assumes "tls_drain S st = (r, st')" and "ok (t_inner st)"
  shows "ok (t_inner st') \<and> t_pending_input st' = t_pending_input st \<and>
    (t_write_buf st' = [] \<or> t_write_buf st' = t_write_buf st) \<and> (\<forall>e. r = Ready (Inl e) \<longrightarrow> broken)"
proof -
  obtain p inner buf off where d:
      "drain S (t_inner st) (t_write_buf st) (t_write_buf_off st) = (p, inner, buf, off)"
    by (metis prod_cases4)
  then have st': "r = p" "st' = st\<lparr>t_inner := inner, t_write_buf := buf, t_write_buf_off := off\<rparr>"
    using assms(1) by (auto simp: tls_drain_def)
  show ?thesis
    using drain_stalls [OF d assms(2)] drain_buf [OF d] drain_sound [OF _ assms(2)] d st' by auto
qed

lemma tls_drain_answer:
  assumes "(case tls_drain S st of
        (Ready (Inr _), st) \<Rightarrow> (Ready (Inr (t_pending_input st)), st\<lparr>t_pending_input := 0\<rparr>)
      | (Ready (Inl e), st) \<Rightarrow> (Ready (Inl e), st)
      | (Pending, st) \<Rightarrow> (Pending, st)) = (r, st')"
    and "ok (t_inner st)" and "0 < t_pending_input st"
  shows "tls_sound_ok ok st' \<and> (\<forall>e. r = Ready (Inl e) \<longrightarrow> broken) \<and> r \<noteq> Ready (Inr 0)"
proof -
  obtain p st1 where d: "tls_drain S st = (p, st1)" by fastforce
  obtain q inner buf off where
      b: "drain S (t_inner st) (t_write_buf st) (t_write_buf_off st) = (q, inner, buf, off)"
    by (metis prod_cases4)
  with d have e: "p = Ready (Inr ()) \<Longrightarrow> t_write_buf st1 = []"
    using drain_buf [OF b] by (auto simp: tls_drain_def)
  consider "p = Pending" | x where "p = Ready (Inl x)" | "p = Ready (Inr ())"
    by (metis poll.exhaust sum.exhaust old.unit.exhaust)
  then show ?thesis
    using assms d tls_drain_sound [OF d assms(2)] e by cases (auto simp: tls_sound_ok_def)
qed

lemma tls_write_sound:
  "async_write_sound (tls_obfs_io env S) (\<lambda>st. stalls (t_inner st)) (tls_sound_ok ok) broken"
proof -
  have main: "tls_sound_ok ok st' \<and> (\<forall>e. r = Ready (Inl e) \<longrightarrow> broken) \<and>
      (buf \<noteq> [] \<longrightarrow> r \<noteq> Ready (Inr 0))"
    if w: "tls_poll_write env S st buf = (r, st')" and k: "tls_sound_ok ok st" for st buf r st'
  proof -
    have i: "ok (t_inner st)" using k by (simp add: tls_sound_ok_def)
    consider "t_write_buf st \<noteq> []" | "t_write_buf st = []" "buf = []" | "t_write_buf st = []" "buf \<noteq> []"
      by blast
    then show ?thesis
    proof cases
      case 1
      then show ?thesis
        using tls_drain_answer [of st r st'] w k i by (simp add: tls_poll_write_def tls_sound_ok_def)
    next
      case 2
      then show ?thesis using w k by (auto simp: tls_poll_write_def)
    next
      case 3
      then have "0 < min (length buf) TLS_CHUNK_SIZE" by (simp add: TLS_CHUNK_SIZE_def)
      then show ?thesis
        using 3 w i tls_drain_answer [of "(if t_first_request st
            then st\<lparr>t_first_request := False,
                    t_write_buf := build_client_hello env (take (min (length buf) TLS_CHUNK_SIZE) buf) (t_server st)\<rparr>
            else st\<lparr>t_write_buf := tls_frame (take (min (length buf) TLS_CHUNK_SIZE) buf)\<rparr>)
          \<lparr>t_write_buf_off := 0, t_pending_input := min (length buf) TLS_CHUNK_SIZE\<rparr>" r st']
        by (cases "t_first_request st") (simp_all add: tls_poll_write_def Let_def)
    qed
  qed
  show ?thesis
  proof unfold_locales
    fix st :: "'s tls_obfs" and buf st' r e assume k: "tls_sound_ok ok st"
    then have i: "ok (t_inner st)" by (simp add: tls_sound_ok_def)
    show "poll_write (tls_obfs_io env S) st buf = (Pending, st') \<Longrightarrow>
        stalls (t_inner st') < stalls (t_inner st)"
      and "poll_write (tls_obfs_io env S) st buf = (Ready r, st') \<Longrightarrow>
        stalls (t_inner st') \<le> stalls (t_inner st)"
      using tls_poll_write_stalls [OF _ i, of env buf] by auto
    show "poll_write (tls_obfs_io env S) st buf = (Ready (Inl e), st') \<Longrightarrow> broken"
      and "buf \<noteq> [] \<Longrightarrow> poll_write (tls_obfs_io env S) st buf = (Ready (Inr 0), st') \<Longrightarrow> broken"
      using main [OF _ k, of buf] by fastforce+
    obtain q t where "tls_poll_write env S st buf = (q, t)" by fastforce
    with main [OF this k] show "tls_sound_ok ok (snd (poll_write (tls_obfs_io env S) st buf))" by simp
  qed
qed

end

section \<open>Whole buffers\<close>

text \<open>The wire image of a buffer: the hello around the first chunk, a record around each other.\<close>

function tls_stream :: "tls_env \<Rightarrow> bool \<Rightarrow> rstr \<Rightarrow> byte list \<Rightarrow> byte list" where
  "tls_stream env first server buf =
     (if buf = [] then []
      else tls_framed env first server (take TLS_CHUNK_SIZE buf)
           @ tls_stream env False server (drop TLS_CHUNK_SIZE buf))"
  by pat_completeness auto
termination
  by (relation "measure (\<lambda>(env, first, server, buf). length buf)") (auto simp: TLS_CHUNK_SIZE_def)

declare tls_stream.simps [simp del]

lemma tls_stream_Nil [simp]: "tls_stream env first server [] = []"
  by (simp add: tls_stream.simps)

lemma drop_min_length: "drop (min (length buf) k) buf = drop k buf"
  by (simp add: min_def)

context async_write
begin

lemma tls_write_all_aux:
  "write_all (tls_obfs_io env S) st buf k = (Ready (Inr ()), st') \<Longrightarrow> tls_write_ok ok st \<Longrightarrow>
   (if t_write_buf st = []
    then sent (t_inner st') = sent (t_inner st) @ tls_stream env (t_first_request st) (t_server st) buf
    else buf \<noteq> [] \<longrightarrow> \<not> t_first_request st \<longrightarrow> t_pending_input st = min (length buf) TLS_CHUNK_SIZE \<longrightarrow>
         sent (t_inner st') =
           tls_wire sent st @ tls_stream env False (t_server st) (drop TLS_CHUNK_SIZE buf))"
proof (induction k arbitrary: st buf)
  case 0
  then show ?case by (simp split: if_splits)
next
  case (Suc k)
  show ?case
  proof (cases "buf = []")
    case True
    then show ?thesis using Suc.prems(1) by simp
  next
    case False
    obtain r st1 where w: "tls_poll_write env S st buf = (r, st1)" by fastforce
    have wa: "(case (r, st1) of
        (Pending, s') \<Rightarrow> write_all (tls_obfs_io env S) s' buf k
      | (Ready (Inl e), s') \<Rightarrow> (Ready (Inl e), s')
      | (Ready (Inr n), s') \<Rightarrow>
          if n = 0 then (Ready (Inl (IoError WriteZero [])), s')
          else write_all (tls_obfs_io env S) s' (drop n buf) k) = (Ready (Inr ()), st')"
      using Suc.prems(1) False w by simp
    define n0 where "n0 = min (length buf) TLS_CHUNK_SIZE"
    have goal: "sent (t_inner st') = tls_wire sent st1 @ tls_stream env False (t_server st) (drop TLS_CHUNK_SIZE buf)"
      if c: "tls_write_ok ok st1" "\<not> t_first_request st1" "t_server st1 = t_server st"
        "\<forall>n. r = Ready (Inr n) \<longrightarrow> n = n0 \<and> t_write_buf st1 = []"
        "r = Pending \<longrightarrow> t_write_buf st1 \<noteq> [] \<and> t_pending_input st1 = n0"
    proof (cases r)
      case Pending
      then show ?thesis using Suc.IH [of st1 buf] wa c False by (simp add: n0_def)
    next
      case (Ready x)
      then obtain n where x: "x = Inr n" "n \<noteq> 0"
        using wa by (cases x) (auto split: if_splits)
      then have n: "n = n0" "t_write_buf st1 = []" using c(4) Ready by auto
      have "sent (t_inner st') = sent (t_inner st1) @ tls_stream env False (t_server st) (drop n buf)"
        using Suc.IH [of st1 "drop n buf"] wa c(1-3) n(2) x Ready by simp
      then show ?thesis
        using n by (simp add: n0_def drop_min_length tls_wire_def)
    qed
    show ?thesis
    proof (cases "t_write_buf st = []")
      case True
      note d = tls_write_frames [OF w Suc.prems(2) True False, folded n0_def]
      with goal have "sent (t_inner st') =
          tls_wire sent st1 @ tls_stream env False (t_server st) (drop TLS_CHUNK_SIZE buf)" by blast
      then show ?thesis
        using d True False by (simp add: tls_stream.simps [of env "t_first_request st" "t_server st" buf])
    next
      case ne: False
      note d = tls_write_drains [OF w Suc.prems(2) ne]
      show ?thesis
      proof (cases "\<not> t_first_request st \<and> t_pending_input st = n0")
        case True
        with d goal have "sent (t_inner st') =
            tls_wire sent st1 @ tls_stream env False (t_server st) (drop TLS_CHUNK_SIZE buf)" by simp
        then show ?thesis using d ne by simp
      qed (use ne n0_def in auto)
    qed
  qed
qed

text \<open>
  Writing a whole buffer through the wrapper, whatever short writes and waits the socket
  makes, puts exactly its wire image on the socket.
\<close>

lemma tls_write_all:
  assumes "write_all (tls_obfs_io env S) st buf k = (Ready (Inr ()), st')"
    and "tls_write_ok ok st" and "t_write_buf st = []"
  shows "sent (t_inner st') =
    sent (t_inner st) @ tls_stream env (t_first_request st) (t_server st) buf"
  using tls_write_all_aux [OF assms(1,2)] assms(3) by simp

end

section \<open>Round trip of the records\<close>

lemma tls_decode_frame:
  assumes "length chunk < 65536"
  shows "tls_decode (Discard TLS_RECORD_HEADER_DISCARD) g (tls_frame chunk @ w) =
    chunk @ tls_decode (Discard TLS_RECORD_HEADER_DISCARD) [] w"
proof -
  let ?l = "to_be16 (as_u16 (length chunk))"
  have "tls_decode (Discard TLS_RECORD_HEADER_DISCARD) g (tls_frame chunk @ w) =
      tls_decode Length [] (?l @ chunk @ w)"
    by (simp add: tls_decode.simps(1) TLS_RECORD_HEADER_DISCARD_def tls_frame_def)
  also have "\<dots> = tls_decode (Payload (length chunk)) [] (chunk @ w)"
    using assms from_to_be16_nth [of "as_u16 (length chunk)"]
    by (simp add: tls_decode.simps(2) nth_append unat_as_u16)
  also have "\<dots> = chunk @ tls_decode (Discard TLS_RECORD_HEADER_DISCARD) [] w"
    using tls_decode_payload [of chunk "length chunk" "[]" w "[]"]
    by (simp add: tls_decode_payload_0 [of _ w "[]"])
  finally show ?thesis .
qed

text \<open>The records of a connection after its hello decode to what was written.\<close>

lemma tls_decode_stream:
  "tls_decode (Discard TLS_RECORD_HEADER_DISCARD) g (tls_stream env False server buf) = buf"
proof (induction buf arbitrary: g rule: length_induct)
  case (1 buf)
  show ?case
  proof (cases "buf = []")
    case True
    then show ?thesis by (simp add: tls_decode.simps TLS_RECORD_HEADER_DISCARD_def)
  next
    case False
    then have "length (drop TLS_CHUNK_SIZE buf) < length buf"
      by (simp add: TLS_CHUNK_SIZE_def)
    then have "tls_decode (Discard TLS_RECORD_HEADER_DISCARD) []
        (tls_stream env False server (drop TLS_CHUNK_SIZE buf)) = drop TLS_CHUNK_SIZE buf"
      using 1 by blast
    moreover have "length (take TLS_CHUNK_SIZE buf) < 65536"
      by (simp add: TLS_CHUNK_SIZE_def)
    ultimately show ?thesis
      using False
      by (simp add: tls_stream.simps [of env False server buf] tls_framed_def tls_decode_frame)
  qed
qed

end
