(* ===== verification/Tls_Hello.thy ===== *)
theory Tls_Hello
  imports Tls_Write
begin

text \<open>
  The fake ClientHello of the TLS mode, read back by a server: a parser of the record, the
  handshake and the extensions (RFC 5246, RFC 6066) as the specification, every length
  field of \<open>build_client_hello\<close> checked by it, and the round trip of the first chunk, which
  travels as the session ticket.
\<close>

section \<open>A server's parser\<close>

function parse_exts :: "byte list \<Rightarrow> (u16 \<times> byte list) list option" where
  "parse_exts [] = Some []"
| "parse_exts (a # b # c # d # r) =
     (let n = unat (from_be16 c d) in
      if length r < n then None
      else map_option (\<lambda>es. (from_be16 a b, take n r) # es) (parse_exts (drop n r)))"
| "parse_exts [a] = None"
| "parse_exts [a, b] = None"
| "parse_exts [a, b, c] = None"
  by pat_completeness auto
termination
  by (relation "measure length") auto

declare parse_exts.simps(2) [simp del]

text \<open>A field with a one-byte or two-byte length, and the rest.\<close>

fun field8 :: "byte list \<Rightarrow> (byte list \<times> byte list) option" where
  "field8 (n # r) = (if length r < unat n then None else Some (take (unat n) r, drop (unat n) r))"
| "field8 [] = None"

fun field16 :: "byte list \<Rightarrow> (byte list \<times> byte list) option" where
  "field16 (a # b # r) =
     (let n = unat (from_be16 a b) in if length r < n then None else Some (take n r, drop n r))"
| "field16 _ = None"

text \<open>The body of a ClientHello: version, random, session, ciphers, compression, extensions.\<close>

definition parse_body :: "byte list \<Rightarrow> (u16 \<times> byte list) list option" where
  "parse_body b =
     (if take 2 b \<noteq> [3, 3] then None else do {
        (sid, r1) \<leftarrow> field8 (drop 34 b);
        (ciphers, r2) \<leftarrow> field16 r1;
        (compression, r3) \<leftarrow> field8 r2;
        (exts, r4) \<leftarrow> field16 r3;
        if r4 \<noteq> [] then None else parse_exts exts
      })"

text \<open>The first record of a connection, its extensions and what follows it.\<close>

definition parse_hello :: "byte list \<Rightarrow> ((u16 \<times> byte list) list \<times> byte list) option" where
  "parse_hello w =
     (if take 3 w \<noteq> [0x16, 3, 1] then None else do {
        (rec, rest) \<leftarrow> field16 (drop 3 w);
        if take 2 rec \<noteq> [1, 0] then None else do {
          (body, more) \<leftarrow> field16 (drop 2 rec);
          if more \<noteq> [] then None else do {
            exts \<leftarrow> parse_body body;
            Some (exts, rest)
          }
        }
      })"

section \<open>The lengths\<close>

lemma as_u16_add: "as_u16 a + as_u16 b = as_u16 (a + b)"
  by (simp add: as_u16_def)

lemma numeral_as_u16: "numeral n = as_u16 (numeral n)"
  by (simp add: as_u16_def)

lemma field16_append:
  assumes "length x < 65536" and "l = length x"
  shows "field16 (to_be16 (as_u16 l) @ x @ r) = Some (x, r)"
  using assms from_to_be16_nth [of "as_u16 l"]
  by (simp add: to_be16_def unat_as_u16)

lemma parse_exts_append:
  assumes "length x < 65536" and "l = length x"
  shows "parse_exts (to_be16 t @ to_be16 (as_u16 l) @ x @ r) =
    map_option (\<lambda>es. (t, x) # es) (parse_exts r)"
  using assms from_to_be16_nth [of "as_u16 l"] from_to_be16_nth [of t]
  by (simp add: to_be16_def parse_exts.simps(2) unat_as_u16)

text \<open>The parts of the hello from the inside out.\<close>

definition sni_ext :: "rstr \<Rightarrow> byte list" where
  "sni_ext server = to_be16 (as_u16 (length server + 3)) @ [0] @ to_be16 (as_u16 (length server)) @ server"

definition hello_exts :: "byte list \<Rightarrow> rstr \<Rightarrow> byte list" where
  "hello_exts data server =
     to_be16 0x23 @ to_be16 (as_u16 (length data)) @ data
     @ to_be16 0 @ to_be16 (as_u16 (length (sni_ext server))) @ sni_ext server
     @ tail_extensions"

definition hello_body :: "tls_env \<Rightarrow> byte list \<Rightarrow> rstr \<Rightarrow> byte list" where
  "hello_body env data server =
     [3, 3] @ to_be32 (case unix_secs env of None \<Rightarrow> 0 | Some s \<Rightarrow> as_u32 s) @ random28 env
     @ [32] @ session_id env
     @ to_be16 (as_u16 (length cipher_suites)) @ cipher_suites
     @ [1, 0]
     @ to_be16 (as_u16 (length (hello_exts data server))) @ hello_exts data server"

definition env_ok :: "tls_env \<Rightarrow> bool" where
  "env_ok env \<longleftrightarrow> length (random28 env) = 28 \<and> length (session_id env) = 32"

lemma length_tail_extensions [simp]: "length tail_extensions = 66"
  by (simp add: tail_extensions_def)

lemma length_cipher_suites [simp]: "length cipher_suites = 56"
  by (simp add: cipher_suites_def)

lemma length_sni_ext [simp]: "length (sni_ext server) = length server + 5"
  by (simp add: sni_ext_def)

lemma length_hello_exts [simp]:
  "length (hello_exts data server) = 79 + length data + length server"
  by (simp add: hello_exts_def)

lemma length_hello_body:
  "env_ok env \<Longrightarrow> length (hello_body env data server) = 208 + length data + length server"
  by (simp add: hello_body_def env_ok_def)

lemma be16_consts:
  "to_be16 0x23 = [0x00, 0x23]" "to_be16 0 = [0x00, 0x00]" "to_be16 (as_u16 56) = [0x00, 0x38]"
  by (simp_all add: to_be16_def as_u8_def as_u16_def)

text \<open>The code's sums are the lengths of these parts.\<close>

lemma hello_sums:
  "(212 :: u16) + as_u16 d + as_u16 s = as_u16 (212 + d + s)"
  "(208 :: u16) + as_u16 d + as_u16 s = as_u16 (208 + d + s)"
  "(79 :: u16) + as_u16 d + as_u16 s = as_u16 (79 + d + s)"
  "as_u16 s + 5 = as_u16 (s + 5)" "as_u16 s + 3 = as_u16 (s + 3)"
  by (simp_all add: as_u16_def)

lemma build_client_hello_layout:
  assumes "env_ok env"
  shows "build_client_hello env data server =
    [0x16, 3, 1] @ to_be16 (as_u16 (212 + length data + length server))
    @ ([1, 0] @ to_be16 (as_u16 (length (hello_body env data server))) @ hello_body env data server)"
proof -
  have b: "hello_body env data server =
      [3, 3] @ to_be32 (case unix_secs env of None \<Rightarrow> 0 | Some s \<Rightarrow> as_u32 s) @ random28 env
      @ [32] @ session_id env @ [0x00, 0x38] @ cipher_suites @ [1, 0]
      @ to_be16 (as_u16 (79 + length data + length server))
      @ [0x00, 0x23] @ to_be16 (as_u16 (length data)) @ data
      @ [0x00, 0x00] @ to_be16 (as_u16 (length server + 5))
      @ to_be16 (as_u16 (length server + 3)) @ [0] @ to_be16 (as_u16 (length server)) @ server
      @ tail_extensions"
    unfolding hello_body_def length_hello_exts length_cipher_suites
    unfolding hello_exts_def length_sni_ext be16_consts
    unfolding sni_ext_def by simp
  show ?thesis
    unfolding build_client_hello_def Let_def hello_sums length_hello_body [OF assms]
    unfolding b by simp
qed

lemma build_client_hello_length:
  "env_ok env \<Longrightarrow> length (build_client_hello env data server) = 217 + length data + length server"
  by (simp add: build_client_hello_layout length_hello_body)

section \<open>The round trip\<close>

definition hello_ext_list :: "byte list \<Rightarrow> rstr \<Rightarrow> (u16 \<times> byte list) list" where
  "hello_ext_list data server =
     [(0x23, data), (0, sni_ext server),
      (0x0b, [0x03, 0x01, 0x00, 0x02]),
      (0x0a, [0x00, 0x08, 0x00, 0x1d, 0x00, 0x17, 0x00, 0x19, 0x00, 0x18]),
      (0x0d, [0x00, 0x1e, 0x06, 0x01, 0x06, 0x02, 0x06, 0x03, 0x05, 0x01, 0x05,
        0x02, 0x05, 0x03, 0x04, 0x01, 0x04, 0x02, 0x04, 0x03, 0x03, 0x01, 0x03, 0x02, 0x03, 0x03,
        0x02, 0x01, 0x02, 0x02, 0x02, 0x03]),
      (0x16, []), (0x17, [])]"

lemma parse_tail_extensions:
  "parse_exts tail_extensions = Some (drop 2 (hello_ext_list data server))"
  by (simp add: tail_extensions_def hello_ext_list_def parse_exts.simps(2) from_be16_def Let_def as_u16_def)

lemma parse_hello_exts:
  "length data < 65536 \<Longrightarrow> length server + 5 < 65536 \<Longrightarrow>
   parse_exts (hello_exts data server) = Some (hello_ext_list data server)"
  by (simp add: hello_exts_def parse_exts_append parse_tail_extensions [of data server])
    (simp add: hello_ext_list_def)

lemma parse_hello_body:
  assumes "env_ok env" and "79 + length data + length server < 65536"
  shows "parse_body (hello_body env data server) = Some (hello_ext_list data server)"
proof -
  obtain t0 t1 t2 t3 where t: "to_be32 (case unix_secs env of None \<Rightarrow> 0 | Some s \<Rightarrow> as_u32 s) = [t0, t1, t2, t3]"
    by (simp add: to_be32_def)
  let ?E = "to_be16 (as_u16 (length (hello_exts data server))) @ hello_exts data server"
  let ?C = "to_be16 (as_u16 (length cipher_suites)) @ cipher_suites @ [1, 0] @ ?E"
  have d34: "drop 34 (hello_body env data server) = 32 # session_id env @ ?C"
    using assms(1) by (simp add: hello_body_def t env_ok_def)
  have f1: "field8 (32 # session_id env @ ?C) = Some (session_id env, ?C)"
    using assms(1) by (simp add: env_ok_def)
  have f2: "field16 ?C = Some (cipher_suites, [1, 0] @ ?E)"
    by (rule field16_append) simp_all
  have f3: "field8 ([1, 0] @ ?E) = Some ([0], ?E)" by simp
  have f4: "field16 ?E = Some (hello_exts data server, [])"
    using field16_append [of "hello_exts data server" _ "[]"] assms(2) by simp
  have v: "take 2 (hello_body env data server) = [3, 3]" by (simp add: hello_body_def)
  have p: "parse_exts (hello_exts data server) = Some (hello_ext_list data server)"
    using assms(2) by (intro parse_hello_exts) simp_all
  show ?thesis
    unfolding parse_body_def d34 f1
    by (simp only: v f2 f3 f4 p Option.bind.bind_lunit case_prod_conv if_True if_False simp_thms)
qed

lemma parse_build_client_hello:
  assumes "env_ok env" and "212 + length data + length server < 65536"
  shows "parse_hello (build_client_hello env data server @ rest) =
    Some (hello_ext_list data server, rest)"
proof -
  let ?B = "hello_body env data server"
  let ?R = "[1, 0] @ to_be16 (as_u16 (length ?B)) @ ?B"
  have B: "length ?B = 208 + length data + length server" by (rule length_hello_body [OF assms(1)])
  have w: "build_client_hello env data server @ rest =
      [0x16, 3, 1] @ to_be16 (as_u16 (212 + length data + length server)) @ ?R @ rest"
    by (simp add: build_client_hello_layout [OF assms(1)])
  have f1: "field16 (to_be16 (as_u16 (212 + length data + length server)) @ ?R @ rest) = Some (?R, rest)"
    by (rule field16_append) (use B assms(2) in simp_all)
  have f2: "field16 (to_be16 (as_u16 (length ?B)) @ ?B) = Some (?B, [])"
    using field16_append [of ?B _ "[]"] B assms(2) by simp
  have p: "parse_body ?B = Some (hello_ext_list data server)"
    using assms by (intro parse_hello_body) simp_all
  have t: "take 3 ([0x16, 3, 1] @ y) = [0x16, 3, 1]" "drop 3 ([0x16, 3, 1] @ y) = y"
    "take 2 ([1, 0] @ y) = [1, 0]" "drop 2 ([1, 0] @ y) = y" for y :: "byte list"
    by simp_all
  show ?thesis
    unfolding w parse_hello_def t f1
    by (simp only: t f2 p Option.bind.bind_lunit case_prod_conv if_True if_False simp_thms)
qed

text \<open>
  The name of the SNI extension (RFC 6066): a list that fills the extension, with one entry,
  of type \<open>host_name\<close>, whose name fills the list.
\<close>

definition parse_sni :: "byte list \<Rightarrow> rstr option" where
  "parse_sni ext = do {
     (list, more) \<leftarrow> field16 ext;
     if more \<noteq> [] then None
     else (case list of
         [] \<Rightarrow> None
       | typ # entry \<Rightarrow>
           if typ \<noteq> 0 then None
           else do {
             (name, others) \<leftarrow> field16 entry;
             if others \<noteq> [] then None else Some name
           })
   }"

lemma parse_sni_ext:
  assumes "length server + 3 < 65536"
  shows "parse_sni (sni_ext server) = Some server"
proof -
  let ?list = "[0] @ to_be16 (as_u16 (length server)) @ server"
  have "field16 (sni_ext server) = Some (?list, [])"
    using field16_append [of ?list "length server + 3" "[]"] assms by (simp add: sni_ext_def)
  moreover have "field16 (to_be16 (as_u16 (length server)) @ server) = Some (server, [])"
    using field16_append [of server "length server" "[]"] assms by simp
  ultimately show ?thesis by (simp add: parse_sni_def)
qed

text \<open>
  What a server recovers of a connection: the ticket of the hello and the payload of the
  records after it, and the name it is asked for.
\<close>

definition server_decode :: "byte list \<Rightarrow> (byte list \<times> rstr option) option" where
  "server_decode w =
     (case parse_hello w of
        None \<Rightarrow> None
      | Some (exts, rest) \<Rightarrow>
          (case map_of exts 0x23 of
             None \<Rightarrow> None
           | Some ticket \<Rightarrow>
               Some (ticket @ tls_decode (Discard TLS_RECORD_HEADER_DISCARD) [] rest,
                     Option.bind (map_of exts 0) parse_sni)))"

lemma server_decode_stream:
  assumes "env_ok env" and "length server < 48000" and "buf \<noteq> []"
  shows "server_decode (tls_stream env True server buf) = Some (buf, Some server)"
proof -
  let ?chunk = "take TLS_CHUNK_SIZE buf"
  have "212 + length ?chunk + length server < 65536"
    using assms(2) by (simp add: TLS_CHUNK_SIZE_def)
  note p = parse_build_client_hello [OF assms(1) this]
  have "tls_stream env True server buf =
      build_client_hello env ?chunk server @ tls_stream env False server (drop TLS_CHUNK_SIZE buf)"
    using assms(3) by (simp add: tls_stream.simps [of env True] tls_framed_def)
  then show ?thesis
    using assms(2) by (simp add: server_decode_def p hello_ext_list_def tls_decode_stream parse_sni_ext)
qed

section \<open>Properties\<close>

text \<open>C9: Writing a whole buffer through a new \<open>TlsObfs\<close>, over any transport, ends after boundedly many
  polls, and it succeeds unless the transport is broken: one that returns an error or takes
  no byte of a buffer.  After success the wire has the ClientHello around the first chunk and
  one record around each further chunk of at most 16 KiB, once each and in order, however the
  transport splits and delays the writes.\<close>

theorem tls_write_frames_stream:
  assumes "async_write S stalls ok sent" and "async_write_sound S stalls ok broken"
    and "ok s" and "stalls s + length buf \<le> k"
  shows "\<exists>r st'. write_all (tls_obfs_io env S) (tls_obfs_new s server) buf k = (Ready r, st') \<and>
    (r = Inr () \<or> broken) \<and>
    (r = Inr () \<longrightarrow> sent (t_inner st') = sent s @ tls_stream env True server buf)"
proof -
  have new: "tls_sound_ok ok (tls_obfs_new s server)" "tls_write_ok ok (tls_obfs_new s server)"
    "t_inner (tls_obfs_new s server) = s" "t_write_buf (tls_obfs_new s server) = []"
    "t_first_request (tls_obfs_new s server)" "t_server (tls_obfs_new s server) = server"
    using assms(3) by (simp_all add: tls_sound_ok_def tls_write_ok_def tls_obfs_new_def)
  note snd = async_write_sound.tls_write_sound [OF assms(2), of env]
  obtain r st' where w: "write_all (tls_obfs_io env S) (tls_obfs_new s server) buf k = (Ready r, st')"
    using async_write_live.write_all_returns [OF async_write_sound.axioms(1) [OF snd] new(1), of buf k]
      assms(4) new(3) by auto
  with async_write_sound.write_all_sound [OF snd new(1) w]
    async_write.tls_write_all [OF assms(1) _ new(2,4), of env buf k st'] new(3,5,6)
  show ?thesis by auto
qed

theorem tls_write_frames_stream_witness:
  "\<exists>st'. write_all (tls_obfs_io sample_tls_env sock_io)
       (tls_obfs_new \<lparr>rx = [], wscript = [WPending, Accept 5, WPending], tx = [], closed = False\<rparr> (lit ''h''))
       (replicate 20000 7) 20002 = (Ready (Inr ()), st') \<and>
     tx (t_inner st') = tls_stream sample_tls_env True (lit ''h'') (replicate 20000 7)"
  using tls_write_frames_stream [OF sock_steady.async_write_axioms sock_sound.async_write_sound_axioms,
      where s = "\<lparr>rx = [], wscript = [WPending, Accept 5, WPending], tx = [], closed = False\<rparr>"
        and k = 20002 and env = sample_tls_env and server = "lit ''h''" and buf = "replicate 20000 7"]
  by (auto simp: sock_stalls_def sock_steady_def)



end
