(* ===== verification/Tls_Tests.thy ===== *)
theory Tls_Tests
  imports Obfs_Tests Tls_Hello
begin

text \<open>
  The unit tests of the TLS mode (module \<open>tests\<close> of \<open>mihomo-proxy-patched/src/simple_obfs.rs\<close>), with
  the vocabulary of \<open>Obfs_Tests\<close>.  The random bytes of the hello have the lengths the code asks
  \<open>rand\<close> for (\<open>env_ok\<close>) and are arbitrary.
\<close>

section \<open>The tests\<close>

definition tls_client_hello_layout_matches_reference :: "tls_env \<Rightarrow> bool panics" where
  "tls_client_hello_layout_matches_reference env =
     (let data = lit ''the secret payload'';
          server = lit ''example.com'';
          hello = build_client_hello env data server
      in do {
        h0 \<leftarrow> index_at hello 0;
        version \<leftarrow> slice_at hello 1 3;
        record_len \<leftarrow> be16_at hello 3;
        h5 \<leftarrow> index_at hello 5;
        h6 \<leftarrow> index_at hello 6;
        handshake_len \<leftarrow> be16_at hello 7;
        client_version \<leftarrow> slice_at hello 9 11;
        h43 \<leftarrow> index_at hello 43;
        Some (h0 = 0x16 \<and> version = [0x03, 0x01] \<and>
              record_len = length hello - 5 \<and>
              record_len = 212 + length data + length server \<and>
              h5 = 0x01 \<and> h6 = 0x00 \<and>
              handshake_len = 208 + length data + length server \<and>
              client_version = [0x03, 0x03] \<and> h43 = 32 \<and>
              contains hello data \<and> contains hello server)
      })"

definition tls_obfs_write_first_then_chunks :: "tls_env \<Rightarrow> bool panics" where
  "tls_obfs_write_first_then_chunks env =
     (let io = tls_obfs_io env sock_io;
          obfs = tls_obfs_new (duplex_end [] False) (lit ''example.com'')
      in do {
        obfs \<leftarrow> unwrapped (write_all io obfs (lit ''FIRST'') 5);
        obfs \<leftarrow> unwrapped (write_all io obfs (lit ''SECOND'') 6);
        obfs \<leftarrow> unwrapped (poll_flush io obfs);
        received \<leftarrow> fill 4096 16 (duplex_end (tx (t_inner obfs)) False) [] 16;
        r0 \<leftarrow> index_at received 0;
        version \<leftarrow> slice_at received 1 3;
        rec_len \<leftarrow> be16_at received 3;
        let hello_end = 5 + rec_len;
        hello \<leftarrow> slice_at received 0 hello_end;
        after \<leftarrow> slice_at received hello_end (length received);
        a0 \<leftarrow> index_at after 0;
        app_version \<leftarrow> slice_at after 1 3;
        len \<leftarrow> be16_at after 3;
        chunk \<leftarrow> slice_at after 5 (5 + len);
        Some (r0 = 0x16 \<and> version = [0x03, 0x01] \<and> contains hello (lit ''FIRST'') \<and>
              a0 = 0x17 \<and> app_version = [0x03, 0x03] \<and> len = length (lit ''SECOND'') \<and>
              chunk = lit ''SECOND'')
      })"

definition server_msg :: "byte list" where
  "server_msg =
     replicate TLS_FIRST_RESPONSE_DISCARD 0xAA
     @ to_be16 (as_u16 (length (lit ''hello-from-server''))) @ lit ''hello-from-server''
     @ [0x17, 0x03, 0x03]
     @ to_be16 (as_u16 (length (lit ''second-frame''))) @ lit ''second-frame''"

definition tls_obfs_read_strips_framing :: "tls_env \<Rightarrow> nat list \<Rightarrow> bool panics" where
  "tls_obfs_read_strips_framing env cs =
     (let obfs = tls_obfs_new (duplex_end server_msg True) (lit ''example.com'') in
      (case read_to_end (tls_obfs_io env sock_io) obfs cs of
         Some (got, Ready (Inr _), _) \<Rightarrow> Some (got = lit ''hello-from-server'' @ lit ''second-frame'')
       | _ \<Rightarrow> None))"

definition tls_obfs_round_trip_through_two_wrappers :: "tls_env \<Rightarrow> nat list \<Rightarrow> bool panics" where
  "tls_obfs_round_trip_through_two_wrappers env cs =
     (let io = tls_obfs_io env sock_io;
          a_obfs = tls_obfs_new (duplex_end [] False) (lit ''example.com'')
      in do {
        a_obfs \<leftarrow> unwrapped (write_all io a_obfs (lit ''first-msg'') 9);
        a_obfs \<leftarrow> unwrapped (write_all io a_obfs (lit ''second-msg'') 10);
        a_obfs \<leftarrow> unwrapped (poll_shutdown io a_obfs);
        wire \<leftarrow> (case read_to_end sock_io (duplex_end (tx (t_inner a_obfs)) True) cs of
            Some (got, Ready (Inr _), _) \<Rightarrow> Some got | _ \<Rightarrow> None);
        w0 \<leftarrow> index_at wire 0;
        rec_len \<leftarrow> be16_at wire 3;
        handshake \<leftarrow> slice_at wire 5 (5 + rec_len);
        app \<leftarrow> slice_at wire (5 + rec_len) (length wire);
        a0 \<leftarrow> index_at app 0;
        len \<leftarrow> be16_at app 3;
        chunk \<leftarrow> slice_at app 5 (5 + len);
        Some (w0 = 0x16 \<and> contains handshake (lit ''first-msg'') \<and> a0 = 0x17 \<and>
              chunk = lit ''second-msg'')
      })"

section \<open>Reading the wire\<close>

lemma be16_at_append: "n = length pre \<Longrightarrow> be16_at (pre @ to_be16 w @ post) n = Some (unat w)"
proof -
  assume "n = length pre"
  moreover
  have "from_be16 (to_be16 w ! 0) (to_be16 w ! 1) = w" by (simp add: from_to_be16_nth)
  ultimately show ?thesis by (simp add: be16_at_def index_at_def nth_append)
qed

lemma tls_write_at_once:
  assumes "wscript (t_inner st) = []" and "t_write_buf st = []" and "buf \<noteq> []"
    and "length buf \<le> TLS_CHUNK_SIZE"
  shows "\<exists>st'. write_all (tls_obfs_io env sock_io) st buf (Suc k) = (Ready (Inr ()), st') \<and>
    wscript (t_inner st') = [] \<and> t_write_buf st' = [] \<and> \<not> t_first_request st' \<and>
    t_server st' = t_server st \<and>
    tx (t_inner st') = tx (t_inner st) @ tls_framed env (t_first_request st) (t_server st) buf"
proof -
  have fin: "write_all S s [] k = (Ready (Inr ()), s)" for S :: "sock tls_obfs async_io" and s
    by (cases k) simp_all
  have ne: "build_client_hello env c v \<noteq> []" "tls_frame c \<noteq> []" for c v
    using tls_framed_nonempty [of env True v c] tls_framed_nonempty [of env False v c]
    by (simp_all add: tls_framed_def)
  show ?thesis
    using assms
    by (cases "t_first_request st")
      (simp_all add: tls_poll_write_def tls_drain_def drain_at_once fin Let_def tls_framed_def ne)
qed

text \<open>The wire of a new wrapper after two short messages.\<close>

definition two_records :: "tls_env \<Rightarrow> byte list \<Rightarrow> byte list \<Rightarrow> byte list" where
  "two_records env a b = build_client_hello env a (lit ''example.com'') @ tls_frame b"

lemma two_writes:
  assumes "0 < j" and "0 < k" and "a \<noteq> []" and "b \<noteq> []" and "length a \<le> 100" and "length b \<le> 100"
  obtains st1 st2 where
    "write_all (tls_obfs_io env sock_io) (tls_obfs_new (duplex_end [] False) (lit ''example.com'')) a j
       = (Ready (Inr ()), st1)"
    "write_all (tls_obfs_io env sock_io) st1 b k = (Ready (Inr ()), st2)"
    "t_write_buf st2 = []" "tx (t_inner st2) = two_records env a b"
proof -
  obtain j' k' where jk: "j = Suc j'" "k = Suc k'" using assms(1,2) by (metis gr0_implies_Suc)
  let ?new = "tls_obfs_new (duplex_end [] False) (lit ''example.com'')"
  have new: "wscript (t_inner ?new) = []" "t_write_buf ?new = []" "t_first_request ?new"
    "tx (t_inner ?new) = []" "t_server ?new = lit ''example.com''"
    by (simp_all add: tls_obfs_new_def duplex_end_def)
  have len: "length a \<le> TLS_CHUNK_SIZE" "length b \<le> TLS_CHUNK_SIZE"
    using assms by (simp_all add: TLS_CHUNK_SIZE_def)
  from tls_write_at_once [OF new(1,2) assms(3) len(1), of env j'] new(3-5) obtain st1 where
    st1: "write_all (tls_obfs_io env sock_io) ?new a j = (Ready (Inr ()), st1)"
      "wscript (t_inner st1) = []" "t_write_buf st1 = []" "\<not> t_first_request st1"
      "tx (t_inner st1) = build_client_hello env a (lit ''example.com'')"
    by (auto simp: tls_framed_def jk)
  from tls_write_at_once [OF st1(2,3) assms(4) len(2), of env k'] st1(4,5) obtain st2 where
    st2: "write_all (tls_obfs_io env sock_io) st1 b k = (Ready (Inr ()), st2)" "t_write_buf st2 = []"
      "tx (t_inner st2) = two_records env a b"
    by (auto simp: tls_framed_def jk two_records_def)
  from that [OF st1(1) st2] show ?thesis .
qed

text \<open>The parts of the hello the tests look at.\<close>

lemma hello_shape:
  assumes "env_ok env"
  obtains mid x y z where
    "build_client_hello env data server =
       [0x16, 3, 1] @ to_be16 (as_u16 (212 + length data + length server))
       @ [1, 0] @ to_be16 (as_u16 (208 + length data + length server)) @ [3, 3] @ mid @ [32]
       @ x @ data @ y @ server @ z"
    and "length mid = 32"
proof (rule that)
  let ?mid = "to_be32 (case unix_secs env of None \<Rightarrow> 0 | Some s \<Rightarrow> as_u32 s) @ random28 env"
  show "build_client_hello env data server =
       [0x16, 3, 1] @ to_be16 (as_u16 (212 + length data + length server))
       @ [1, 0] @ to_be16 (as_u16 (208 + length data + length server)) @ [3, 3] @ ?mid @ [32]
       @ (session_id env @ [0x00, 0x38] @ cipher_suites @ [0x01, 0x00]
          @ to_be16 (as_u16 (79 + length data + length server))
          @ [0x00, 0x23] @ to_be16 (as_u16 (length data)))
       @ data
       @ ([0x00, 0x00] @ to_be16 (as_u16 (length server + 5)) @ to_be16 (as_u16 (length server + 3))
          @ [0x00] @ to_be16 (as_u16 (length server)))
       @ server @ tail_extensions"
    by (simp add: build_client_hello_def Let_def hello_sums)
  show "length ?mid = 32" using assms by (simp add: env_ok_def)
qed

lemma passes_hello_layout:
  assumes "env_ok env"
  shows "tls_client_hello_layout_matches_reference env = Some True"
proof -
  let ?d = "lit ''the secret payload''" and ?s = "lit ''example.com''"
  define r where "r = to_be16 (as_u16 (212 + length ?d + length ?s))"
  define h where "h = to_be16 (as_u16 (208 + length ?d + length ?s))"
  define hello where "hello = build_client_hello env ?d ?s"
  obtain mid x y z where e: "hello = [0x16, 3, 1] @ r @ [1, 0] @ h @ [3, 3] @ mid @ [32]
       @ x @ ?d @ y @ ?s @ z" and mid: "length mid = 32"
    using hello_shape [OF assms, of ?d ?s] unfolding hello_def r_def h_def by blast
  have rh: "length r = 2" "length h = 2" by (simp_all add: r_def h_def)
  have len: "length hello = 217 + length ?d + length ?s"
    unfolding hello_def by (rule build_client_hello_length [OF assms])
  have r: "be16_at hello 3 = Some (212 + length ?d + length ?s)"
    using be16_at_append [of 3 "[0x16, 3, 1]" "as_u16 (212 + length ?d + length ?s)"]
    by (simp add: e r_def unat_as_u16)
  have h: "be16_at hello 7 = Some (208 + length ?d + length ?s)"
    using be16_at_append [of 7 "[0x16, 3, 1] @ r @ [1, 0]" "as_u16 (208 + length ?d + length ?s)"] rh
    by (simp add: e h_def unat_as_u16)
  obtain r0 r1 h0 h1 where rs: "r = [r0, r1]" "h = [h0, h1]"
    by (simp add: r_def h_def to_be16_def)
  have bytes: "index_at hello 0 = Some 0x16" "slice_at hello 1 3 = Some [3, 1]"
    "index_at hello 5 = Some 1" "index_at hello 6 = Some 0" "slice_at hello 9 11 = Some [3, 3]"
    by (simp_all add: e rs index_at_def slice_at_def mid)
  have "index_at hello 43 = Some 32"
    using index_at_append [of "[0x16, 3, 1] @ r @ [1, 0] @ h @ [3, 3] @ mid" 32] rh mid
    by (simp add: e)
  moreover have "contains hello ?d" "contains hello ?s"
    unfolding contains_iff e by (metis append.assoc)+
  ultimately show ?thesis
    unfolding tls_client_hello_layout_matches_reference_def Let_def hello_def [symmetric]
    by (simp add: bytes bytes(2) [simplified] r h len del: length_lit)
qed

text \<open>The two records as the tests read them.\<close>

lemma two_records_hello:
  assumes "env_ok env" and "length a \<le> 100"
  defines "n \<equiv> 212 + length a + 11"
  shows "index_at (two_records env a b) 0 = Some 0x16"
    and "slice_at (two_records env a b) 1 3 = Some [3, 1]"
    and "be16_at (two_records env a b) 3 = Some n"
    and "\<exists>hello. slice_at (two_records env a b) 0 (5 + n) = Some hello \<and> contains hello a"
    and "\<exists>shake. slice_at (two_records env a b) 5 (5 + n) = Some shake \<and> contains shake a"
    and "slice_at (two_records env a b) (5 + n) (length (two_records env a b)) = Some (tls_frame b)"
    and "length (two_records env a b) = 10 + n + length b"
proof -
  let ?hello = "build_client_hello env a (lit ''example.com'')"
  define h where "h = to_be16 (as_u16 (208 + length a + length (lit ''example.com'')))"
  have eleven: "length (lit ''example.com'') = 11" by simp
  have n: "212 + length a + length (lit ''example.com'') = n" unfolding n_def eleven ..
  obtain mid x y z where e: "?hello = [0x16, 3, 1] @ to_be16 (as_u16 n) @ [1, 0] @ h @ [3, 3] @ mid @ [32]
       @ x @ a @ y @ lit ''example.com'' @ z" and "length mid = 32"
    by (rule hello_shape [OF assms(1), of a "lit ''example.com''", unfolded n, folded h_def])
  have len: "length ?hello = 5 + n"
    using build_client_hello_length [OF assms(1), of a "lit ''example.com''"] n by linarith
  have small: "unat (as_u16 n) = n" using assms(2) by (simp add: unat_as_u16 n_def)
  have w: "two_records env a b = [0x16, 3, 1] @ to_be16 (as_u16 n) @ [1, 0] @ h @ [3, 3] @ mid @ [32]
       @ x @ a @ y @ lit ''example.com'' @ z @ tls_frame b"
    by (simp add: two_records_def e)
  show "index_at (two_records env a b) 0 = Some 0x16" "slice_at (two_records env a b) 1 3 = Some [3, 1]"
    by (simp_all add: w index_at_def slice_at_def)
  show "be16_at (two_records env a b) 3 = Some n"
    using be16_at_append [of 3 "[0x16, 3, 1]" "as_u16 n"] small by (simp add: w)
  have s: "slice_at (two_records env a b) 0 (5 + n) = Some ?hello"
    "slice_at (two_records env a b) 5 (5 + n) = Some (drop 5 ?hello)"
    "slice_at (two_records env a b) (5 + n) (length (two_records env a b)) = Some (tls_frame b)"
    using len by (simp_all add: two_records_def slice_at_def drop_append_exact)
  have c: "drop 5 ?hello = ([1, 0] @ h @ [3, 3] @ mid @ [32] @ x) @ a @ y @ lit ''example.com'' @ z"
    by (simp add: e to_be16_def)
  have "contains (drop 5 ?hello) a" by (rule contains_mid [OF c])
  then show "\<exists>shake. slice_at (two_records env a b) 5 (5 + n) = Some shake \<and> contains shake a"
    using s(2) by blast
  have "?hello = take 5 ?hello @ drop 5 ?hello" by simp
  with c have "?hello = (take 5 ?hello @ [1, 0] @ h @ [3, 3] @ mid @ [32] @ x) @ a @ y @ lit ''example.com'' @ z"
    by (metis append.assoc)
  then have "contains ?hello a" by (rule contains_mid)
  then show "\<exists>hello. slice_at (two_records env a b) 0 (5 + n) = Some hello \<and> contains hello a"
    using s(1) by blast
  show "slice_at (two_records env a b) (5 + n) (length (two_records env a b)) = Some (tls_frame b)"
    by (rule s(3))
  show "length (two_records env a b) = 10 + n + length b"
    using len by (simp add: two_records_def tls_frame_def)
qed

lemma frame_parts:
  assumes "length b \<le> 100"
  shows "index_at (tls_frame b) 0 = Some 0x17" and "slice_at (tls_frame b) 1 3 = Some [3, 3]"
    and "be16_at (tls_frame b) 3 = Some (length b)" and "slice_at (tls_frame b) 5 (5 + length b) = Some b"
proof -
  show "index_at (tls_frame b) 0 = Some 0x17" "slice_at (tls_frame b) 1 3 = Some [3, 3]"
    "slice_at (tls_frame b) 5 (5 + length b) = Some b"
    by (simp_all add: tls_frame_def index_at_def slice_at_def to_be16_def)
  show "be16_at (tls_frame b) 3 = Some (length b)"
    using be16_at_append [of 3 "[0x17, 3, 3]" "as_u16 (length b)" b] assms
    by (simp add: tls_frame_def unat_as_u16)
qed

lemma plain_inner:
  "t_write_buf st = [] \<Longrightarrow> tls_poll_flush sock_io st = (Ready (Inr ()), st)"
  "t_write_buf st = [] \<Longrightarrow> tls_poll_shutdown sock_io st =
     (Ready (Inr ()), st\<lparr>t_inner := (t_inner st)\<lparr>closed := True\<rparr>\<rparr>)"
  by (simp_all add: tls_poll_flush_def tls_poll_shutdown_def tls_drain_then_def sock_io_def)

lemma first_second:
  obtains st1 st2 where
    "write_all (tls_obfs_io env sock_io) (tls_obfs_new (duplex_end [] False) (lit ''example.com''))
       (lit ''FIRST'') 5 = (Ready (Inr ()), st1)"
    "write_all (tls_obfs_io env sock_io) st1 (lit ''SECOND'') 6 = (Ready (Inr ()), st2)"
    "t_write_buf st2 = []" "tx (t_inner st2) = two_records env (lit ''FIRST'') (lit ''SECOND'')"
  by (rule two_writes [of 5 6 "lit ''FIRST''" "lit ''SECOND''" env]) (simp_all add: lit_simps)

lemma passes_tls_writes:
  assumes "env_ok env"
  shows "tls_obfs_write_first_then_chunks env = Some True"
proof -
  let ?a = "lit ''FIRST''" and ?b = "lit ''SECOND''"
  have ab: "length ?a \<le> 100" "length ?b \<le> 100" by simp_all
  obtain st1 st2 where st:
    "write_all (tls_obfs_io env sock_io) (tls_obfs_new (duplex_end [] False) (lit ''example.com'')) ?a 5
       = (Ready (Inr ()), st1)"
    "write_all (tls_obfs_io env sock_io) st1 ?b 6 = (Ready (Inr ()), st2)"
    "t_write_buf st2 = []" "tx (t_inner st2) = two_records env ?a ?b"
    by (rule first_second)
  note p = two_records_hello [OF assms ab(1)]
  note f = frame_parts [OF ab(2)]
  obtain hello where hello: "slice_at (two_records env ?a ?b) 0 (5 + (212 + length ?a + 11)) = Some hello"
    "contains hello ?a"
    using p(4) [of ?b] by blast
  have n: "length (two_records env ?a ?b) = 244" using p(7) [of ?b] by simp
  have got: "fill 4096 16 (duplex_end (two_records env ?a ?b) False) [] 16 = Some (two_records env ?a ?b)"
    using fill_once [of 16 4096 "two_records env ?a ?b" False] n by simp
  show ?thesis
    unfolding tls_obfs_write_first_then_chunks_def Let_def st unwrapped_def fst_conv snd_conv if_True
      Option.bind.bind_lunit refl simp_thms tls_obfs_io_sel plain_inner(1) [OF st(3)] got p(1-3,6) hello(1) f
    by (simp add: hello(2))
qed

lemma server_payload:
  "tls_decode (Discard TLS_FIRST_RESPONSE_DISCARD) [] server_msg =
     lit ''hello-from-server'' @ lit ''second-frame''"
proof -
  let ?a = "lit ''hello-from-server''" and ?b = "lit ''second-frame''"
  have m: "server_msg = replicate TLS_FIRST_RESPONSE_DISCARD 0xAA
      @ drop 3 (tls_frame ?a) @ tls_frame ?b @ []"
    by (simp add: server_msg_def tls_frame_def)
  have "tls_decode (Discard TLS_FIRST_RESPONSE_DISCARD) [] server_msg =
      tls_decode (Discard TLS_RECORD_HEADER_DISCARD) [] (tls_frame ?a @ tls_frame ?b @ [])"
    unfolding m by (simp add: tls_decode.simps(1) TLS_RECORD_HEADER_DISCARD_def tls_frame_def)
  also have "\<dots> = ?a @ ?b @ tls_decode (Discard TLS_RECORD_HEADER_DISCARD) [] []"
    using tls_decode_frame [of ?a "[]" "tls_frame ?b @ []"] tls_decode_frame [of ?b "[]" "[]"] by simp
  also have "tls_decode (Discard TLS_RECORD_HEADER_DISCARD) [] [] = []"
    by (simp add: tls_decode.simps(1) TLS_RECORD_HEADER_DISCARD_def)
  finally show ?thesis by simp
qed

lemma duplex_end_reader:
  "sock_solid (duplex_end w True)" "sock_avail (duplex_end w True) = w" "sock_idle (duplex_end w True) = 0"
  by (simp_all add: duplex_end_def sock_solid_def sock_avail_def sock_idle_def)

lemma passes_tls_strips:
  assumes "list_all (\<lambda>c. 0 < c) cs" and "30 \<le> length cs"
  shows "tls_obfs_read_strips_framing env cs = Some True"
proof -
  let ?st = "tls_obfs_new (duplex_end server_msg True) (lit ''example.com'')"
  let ?payload = "lit ''hello-from-server'' @ lit ''second-frame''"
  have st: "tls_ok sock_solid ?st" "tls_avail sock_avail ?st = ?payload" "tls_idle sock_idle ?st = 0"
    by (simp_all add: tls_ok_def tls_avail_def tls_idle_def tls_obfs_new_def duplex_end_reader server_payload)
  have n: "length (tls_avail sock_avail ?st) + tls_idle sock_idle ?st < length cs"
    unfolding st using assms(2) by simp
  note reads = async_read.read_to_end_all [OF sock_end.tls_read_contract [of env]]
  obtain bs r st' where
    "read_to_end (tls_obfs_io env sock_io) ?st cs = Some (bs, Ready r, st')"
    "r = Inr () \<longrightarrow> bs = tls_avail sock_avail ?st" "r = Inr () \<or> False"
    using reads [OF TrueI st(1) assms(1) n] by blast
  then have "read_to_end (tls_obfs_io env sock_io) ?st cs = Some (?payload, Ready (Inr ()), st')"
    using st(2) by simp
  then show ?thesis by (simp add: tls_obfs_read_strips_framing_def)
qed

lemma passes_tls_round_trip:
  assumes "env_ok env" and "list_all (\<lambda>c. 0 < c) cs" and "300 \<le> length cs"
  shows "tls_obfs_round_trip_through_two_wrappers env cs = Some True"
proof -
  let ?a = "lit ''first-msg''" and ?b = "lit ''second-msg''"
  have ab: "length ?a \<le> 100" "length ?b \<le> 100" by simp_all
  obtain st1 st2 where st:
    "write_all (tls_obfs_io env sock_io) (tls_obfs_new (duplex_end [] False) (lit ''example.com'')) ?a 9
       = (Ready (Inr ()), st1)"
    "write_all (tls_obfs_io env sock_io) st1 ?b 10 = (Ready (Inr ()), st2)"
    "t_write_buf st2 = []" "tx (t_inner st2) = two_records env ?a ?b"
    by (rule two_writes [of 9 10 ?a ?b env]) (simp_all add: lit_simps)
  have tx: "tx (t_inner (st2\<lparr>t_inner := (t_inner st2)\<lparr>closed := True\<rparr>\<rparr>)) = two_records env ?a ?b"
    using st(4) by simp
  note p = two_records_hello [OF assms(1) ab(1)]
  note f = frame_parts [OF ab(2)]
  obtain shake where shake: "slice_at (two_records env ?a ?b) 5 (5 + (212 + length ?a + 11)) = Some shake"
    "contains shake ?a"
    using p(5) [of ?b] by blast
  have "length (two_records env ?a ?b) < length cs" using p(7) [of ?b] assms(3) by simp
  then obtain s' where got: "read_to_end sock_io (duplex_end (two_records env ?a ?b) True) cs =
      Some (two_records env ?a ?b, Ready (Inr ()), s')"
    using sock_end.read_to_end_all [OF TrueI _ assms(2), of "duplex_end (two_records env ?a ?b) True"]
    by (auto simp: duplex_end_reader)
  have "(case Some (two_records env ?a ?b, Ready (Inr ()), s') of
      Some (got, Ready (Inr _), _) \<Rightarrow> Some got | _ \<Rightarrow> None) = Some (two_records env ?a ?b)"
    by simp
  note got = got this
  show ?thesis
    unfolding tls_obfs_round_trip_through_two_wrappers_def Let_def st(1,2) unwrapped_def fst_conv snd_conv
      if_True Option.bind.bind_lunit refl simp_thms tls_obfs_io_sel plain_inner(2) [OF st(3)] tx
      got(1) p(1,3,6) shake(1) f option.case prod.case poll.case sum.case
    by (simp add: shake(2))
qed

section \<open>Property\<close>

text \<open>C40: The unit tests of \<open>simple_obfs.rs\<close> pass on the model, whatever the random bytes are, and for every
  size of the buffers \<open>read_to_end\<close> polls with: the layout of the request and of the hello, the
  first write and the passthrough after it, the removal of the response header and of the
  record framing, and the two records a server sees.\<close>

theorem obfs_tests_pass:
  assumes "key_ok http" and "env_ok tls" and "list_all (\<lambda>c. 0 < c) cs" and "300 \<le> length cs"
  shows "http_request_contains_body_and_headers http = Some True \<and>
    http_request_uses_host_port_when_not_80 http = Some True \<and>
    tls_client_hello_layout_matches_reference tls = Some True \<and>
    http_obfs_first_write_then_passthrough http = Some True \<and>
    http_obfs_strips_first_response_headers http cs = Some True \<and>
    tls_obfs_write_first_then_chunks tls = Some True \<and>
    tls_obfs_read_strips_framing tls cs = Some True \<and>
    tls_obfs_round_trip_through_two_wrappers tls cs = Some True"
  using assms
  by (simp add: passes_request_body passes_request_port passes_hello_layout passes_http_writes
      passes_http_strips passes_tls_writes passes_tls_strips passes_tls_round_trip)

definition sample_key_env :: http_env where
  "sample_key_env = \<lparr>rand_bytes = replicate 16 0, rand_maj = 7, rand_min = 1,
     b64_url_safe = (\<lambda>bs. replicate 22 65 @ [61, 61])\<rparr>"

theorem obfs_tests_pass_witness:
  "http_request_contains_body_and_headers sample_key_env = Some True \<and>
   tls_obfs_round_trip_through_two_wrappers sample_tls_env (replicate 300 32) = Some True"
proof -
  have "key_ok sample_key_env"
    by (simp add: key_ok_def request_key_def sample_key_env_def url_safe_char_def list_all_iff)
  moreover have "env_ok sample_tls_env" by (simp add: env_ok_def sample_tls_env_def)
  moreover have "list_all (\<lambda>c. 0 < c) (replicate 300 (32 :: nat))" by (simp add: list_all_iff)
  ultimately show ?thesis
    using obfs_tests_pass [of sample_key_env sample_tls_env "replicate 300 32"] by simp
qed

end
