(* ===== verification/Spec2Isabelle.thy ===== *)
theory Spec2Isabelle
  imports Dns_Roundtrip Handlers Tunnel_System Jni V2ray_Dial V2ray_Tests Tls_Tests
begin

text \<open>
  Verification of the Rust code of meow-go, an Android proxy client: the tun2socks layer
  (\<open>core/src/main/rust/mihomo-android-ffi/src\<close>) and two transports of Shadowsocks
  (\<open>core/src/main/rust/mihomo-proxy-patched/src\<close>).

  The program.  Android's VPN service hands the layer a TUN descriptor through JNI
  (\<open>lib.rs\<close>).  \<open>tun2socks.rs\<close> reads IP packets from it: a UDP packet to port 53 becomes a task
  that resolves the query over HTTPS (\<open>doh_client.rs\<close>), remembers the addresses of the answer
  (\<open>dns_table.rs\<close>) and sends the reply packet back; every other packet goes through a bounded
  channel to a user-space TCP stack, and each connection the stack accepts is relayed to a
  local SOCKS5 proxy, by the name remembered for its address.  \<open>simple_obfs.rs\<close> and
  \<open>v2ray_plugin.rs\<close> wrap a byte stream so that it looks like HTTP, TLS or WebSocket traffic.

  The theories.
  \<^item> \<open>Prelude\<close>: bytes and words, checked indexing (\<open>None\<close> is a Rust panic), hint collections.
  \<^item> \<open>Rust_Str\<close>: strings as UTF-8 bytes; validity, splitting, trimming, ASCII case, decimals.
  \<^item> \<open>Dns_Wire\<close> (\<open>dns_table.rs\<close> 60-190): the wire parsers, never panicking, and the inductive
    reading \<open>dns_name\<close> they implement.  \<open>Dns_Roundtrip\<close>: the names of RFC 1035 (\<open>name_at\<close>) and an
    encoder of its messages as the specification, what the parser reads besides them, and the
    round trip.
  \<^item> \<open>Dns_Table\<close> (\<open>dns_table.rs\<close> 14-54): insertion, lookup, eviction; the interface
    \<open>host_table\<close> and its interpretation by the table.  \<open>Dns_History\<close>: any history of calls
    answered as its reference answers it, the last live insertion; the types of the table.
  \<^item> \<open>Udp_Packet\<close> (\<open>tun2socks.rs\<close> 353-419): parsing and building packets, the checksum, and a strict
    receiver (RFC 791, 768, 1071) of what is built.
  \<^item> \<open>Async_Io\<close>: the traits of tokio as dictionaries of polls, their documented contracts as the
    locales \<open>async_read\<close>, \<open>async_write_live\<close> (every wait is bounded), \<open>async_write_sound\<close>, \<open>async_write\<close>,
    \<open>duplex\<close>, the write buffer that both obfuscators drain, and a scripted socket that interprets them.  The
    parameters \<open>strict\<close> and \<open>faulty\<close> of a reader say whether an empty read into a buffer with room
    means the end, and whether it may return errors; the parameter \<open>broken\<close> of a writer says whether it
    may return errors or take nothing of a buffer.  \<open>Conn\<close>: whole-buffer
    operations over any \<open>duplex\<close>, the locale \<open>exact_stream\<close>.
  \<^item> \<open>Socks5\<close> (\<open>tun2socks.rs\<close> 278-347): the client and a server's reading of its requests.
  \<^item> \<open>Doh_Client\<close> (\<open>doh_client.rs\<close>): the server list, the one-time client, the resolution.
  \<^item> \<open>Lifecycle\<close> (\<open>tun2socks.rs\<close> 25-55, 160-168, 220-230): the running flag and the tasks, as
    interleavings of events, with the panics of a start.  \<open>Tunnel\<close> (\<open>tun2socks.rs\<close> 82-218): reader, channels, driver, writer;
    the locale \<open>fifo\<close> is what tokio documents of its channels.  \<open>Tunnel_Run\<close> (\<open>tun2socks.rs\<close>
    88-233): all tasks of \<open>run_tun2socks\<close> as a step relation, with the control of the reader, the
    accept loop and the teardown; it refines \<open>Tunnel\<close>, whose FIFO invariants carry over.  \<open>Tunnel_System\<close>
    (25-55): the flag and every started tunnel together; it refines \<open>Lifecycle\<close> and \<open>Tunnel_Run\<close>.  \<open>Handlers\<close> (\<open>tun2socks.rs\<close>
    236-272, 421-445): the DNS task and the TCP task.
  \<^item> \<open>Jni\<close> (\<open>lib.rs\<close>, \<open>logging.rs\<close>): the entry points over the state of the process.
  \<^item> \<open>Http_Obfs\<close>, \<open>Tls_Obfs\<close> (\<open>simple_obfs.rs\<close>): the two wrappers; each is shown to be a reader
    again (\<open>async_read\<close>), of the stripped and of the decoded stream, to wait only when the
    transport does (\<open>async_write_live\<close>), and to fail only when it is broken.  \<open>Tls_Write\<close>,
    \<open>Http_Request\<close>, \<open>Tls_Hello\<close>: what is written, and that a strict server recovers it.
  \<^item> \<open>V2ray_Opts\<close>, \<open>Ws_Stream\<close>, \<open>V2ray_Dial\<close> (\<open>v2ray_plugin.rs\<close>): the options, the stream over
    WebSocket messages (a \<open>duplex\<close> over any \<open>ws_peer\<close>), the dial with its request, a header map iterating in any order.
  \<^item> \<open>Obfs_Tests\<close>, \<open>Tls_Tests\<close>, \<open>V2ray_Tests\<close>: the unit tests of the two files, which the model
    passes.

  Conventions.  A function keeps the name and the branches of the source.  A panic is
  \<open>None\<close>, an error a value of a sum type, a poll \<open>Ready\<close> or \<open>Pending\<close>.  Loops that can run
  forever are \<open>partial_function\<close>s (\<open>tls_poll_read\<close>, \<open>ws_poll_read\<close>) and are shown to return over every
  transport with finitely much to deliver; the others carry a termination proof.  The drivers
  \<open>read_seq\<close>, \<open>write_retry\<close>, \<open>write_all\<close> and \<open>read_exact\<close> poll a bounded number of times.  The contracts
  carry the bounds that are enough: \<open>idle s\<close> fruitless reads and \<open>stalls s\<close> waiting writes, so
  \<open>length payload + idle s\<close> reads get everything, and \<open>stalls s + length buf\<close> writes send
  everything (\<open>read_to_end\<close> one more, to see the end); for the connection of the SOCKS5 client \<open>length (rx s) < k\<close> and
  \<open>length (wscript s) < k\<close> are enough (\<open>Socks5\<close>).  A stopped
  tunnel needs five steps of its own (\<open>Tunnel_System\<close>).  The code of other crates (tokio, reqwest, rustls, tungstenite,
  netstack-smoltcp, base64, rand, serde) is a parameter, with a locale where the code relies
  on a law of it.  16-bit sums wrap as in the release build.

  Not modelled: the text of trace lines other than the JNI entry points', the marshalling of
  Java strings, the inside of the TCP stack and of the relay loop, and
  everything in other languages (the Go engine, Kotlin, Dart, C).  The insertions of one DNS task are
  taken as consecutive calls of the table (\<open>insert_records\<close>); \<open>Dns_History\<close> has any order of the calls.
\<close>

section \<open>Properties that span components\<close>


definition sample_response :: "byte list" where
  "sample_response =
     enc_response [0, 0, 0x81, 0x80] [0, 0, 0, 0] [lit ''a''] [0, 1, 0, 1] sample_answers []"

lemma sample_records: "parse_dns_response_records sample_response = Some ([] @ (V4 1 2 3 4, lit ''a'', 60) # [])"
  using parse_enc_response [of "[0, 0, 0x81, 0x80]" "[0, 0, 0, 0]" "[0, 1, 0, 1]" "[lit ''a'']"
      sample_answers "[]"]
  by (simp add: sample_response_def sample_answers_ok expected_sample)
    (simp add: label_ok_def lit_simps sample_answers_def)

definition sample_calls :: "table_call list" where
  "sample_calls = [Insert 70 71 (V4 9 9 9 9) (lit ''z'') 60, Lookup 80 (V4 1 2 3 4)]"


end
